(* ===== verification/Kernel_Prelude.thy ===== *)
theory Kernel_Prelude
  imports Main "HOL-Library.Word" "HOL-Library.Monad_Syntax"
begin

text \<open>
  Shared vocabulary of the development: the widths of the C types, C strings held in fixed-size
  arrays, the decimal digit loops that several files of the kernel repeat, and the walk round a
  circular list that both schedulers use.

  Conventions.
  \<^item> \<open>u8\<close>, \<open>u16\<close>, \<open>u32\<close> are the unsigned C types; arithmetic on them wraps. A C \<open>int\<close> that only
    counts or indexes (and is never negative in the code) is a \<open>nat\<close>; where its sign or its wrap
    matters it is an \<open>int\<close> or a word read with \<open>sint\<close>.
  \<^item> A C string is the list of characters up to the first NUL; a fixed-size array is a list of that
    length, so what lies behind the terminator is kept as well. The end of the list stands for the
    terminator of a string literal.
  \<^item> An operation that may fail to return (it waits for a lock, a loop never ends, or it leaves the
    behaviour C defines) has an \<open>option\<close> result: \<open>None\<close> is "does not return".
\<close>

unbundle bit_operations_syntax

named_theorems kdefs \<open>unfolding equations of the kernel operations\<close>
named_theorems kinv \<open>preservation of component invariants\<close>

type_synonym u8 = "8 word"
type_synonym u16 = "16 word"
type_synonym u32 = "32 word"

section \<open>C strings in fixed-size arrays\<close>

abbreviation NUL :: char where
  "NUL \<equiv> CHR 0x00"

abbreviation newline :: char where
  "newline \<equiv> CHR 0x0A"

text \<open>The characters of an array that C code sees as a string.\<close>

definition cstr :: "char list \<Rightarrow> string" where
  "cstr a = takeWhile (\<lambda>c. c \<noteq> NUL) a"

text \<open>Writing a run of characters at the front of an array (the copy loops of the kernel).\<close>

definition blit :: "char list \<Rightarrow> string \<Rightarrow> char list" where
  "blit a s = s @ drop (length s) a"

lemma cstr_Nil [simp]: "cstr [] = []"
  by (simp add: cstr_def)

lemma cstr_Cons [simp]: "cstr (c # a) = (if c = NUL then [] else c # cstr a)"
  by (simp add: cstr_def)

lemma NUL_notin_cstr [simp]: "NUL \<notin> set (cstr a)"
  by (auto simp: cstr_def dest: set_takeWhileD)

lemma cstr_id: "NUL \<notin> set s \<Longrightarrow> cstr s = s"
  by (auto simp: cstr_def takeWhile_eq_all_conv)

lemma cstr_cstr [simp]: "cstr (cstr s) = cstr s"
  by (simp add: cstr_id)

lemma cstr_terminated: "NUL \<notin> set s \<Longrightarrow> cstr (s @ NUL # r) = s"
  by (induction s) auto

lemma length_cstr_le: "length (cstr a) \<le> length a"
  by (simp add: cstr_def length_takeWhile_le)

lemma length_blit [simp]: "length s \<le> length a \<Longrightarrow> length (blit a s) = length a"
  by (simp add: blit_def)

lemma cstr_blit: "NUL \<notin> set s \<Longrightarrow> cstr (blit a (s @ [NUL])) = s"
  by (simp add: blit_def cstr_terminated)

lemma take_no_NUL: "NUL \<notin> set s \<Longrightarrow> NUL \<notin> set (take n s)"
  by (meson in_set_takeD)

section \<open>Signed readings of 32-bit words\<close>

lemma sint_u32: "sint (w :: u32) = (if uint w < 2 ^ 31 then uint w else uint w - 2 ^ 32)"
proof -
  have lt: "0 \<le> uint w" "uint w < 4294967296" using uint_lt2p [of w] by simp_all
  have "odd (uint w div 2147483648) \<longleftrightarrow> \<not> uint w < 2147483648"
  proof (cases "uint w < 2147483648")
    case True
    with lt show ?thesis by simp
  next
    case False
    with lt have "uint w div 2147483648 = 1"
      by (intro int_div_pos_eq [where r = "uint w - 2147483648"]) auto
    with False show ?thesis by simp
  qed
  with lt show ?thesis
    by (simp add: sint_uint signed_take_bit_eq_take_bit_minus take_bit_int_eq_self bit_iff_odd)
qed

lemma sint_u32_small:
  assumes "unat (w :: u32) < 2 ^ 31"
  shows "sint w = uint w"
proof -
  have "int (unat w) < int (2 ^ 31)" using assms by (simp only: of_nat_less_iff)
  then have "uint w < 2 ^ 31" by simp
  then show ?thesis by (simp add: sint_u32)
qed

lemma unat_u32: "unat (w :: u32) < 2 ^ 32"
  using unsigned_less [of w] by simp

lemma unat_of_nat_u32: "a < 2 ^ 32 \<Longrightarrow> unat (of_nat a :: u32) = a"
  by (simp add: unat_of_nat)

lemma of_nat_u32_inj: "a < 2 ^ 32 \<Longrightarrow> b < 2 ^ 32 \<Longrightarrow> (of_nat a :: u32) = of_nat b \<longleftrightarrow> a = b"
  by (metis unat_of_nat_u32)

lemma of_nat_u32_0: "a < 2 ^ 32 \<Longrightarrow> (of_nat a :: u32) = 0 \<longleftrightarrow> a = 0"
  using of_nat_u32_inj [of a 0] by simp

lemma unat_u32_plus: "unat (x :: u32) + unat y < 2 ^ 32 \<Longrightarrow> unat (x + y) = unat x + unat y"
  by (simp add: unat_word_ariths)

lemma unat_u32_minus: "unat (y :: u32) \<le> unat x \<Longrightarrow> unat (x - y) = unat x - unat y"
  by (simp add: unat_sub_if')

lemma uint_u32_minus_1: "0 < uint (w :: u32) \<Longrightarrow> uint (w - 1) = uint w - 1"
  using uint_lt2p [of w] by (simp add: uint_word_ariths)

lemma uint_u32_plus_1: "uint (w :: u32) < 2 ^ 32 - 1 \<Longrightarrow> uint (w + 1) = uint w + 1"
  by (simp add: uint_word_ariths)

lemma sint_u32_minus_1: "0 < sint (w :: u32) \<Longrightarrow> sint (w - 1) = sint w - 1"
  using uint_lt2p [of w] by (auto simp: sint_u32 uint_u32_minus_1 split: if_splits)

lemma sint_u32_plus_1: "0 \<le> sint (w :: u32) \<Longrightarrow> sint w < 2 ^ 31 - 1 \<Longrightarrow> sint (w + 1) = sint w + 1"
  using uint_lt2p [of w] by (auto simp: sint_u32 uint_u32_plus_1 split: if_splits)

lemma sint_u32_bounds: "- (2 ^ 31) \<le> sint (w :: u32)" "sint (w :: u32) < 2 ^ 31"
  using sint_ge [of w] sint_lt [of w] by simp_all

lemma uint_of_sint: "0 \<le> sint (w :: u32) \<Longrightarrow> uint w = sint w"
  using uint_lt2p [of w] by (auto simp: sint_u32 split: if_splits)

section \<open>Bounded copies and decimal digits\<close>

text \<open>The characters a loop \<open>for (i = 0; i < n && s[i]; i++)\<close> passes over.\<close>

fun str_prefix :: "nat \<Rightarrow> char list \<Rightarrow> string" where
  "str_prefix n [] = []"
| "str_prefix n (c # cs) = (if n = 0 \<or> c = NUL then [] else c # str_prefix (n - 1) cs)"

lemma str_prefix_eq: "str_prefix n s = take n (cstr s)"
  by (induction n s rule: str_prefix.induct) (auto simp: take_Cons')

definition digit_char :: "nat \<Rightarrow> char" where
  "digit_char d = char_of (48 + d)"

text \<open>
  \<open>dec_loop\<close> is the digit loop of the kernel's number printers, least significant digit first,
  with \<open>lim\<close> the room left in the digit buffer; \<open>dec_string\<close> is the numeral it stands for.
\<close>

fun dec_loop :: "nat \<Rightarrow> nat \<Rightarrow> string" where
  "dec_loop 0 n = []"
| "dec_loop (Suc lim) n = (if n = 0 then [] else digit_char (n mod 10) # dec_loop lim (n div 10))"

fun dec_string :: "nat \<Rightarrow> string" where
  "dec_string n = (if n < 10 then [digit_char n] else dec_string (n div 10) @ [digit_char (n mod 10)])"

declare dec_string.simps [simp del]

lemma dec_loop_0 [simp]: "dec_loop lim 0 = []"
  by (cases lim) simp_all

lemma dec_loop_rev: "0 < n \<Longrightarrow> n < 10 ^ lim \<Longrightarrow> rev (dec_loop lim n) = dec_string n"
proof (induction lim arbitrary: n)
  case 0
  then show ?case by simp
next
  case (Suc lim)
  show ?case
  proof (cases "n < 10")
    case True
    with Suc.prems show ?thesis by (simp add: dec_string.simps [of n])
  next
    case False
    then have "0 < n div 10" and "n div 10 < 10 ^ lim"
      using Suc.prems by (simp_all add: div_greater_zero_iff less_mult_imp_div_less mult.commute)
    with Suc.IH [of "n div 10"] False show ?thesis
      by (simp add: dec_string.simps [of n])
  qed
qed

lemma digit_char_inj: "a < 10 \<Longrightarrow> b < 10 \<Longrightarrow> digit_char a = digit_char b \<Longrightarrow> a = b"
  unfolding digit_char_def by (drule arg_cong [where f = "of_char :: char \<Rightarrow> nat"]) simp

lemma of_char_digit [simp]: "d < 10 \<Longrightarrow> of_char (digit_char d) = (48 + d :: nat)"
  by (simp add: digit_char_def)

lemma digit_char_0: "digit_char 0 = CHR ''0''"
  by code_simp

lemma digit_not_NUL: "d < 10 \<Longrightarrow> digit_char d \<noteq> NUL"
proof
  assume "d < 10" and "digit_char d = NUL"
  then have "(48 + d :: nat) = of_char NUL" by (metis of_char_digit)
  then show False by simp
qed

lemma dec_string_no_NUL: "NUL \<notin> set (dec_string n)"
proof (induction n rule: dec_string.induct)
  case (1 n)
  then show ?case
    using digit_not_NUL [of n] digit_not_NUL [of "n mod 10"] by (auto simp: dec_string.simps [of n])
qed

lemma length_dec_string: "n < 10 ^ k \<Longrightarrow> 0 < k \<Longrightarrow> length (dec_string n) \<le> k"
proof (induction k arbitrary: n)
  case 0
  then show ?case by simp
next
  case (Suc k)
  show ?case
  proof (cases "n < 10")
    case True
    then show ?thesis by (simp add: dec_string.simps [of n])
  next
    case False
    with Suc.prems have "0 < k" by (cases k) auto
    moreover have "n div 10 < 10 ^ k"
      using Suc.prems by (simp add: less_mult_imp_div_less mult.commute)
    ultimately show ?thesis
      using Suc.IH [of "n div 10"] False by (simp add: dec_string.simps [of n])
  qed
qed

text \<open>Reading a numeral back: the digit loops of the shell, on natural numbers.\<close>

definition is_digit :: "char \<Rightarrow> bool" where
  "is_digit c \<longleftrightarrow> 48 \<le> (of_char c :: nat) \<and> (of_char c :: nat) \<le> 57"

fun parse_dec :: "nat \<Rightarrow> string \<Rightarrow> nat" where
  "parse_dec acc [] = acc"
| "parse_dec acc (c # cs) = (if is_digit c then parse_dec (acc * 10 + (of_char c - 48)) cs else acc)"

lemma is_digit_char [simp]: "d < 10 \<Longrightarrow> is_digit (digit_char d)"
  by (simp add: is_digit_def)

lemma dec_string_digits: "list_all is_digit (dec_string n)"
  by (induction n rule: dec_string.induct) (subst dec_string.simps, simp)

lemma parse_dec_append:
  "list_all is_digit s \<Longrightarrow> parse_dec acc (s @ r) = parse_dec (parse_dec acc s) r"
  by (induction s arbitrary: acc) simp_all

lemma parse_dec_string: "parse_dec 0 (dec_string n) = n"
proof (induction n rule: dec_string.induct)
  case (1 n)
  then show ?case
    by (cases "n < 10")
      (simp_all add: dec_string.simps [of n] parse_dec_append dec_string_digits)
qed

section \<open>Bit masks\<close>

lemma byte_masks:
  "(0xFFFF :: u32) = mask 16" "(0xFF :: u32) = mask 8" "(0xF :: u32) = mask 4" "(0xF :: u8) = mask 4"
  "(0xF0 :: u8) = push_bit 4 (mask 4)" "(0xFFF :: u32) = mask 12" "(0xFFFFF :: u32) = mask 20"
  by (simp_all add: mask_eq_exp_minus_1)

section \<open>Searching a table by index\<close>

lemma find_index_None: "find P [m..<n] = None \<longleftrightarrow> (\<forall>i. m \<le> i \<and> i < n \<longrightarrow> \<not> P i)"
  by (auto simp: find_None_iff)

lemma find_index_Some: "find P [m..<n] = Some i \<Longrightarrow> m \<le> i \<and> i < n \<and> P i"
  by (auto simp: find_Some_iff)

lemma find_index_unique: "P i \<Longrightarrow> m \<le> i \<Longrightarrow> i < n \<Longrightarrow> (\<And>j. m \<le> j \<Longrightarrow> j < n \<Longrightarrow> P j \<Longrightarrow> j = i) \<Longrightarrow> find P [m..<n] = Some i"
  by (metis find_index_None find_index_Some option.exhaust)

section \<open>Reversing an array in place\<close>

text \<open>The loop \<open>for (i = 0; i < len / 2; i++)\<close> that swaps the elements \<open>i\<close> and \<open>len - 1 - i\<close>.\<close>

definition swap_ends :: "nat \<Rightarrow> 'a list \<Rightarrow> 'a list" where
  "swap_ends i xs = xs[i := xs ! (length xs - 1 - i), length xs - 1 - i := xs ! i]"

definition reverse_in_place :: "'a list \<Rightarrow> 'a list" where
  "reverse_in_place xs = fold swap_ends [0..<length xs div 2] xs"

lemma length_swap_ends [simp]: "length (swap_ends i xs) = length xs"
  by (simp add: swap_ends_def)

lemma nth_swap_ends:
  "i < length xs \<Longrightarrow> j < length xs \<Longrightarrow> swap_ends i xs ! j =
    (if j = length xs - 1 - i then xs ! i else if j = i then xs ! (length xs - 1 - i) else xs ! j)"
  by (auto simp: swap_ends_def nth_list_update)

lemma swap_fold_nth:
  assumes "k \<le> length xs div 2" and "j < length xs"
  shows "length (fold swap_ends [0..<k] xs) = length xs \<and>
    fold swap_ends [0..<k] xs ! j =
      (if j < k \<or> length xs - 1 - k < j then xs ! (length xs - 1 - j) else xs ! j)"
  using assms
proof (induction k arbitrary: j)
  case 0
  then show ?case by auto
next
  case (Suc k)
  let ?ys = "fold swap_ends [0..<k] xs" and ?m = "length xs - 1 - k"
  have len: "length ?ys = length xs" and k: "k < ?m" "?m < length xs"
    using Suc by auto
  have "?ys ! k = xs ! k" "?ys ! ?m = xs ! ?m"
    using Suc.IH [of k] Suc.IH [of ?m] Suc.prems(1) k by auto
  with len k Suc.prems(2) Suc.IH [of j] Suc.prems(1) show ?case
    by (auto simp: nth_swap_ends)
qed

lemma reverse_in_place_rev: "reverse_in_place xs = rev xs"
proof (rule nth_equalityI)
  show "length (reverse_in_place xs) = length (rev xs)"
    using swap_fold_nth [of "length xs div 2" xs 0] unfolding reverse_in_place_def by (cases xs) auto
  fix i assume "i < length (reverse_in_place xs)"
  then have i: "i < length xs"
    using swap_fold_nth [of "length xs div 2" xs 0] unfolding reverse_in_place_def by (cases xs) auto
  then have "i < length xs div 2 \<or> length xs - 1 - length xs div 2 < i \<or> length xs - 1 - i = i"
    by arith
  with swap_fold_nth [of "length xs div 2" xs i] i show "reverse_in_place xs ! i = rev xs ! i"
    unfolding reverse_in_place_def by (auto simp: rev_nth)
qed

section \<open>Simulation\<close>

text \<open>
  Operations on a state that, as long as an invariant holds and the operation is admissible, do to a view of the state
  what their specification says. Whole runs then do so too.
\<close>

locale simulation =
  fixes step :: "'op \<Rightarrow> 's \<Rightarrow> 's" and spec :: "'op \<Rightarrow> 'a \<Rightarrow> 'a" and view :: "'s \<Rightarrow> 'a"
    and inv :: "'s \<Rightarrow> bool" and ok :: "'op \<Rightarrow> bool"
  assumes step_simulates: "inv s \<Longrightarrow> ok p \<Longrightarrow> inv (step p s) \<and> view (step p s) = spec p (view s)"
begin

lemma run_simulates:
  "inv s \<Longrightarrow> list_all ok ps \<Longrightarrow> inv (fold step ps s) \<and> view (fold step ps s) = fold spec ps (view s)"
  by (induction ps arbitrary: s) (auto simp: step_simulates)

end

section \<open>Reachable states\<close>

text \<open>
  The states a step relation leads to from a set of initial states, and the contract of an invariant: interleavings of
  tasks over one lock, of users of a semaphore, and of interrupts and tasks over the whole kernel are such systems.
\<close>

inductive reaches :: "'s set \<Rightarrow> ('s \<Rightarrow> 's \<Rightarrow> bool) \<Rightarrow> 's \<Rightarrow> bool" for init step where
  start: "s \<in> init \<Longrightarrow> reaches init step s"
| step: "reaches init step s \<Longrightarrow> step s s' \<Longrightarrow> reaches init step s'"

locale step_invariant =
  fixes init :: "'s set" and step :: "'s \<Rightarrow> 's \<Rightarrow> bool" and inv :: "'s \<Rightarrow> bool"
  assumes init_inv: "s \<in> init \<Longrightarrow> inv s" and step_inv: "step s s' \<Longrightarrow> inv s \<Longrightarrow> inv s'"
begin

lemma reaches_inv: "reaches init step s \<Longrightarrow> inv s"
  by (induction rule: reaches.induct) (blast intro: init_inv step_inv)+

end

end
