(* ===== verification/Scheduling.thy ===== *)
theory Scheduling
  imports Kernel_Prelude
begin

text \<open>
  What \<^verbatim>\<open>task.c\<close> and \<^verbatim>\<open>process.c\<close> share: control blocks linked in a circle and walked by
  \<open>do ... while (t != start)\<close>, the choice of the best block met on such a walk, and the initial stack
  frame of a new task. A pointer is a natural number, 0 is NULL.
\<close>

section \<open>Circular lists\<close>

fun linked :: "('p \<Rightarrow> 'p) \<Rightarrow> 'p list \<Rightarrow> 'p \<Rightarrow> bool" where
  "linked nx [] z \<longleftrightarrow> True"
| "linked nx (x # xs) z \<longleftrightarrow> nx x = (case xs of [] \<Rightarrow> z | y # _ \<Rightarrow> y) \<and> linked nx xs z"

definition circle :: "('p \<Rightarrow> 'p) \<Rightarrow> 'p list \<Rightarrow> bool" where
  "circle nx xs \<longleftrightarrow> xs \<noteq> [] \<and> distinct xs \<and> linked nx xs (hd xs)"

lemma linked_append:
  "linked nx (xs @ ys) z \<longleftrightarrow> linked nx xs (case ys of [] \<Rightarrow> z | y # _ \<Rightarrow> y) \<and> linked nx ys z"
  by (induction xs) (auto split: list.splits)

lemma linked_cong: "(\<And>x. x \<in> set xs \<Longrightarrow> nx' x = nx x) \<Longrightarrow> linked nx' xs z = linked nx xs z"
  by (induction xs) auto

lemma linked_upd [simp]: "x \<notin> set xs \<Longrightarrow> linked (nx(x := y)) xs z = linked nx xs z"
  by (rule linked_cong) auto

lemma linked_relink:
  "linked nx xs z \<Longrightarrow> xs \<noteq> [] \<Longrightarrow> distinct xs \<Longrightarrow> linked (nx(last xs := y)) xs y"
proof (induction xs)
  case (Cons x xs)
  then show ?case by (cases xs) auto
qed simp

lemma linked_next: "linked nx xs z \<Longrightarrow> x \<in> set xs \<Longrightarrow> nx x \<in> insert z (set (tl xs))"
proof (induction xs)
  case (Cons x xs)
  then show ?case by (cases xs) auto
qed simp

lemma circle_cong: "(\<And>x. x \<in> set xs \<Longrightarrow> nx' x = nx x) \<Longrightarrow> circle nx' xs = circle nx xs"
  by (simp add: circle_def cong: linked_cong)

lemma circle_rotate1: "circle nx xs \<Longrightarrow> circle nx (rotate1 xs)"
  by (cases xs) (auto simp: circle_def linked_append split: list.splits)

lemma circle_rotate: "circle nx xs \<Longrightarrow> circle nx (rotate n xs)"
  by (induction n) (simp_all add: circle_rotate1)

text \<open>Every member of a circle can serve as its first element.\<close>

lemma circle_from:
  assumes "circle nx xs" and "x \<in> set xs"
  shows "\<exists>ys. circle nx (x # ys) \<and> set (x # ys) = set xs \<and> length (x # ys) = length xs"
proof -
  obtain us vs where xs: "xs = us @ x # vs"
    using assms(2) by (meson split_list)
  have "circle nx (rotate (length us) xs)"
    using assms(1) by (rule circle_rotate)
  moreover have "rotate (length us) xs = x # vs @ us"
    using xs by (simp add: rotate_append)
  ultimately show ?thesis
    using xs by (intro exI [of _ "vs @ us"]) auto
qed

lemma circle_next_closed: "circle nx xs \<Longrightarrow> x \<in> set xs \<Longrightarrow> nx x \<in> set xs"
proof -
  assume "circle nx xs" and "x \<in> set xs"
  then obtain ys where ys: "circle nx (x # ys)" "set (x # ys) = set xs"
    using circle_from by metis
  then have "nx x \<in> set (x # ys)" by (cases ys) (auto simp: circle_def)
  with ys show ?thesis by simp
qed

lemma circle_insert_after:
  assumes "circle nx (x # xs)" and "y \<notin> set (x # xs)"
  shows "circle (nx(y := nx x, x := y)) (x # y # xs)"
  using assms by (auto simp: circle_def split: list.splits)

lemma circle_insert_last:
  assumes "circle nx (h # xs)" and "y \<notin> set (h # xs)"
  shows "circle (nx(last (h # xs) := y, y := h)) (h # xs @ [y])"
proof -
  obtain b l where bl: "h # xs = b @ [l]" by (metis rev_exhaust list.distinct(1))
  have "(h # xs) @ [y] = b @ [l, y]" unfolding bl by simp
  then have eq: "h # xs @ [y] = b @ [l, y]" by simp
  have l: "last (h # xs) = l" unfolding bl by simp
  have h: "hd (b @ [l, y]) = h" unfolding eq [symmetric] by simp
  have lk: "linked nx b l" "distinct (b @ [l])" "y \<notin> set (b @ [l])"
    using assms bl by (simp_all add: circle_def linked_append)
  then have "linked (nx(l := y, y := h)) (b @ [l, y]) h"
    by (auto simp: linked_append)
  with lk show ?thesis unfolding eq l circle_def h by auto
qed

section \<open>Walks\<close>

text \<open>
  \<open>t = first; do { body(t); t = t->next; } while (t != stop);\<close> The successor is read after the body
  has run. A walk that never meets \<open>stop\<close> again does not return.
\<close>

partial_function (option) ring_walk ::
  "('p \<Rightarrow> 's \<Rightarrow> 's) \<Rightarrow> ('s \<Rightarrow> 'p \<Rightarrow> 'p) \<Rightarrow> 'p \<Rightarrow> 'p \<Rightarrow> 's \<Rightarrow> 's option" where
  "ring_walk body links stop t s =
     (let s' = body t s; t' = links s' t
      in if t' = stop then Some s' else ring_walk body links stop t' s')"

declare ring_walk.simps [code]

lemma ring_walk_invariant:
  assumes "ring_walk body nxt stop t s = Some s'" and "P s" and "\<And>t s. P s \<Longrightarrow> P (body t s)"
  shows "P s'"
proof -
  let ?Q = "\<lambda>body nxt stop t s s'. (\<forall>t s. P s \<longrightarrow> P (body t s)) \<longrightarrow> P s \<longrightarrow> P s'"
  have "?Q body nxt stop t s s'"
  proof (rule ring_walk.raw_induct [where P = ?Q, OF _ assms(1)])
    fix walk and body :: "'b \<Rightarrow> 'a \<Rightarrow> 'a" and nxt stop t s s'
    assume IH: "\<And>body nxt stop t s s'. walk body nxt stop t s = Some s' \<Longrightarrow> ?Q body nxt stop t s s'"
      and step: "(let s' = body t s; t' = nxt s' t in if t' = stop then Some s' else walk body nxt stop t' s') = Some s'"
    show "?Q body nxt stop t s s'"
      using step IH [of body nxt stop "nxt (body t s) t" "body t s" s'] by (auto simp: Let_def split: if_splits)
  qed
  with assms(2,3) show ?thesis by simp
qed

lemma ring_walk_trapped:
  assumes "ring_walk body links stop t s = Some r"
  shows "(\<forall>t s. links (body t s) = links s) \<Longrightarrow> t \<in> A \<Longrightarrow> stop \<notin> A \<Longrightarrow> \<forall>x\<in>A. links s x \<in> A \<Longrightarrow> False"
  using assms
proof (induct rule: ring_walk.raw_induct [rotated, consumes 1])
  case (1 walk body links stop t s r)
  let ?s = "body t s"
  have "links ?s t \<in> A" using 1 by simp
  moreover from this have "links ?s t \<noteq> stop" using 1 by auto
  moreover from this have "walk body links stop (links ?s t) ?s = Some r"
    using 1(2) by (simp add: Let_def)
  ultimately show False using 1 by metis
qed

text \<open>
  The contract under which a walk visits every member of the circle once: the body does not
  change the links. Both loops of both schedulers, and the task listing, are instances.
\<close>

locale link_preserving =
  fixes links :: "'s \<Rightarrow> 'p \<Rightarrow> 'p"
    and body :: "'p \<Rightarrow> 's \<Rightarrow> 's"
  assumes body_links: "links (body t s) = links s"
begin

lemma fold_links: "links (fold body xs s) = links s"
  by (induction xs arbitrary: s) (simp_all add: body_links)

lemma walk_linked:
  "linked (links s) (t # xs) stop \<Longrightarrow> stop \<notin> set xs \<Longrightarrow>
    ring_walk body links stop t s = Some (fold body (t # xs) s)"
proof (induction xs arbitrary: t s)
  case Nil
  then show ?case by (subst ring_walk.simps) (simp add: body_links)
next
  case (Cons x xs)
  then have "ring_walk body links stop x (body t s) = Some (fold body (x # xs) (body t s))"
    by (intro Cons.IH) (simp_all add: body_links)
  with Cons.prems show ?case
    by (subst ring_walk.simps) (auto simp: body_links)
qed

lemma walk_circle:
  "circle (links s) (t # xs) \<Longrightarrow> ring_walk body links t t s = Some (fold body (t # xs) s)"
  by (rule walk_linked) (auto simp: circle_def)

text \<open>A walk inside a set of blocks that does not contain \<open>stop\<close> never ends.\<close>

lemma walk_never_ends:
  assumes "t \<in> A" and "stop \<notin> A" and "\<forall>x\<in>A. links s x \<in> A"
  shows "ring_walk body links stop t s = None"
  using ring_walk_trapped [of body links stop t s _ A] assms body_links by (meson not_None_eq)

end

section \<open>Choosing the best block\<close>

text \<open>
  The candidate loops keep the best block so far and its priority. \<^verbatim>\<open>task.c\<close> compares with \<open>>\<close>,
  so the first block of highest priority wins; \<^verbatim>\<open>process.c\<close> compares with \<open>>=\<close>, so the last does.
\<close>

definition first_max :: "('p \<Rightarrow> bool) \<Rightarrow> ('p \<Rightarrow> 'k::linorder) \<Rightarrow> 'p list \<Rightarrow> 'p \<Rightarrow> bool" where
  "first_max ok key xs r \<longleftrightarrow> (\<exists>us vs. xs = us @ r # vs \<and> ok r \<and>
     (\<forall>u\<in>set us. ok u \<longrightarrow> key u < key r) \<and> (\<forall>v\<in>set vs. ok v \<longrightarrow> key v \<le> key r))"

definition last_max :: "('p \<Rightarrow> bool) \<Rightarrow> ('p \<Rightarrow> 'k::linorder) \<Rightarrow> 'p list \<Rightarrow> 'p \<Rightarrow> bool" where
  "last_max ok key xs r \<longleftrightarrow> (\<exists>us vs. xs = us @ r # vs \<and> ok r \<and>
     (\<forall>u\<in>set us. ok u \<longrightarrow> key u \<le> key r) \<and> (\<forall>v\<in>set vs. ok v \<longrightarrow> key v < key r))"

lemma last_max_mem: "last_max ok key xs r \<Longrightarrow> r \<in> set xs \<and> ok r"
  unfolding last_max_def by force

lemma last_max_cong:
  assumes "\<And>t. t \<in> set xs \<Longrightarrow> ok t = ok' t \<and> key t = key' t"
  shows "last_max ok key xs r = last_max ok' key' xs r"
proof -
  have "(ok r \<and> (\<forall>u\<in>set us. ok u \<longrightarrow> key u \<le> key r) \<and> (\<forall>v\<in>set vs. ok v \<longrightarrow> key v < key r)) \<longleftrightarrow>
      (ok' r \<and> (\<forall>u\<in>set us. ok' u \<longrightarrow> key' u \<le> key' r) \<and> (\<forall>v\<in>set vs. ok' v \<longrightarrow> key' v < key' r))"
    if "xs = us @ r # vs" for us vs using assms that by auto
  then show ?thesis
    unfolding last_max_def by (intro iff_exI) (rule conj_cong [OF refl])
qed

text \<open>The element at the end of the list wins every tie.\<close>

lemma last_max_end:
  assumes "last_max ok key (xs @ [c]) r" and "ok c" and "\<forall>x\<in>set xs. ok x \<longrightarrow> key x \<le> key c"
  shows "r = c"
proof (rule ccontr)
  assume "r \<noteq> c"
  obtain us vs where "xs @ [c] = us @ r # vs" and r: "ok r" "\<forall>v\<in>set vs. ok v \<longrightarrow> key v < key r"
    using assms(1) unfolding last_max_def by blast
  with \<open>r \<noteq> c\<close> have "c \<in> set vs" "r \<in> set xs"
    by (cases vs rule: rev_cases; auto)+
  with assms r show False by (meson leD)
qed

locale first_choice =
  fixes ok :: "'p \<Rightarrow> bool"
    and key :: "'p \<Rightarrow> 'k::linorder"
    and body :: "'p \<Rightarrow> 'p \<times> 'k \<Rightarrow> 'p \<times> 'k"
  assumes step: "body x (b, p) = (if ok x \<and> key x > p then (x, key x) else (b, p))"
begin

lemma choose:
  "(\<forall>x\<in>set xs. ok x \<longrightarrow> key x \<le> p) \<and> fold body xs (b, p) = (b, p) \<or>
   (\<exists>r. fold body xs (b, p) = (r, key r) \<and> p < key r \<and> first_max ok key xs r)"
proof (induction xs arbitrary: b p)
  case (Cons x xs)
  show ?case
  proof (cases "ok x \<and> key x > p")
    case True
    from Cons.IH [of "key x" x] show ?thesis
    proof (elim disjE exE conjE)
      assume "\<forall>y\<in>set xs. ok y \<longrightarrow> key y \<le> key x" "fold body xs (x, key x) = (x, key x)"
      then have "first_max ok key (x # xs) x"
        using True unfolding first_max_def by (intro exI [of _ "[]"] exI [of _ xs]) simp
      with True \<open>fold body xs (x, key x) = (x, key x)\<close> show ?thesis by (simp add: step)
    next
      fix r assume r: "fold body xs (x, key x) = (r, key r)" "key x < key r" "first_max ok key xs r"
      then obtain us vs where "xs = us @ r # vs" "ok r"
        "\<forall>u\<in>set us. ok u \<longrightarrow> key u < key r" "\<forall>v\<in>set vs. ok v \<longrightarrow> key v \<le> key r"
        unfolding first_max_def by blast
      then have "first_max ok key (x # xs) r"
        using r(2) unfolding first_max_def by (intro exI [of _ "x # us"] exI [of _ vs]) simp
      with True r show ?thesis by (auto simp: step)
    qed
  next
    case False
    from Cons.IH [of p b] show ?thesis
    proof (elim disjE exE conjE)
      fix r assume r: "fold body xs (b, p) = (r, key r)" "p < key r" "first_max ok key xs r"
      then obtain us vs where "xs = us @ r # vs" "ok r"
        "\<forall>u\<in>set us. ok u \<longrightarrow> key u < key r" "\<forall>v\<in>set vs. ok v \<longrightarrow> key v \<le> key r"
        unfolding first_max_def by blast
      then have "first_max ok key (x # xs) r"
        using r(2) False unfolding first_max_def by (intro exI [of _ "x # us"] exI [of _ vs]) auto
      with False r show ?thesis by (auto simp: step)
    qed (use False in \<open>auto simp: step\<close>)
  qed
qed simp

end

locale last_choice =
  fixes ok :: "'p \<Rightarrow> bool"
    and key :: "'p \<Rightarrow> 'k::linorder"
    and body :: "'p \<Rightarrow> 'p \<times> 'k \<Rightarrow> 'p \<times> 'k"
  assumes step: "body x (b, p) = (if ok x \<and> key x \<ge> p then (x, key x) else (b, p))"
begin

lemma choose:
  "(\<forall>x\<in>set xs. ok x \<longrightarrow> key x < p) \<and> fold body xs (b, p) = (b, p) \<or>
   (\<exists>r. fold body xs (b, p) = (r, key r) \<and> p \<le> key r \<and> last_max ok key xs r)"
proof (induction xs rule: rev_induct)
  case (snoc x xs)
  show ?case
  proof (cases "ok x \<and> key x \<ge> snd (fold body xs (b, p))")
    case True
    have "\<forall>y\<in>set xs. ok y \<longrightarrow> key y \<le> key x" "p \<le> key x"
      using snoc True unfolding last_max_def by fastforce+
    then have "last_max ok key (xs @ [x]) x"
      using True unfolding last_max_def by (intro exI [of _ xs] exI [of _ "[]"]) simp
    with True \<open>p \<le> key x\<close> show ?thesis by (cases "fold body xs (b, p)") (simp add: step)
  next
    case False
    from snoc show ?thesis
    proof (elim disjE exE conjE)
      fix r assume r: "fold body xs (b, p) = (r, key r)" "p \<le> key r" "last_max ok key xs r"
      then obtain us vs where "xs = us @ r # vs" "ok r"
        "\<forall>u\<in>set us. ok u \<longrightarrow> key u \<le> key r" "\<forall>v\<in>set vs. ok v \<longrightarrow> key v < key r"
        unfolding last_max_def by blast
      then have "last_max ok key (xs @ [x]) r"
        using r(1) False unfolding last_max_def by (intro exI [of _ us] exI [of _ "vs @ [x]"]) auto
      with False r show ?thesis by (auto simp: step)
    qed (use False in \<open>auto simp: step\<close>)
  qed
qed simp

end

section \<open>The first stack frame\<close>

text \<open>
  A stack is its array of 32-bit words and the index \<open>sp\<close> of its top. The frame is what the
  interrupt return path of \<^verbatim>\<open>interrupts.s\<close> expects to find.
\<close>

type_synonym stack = "nat \<times> u32 list"

definition push_word :: "u32 \<Rightarrow> stack \<Rightarrow> stack" where
  "push_word v = (\<lambda>(sp, st). (sp - 1, st[sp - 1 := v]))"

definition initial_frame :: "u32 \<Rightarrow> stack \<Rightarrow> stack" where
  "initial_frame entry s =
     (let s = push_word 0x0202 s;
          s = push_word 0x08 s;
          s = push_word entry s;
          s = push_word 0 s;
          s = push_word 32 s;
          s = (push_word 0 ^^ 8) s
      in push_word 0x10 s)"

text \<open>
  The end of \<open>irq_common_stub\<close>: \<open>mov esp, eax\<close>, then \<open>pop eax\<close> into the data segment registers,
  \<open>popa\<close>, two words skipped and \<open>iret\<close>. \<open>general\<close> holds edi, esi, ebp, (esp), ebx, edx, ecx, eax.
\<close>

record cpu_context =
  ds :: u32
  general :: "u32 list"
  eip :: u32
  cs :: u32
  eflags :: u32
  resume_sp :: nat

definition irq_return :: "nat \<Rightarrow> u32 list \<Rightarrow> cpu_context" where
  "irq_return sp st = \<lparr>ds = st ! sp, general = take 8 (drop (sp + 1) st), eip = st ! (sp + 11),
     cs = st ! (sp + 12), eflags = st ! (sp + 13), resume_sp = sp + 14\<rparr>"

lemma funpow_8: "(f ^^ 8) x = f (f (f (f (f (f (f (f x)))))))"
  by (simp add: numeral_eq_Suc)

lemma length_push_word [simp]: "length (snd (push_word v s)) = length (snd s)"
  by (cases s) (simp add: push_word_def)

lemma length_initial_frame [simp]: "length (snd (initial_frame entry s)) = length (snd s)"
  by (simp add: initial_frame_def Let_def funpow_8)

lemma initial_frame_eq:
  assumes "length mid = 14"
  shows "initial_frame entry (length pre + 14, pre @ mid @ post) =
    (length pre, pre @ [0x10, 0, 0, 0, 0, 0, 0, 0, 0, 32, 0, entry, 0x08, 0x0202] @ post)"
proof -
  obtain a b c d e f g h i j k l m n where "mid = [a, b, c, d, e, f, g, h, i, j, k, l, m, n]"
    using assms by (auto simp: numeral_eq_Suc length_Suc_conv)
  then show ?thesis
    by (simp add: initial_frame_def Let_def funpow_8 push_word_def list_update_append)
qed

lemma irq_return_frame:
  "irq_return (length pre) (pre @ [a, b, c, d, e, f, g, h, i, j, k, l, m, n] @ post) = \<lparr>ds = a,
    general = [b, c, d, e, f, g, h, i], eip = l, cs = m, eflags = n, resume_sp = length pre + 14\<rparr>"
  by (simp add: irq_return_def nth_append numeral_eq_Suc)

lemma initial_frame_resumes:
  assumes "14 \<le> sp" and "sp \<le> length st" and "initial_frame entry (sp, st) = (sp', st')"
  shows "length st' = length st \<and> sp' = sp - 14 \<and> irq_return sp' st' = \<lparr>ds = 0x10,
    general = replicate 8 0, eip = entry, cs = 0x08, eflags = 0x0202, resume_sp = sp\<rparr>"
proof -
  let ?pre = "take (sp - 14) st" and ?mid = "take 14 (drop (sp - 14) st)" and ?post = "drop sp st"
  have len: "length ?pre = sp - 14" "length ?mid = 14" and sp: "length ?pre + 14 = sp"
    using assms(1,2) by simp_all
  have "drop 14 (drop (sp - 14) st) = ?post" using assms(1) by simp
  then have st: "st = ?pre @ ?mid @ ?post" by (metis append_take_drop_id)
  have f: "initial_frame entry (sp, st) = (sp - 14,
      ?pre @ [0x10, 0, 0, 0, 0, 0, 0, 0, 0, 32, 0, entry, 0x08, 0x0202] @ ?post)"
    using initial_frame_eq [OF len(2), of entry ?pre ?post] using assms(1)
    unfolding st [symmetric] len(1) by simp
  have "irq_return (sp - 14) (?pre @ [0x10, 0, 0, 0, 0, 0, 0, 0, 0, 32, 0, entry, 0x08, 0x0202] @ ?post) =
      \<lparr>ds = 0x10, general = replicate 8 0, eip = entry, cs = 0x08, eflags = 0x0202, resume_sp = sp - 14 + 14\<rparr>"
    using irq_return_frame [of ?pre] unfolding len(1) by (simp add: numeral_eq_Suc)
  with f assms show ?thesis by auto
qed

end
