(* ===== verification/Mutex.thy ===== *)
theory Mutex
  imports Kernel_Prelude
begin

text \<open>
  \<^verbatim>\<open>mutex.c\<close>: the lock every shared structure of the kernel is guarded by. A task is named by
  its \<open>task_t\<close> pointer, a natural number with 0 for NULL. The machine has one processor, so the
  code between \<open>cli\<close> and \<open>sti\<close> is one atomic step; what other tasks do to the state \<open>'s\<close> while
  the caller sits in \<open>task_sleep(1)\<close> is an explicit list of functions, one for each sleep, and a
  call that has not got the lock when the list ends is \<open>None\<close>.
\<close>

section \<open>The lock\<close>

type_synonym task_ptr = nat

record mutex =
  locked :: u32
  owner :: task_ptr

definition mutex_init :: "mutex \<Rightarrow> mutex" where
  "mutex_init m = m\<lparr>locked := 0, owner := 0\<rparr>"

type_synonym 's interference = "('s \<Rightarrow> 's) list"

fun mutex_lock ::
  "('s \<Rightarrow> mutex) \<Rightarrow> (mutex \<Rightarrow> 's \<Rightarrow> 's) \<Rightarrow> task_ptr \<Rightarrow> 's interference \<Rightarrow> 's \<Rightarrow> 's option" where
  "mutex_lock get put cur w s =
     (if locked (get s) = 0 then Some (put ((get s)\<lparr>locked := 1, owner := cur\<rparr>) s)
      else case w of [] \<Rightarrow> None | sleep # w' \<Rightarrow> mutex_lock get put cur w' (sleep s))"

declare mutex_lock.simps [simp del]

definition mutex_unlock :: "task_ptr \<Rightarrow> mutex \<Rightarrow> mutex" where
  "mutex_unlock cur m =
     (if locked m \<noteq> 0 \<and> owner m = cur then m\<lparr>locked := 0, owner := 0\<rparr> else m)"

text \<open>The state \<open>mutex_init\<close> leaves, and the one every operation of the kernel returns to.\<close>

definition mutex_free :: "mutex \<Rightarrow> bool" where
  "mutex_free m \<longleftrightarrow> locked m = 0 \<and> owner m = 0"

definition held_by :: "task_ptr \<Rightarrow> mutex \<Rightarrow> bool" where
  "held_by t m \<longleftrightarrow> locked m \<noteq> 0 \<and> owner m = t"

text \<open>Interference of the other tasks: none of them changes a lock that \<open>me\<close> holds.\<close>

definition leaves_alone :: "('s \<Rightarrow> mutex) \<Rightarrow> task_ptr \<Rightarrow> ('s \<Rightarrow> 's) \<Rightarrow> bool" where
  "leaves_alone get me e \<longleftrightarrow> (\<forall>s. held_by me (get s) \<longrightarrow> get (e s) = get s)"

lemma mutex_update_both [simp]: "(m::mutex)\<lparr>locked := x, owner := y\<rparr> = \<lparr>locked = x, owner = y\<rparr>"
  by (cases m) simp

lemma mutex_free_init [simp]: "mutex_free (mutex_init m)"
  by (simp add: mutex_free_def mutex_init_def)

lemma unlock_stranger: "owner m \<noteq> t \<Longrightarrow> mutex_unlock t m = m"
  by (simp add: mutex_unlock_def)

lemma mutex_free_eq: "mutex_free m \<longleftrightarrow> m = \<lparr>locked = 0, owner = 0\<rparr>"
  by (cases m) (simp add: mutex_free_def)

lemma lock_when_free:
  "locked (get s) = 0 \<Longrightarrow>
    mutex_lock get put cur w s = Some (put ((get s)\<lparr>locked := 1, owner := cur\<rparr>) s)"
  by (simp add: mutex_lock.simps)

lemma lock_when_busy_Nil: "locked (get s) \<noteq> 0 \<Longrightarrow> mutex_lock get put cur [] s = None"
  by (simp add: mutex_lock.simps)

lemma lock_when_busy_Cons:
  "locked (get s) \<noteq> 0 \<Longrightarrow> mutex_lock get put cur (e # w) s = mutex_lock get put cur w (e s)"
  by (simp add: mutex_lock.simps)

section \<open>The contract of a guarded structure\<close>

text \<open>
  Every structure with a lock of its own gives access to it by a getter and a setter. The laws
  say that the setter writes the lock and nothing else; what a client may rely on follows here
  once for the heap, the queue, the pipe, the page allocator and the signal table.
\<close>

locale mutex_guarded =
  fixes get :: "'s \<Rightarrow> mutex"
    and put :: "mutex \<Rightarrow> 's \<Rightarrow> 's"
  assumes get_put: "get (put m s) = m"
    and put_put: "put m (put m' s) = put m s"
    and put_get: "put (get s) s = s"
begin

lemma lock_free:
  assumes "mutex_free (get s)"
  shows "mutex_lock get put cur w s = Some (put \<lparr>locked = 1, owner = cur\<rparr> s)"
  using assms by (simp add: lock_when_free mutex_free_def)

lemma lock_returns_held: "mutex_lock get put cur w s = Some s' \<Longrightarrow> held_by cur (get s')"
proof (induction w arbitrary: s)
  case Nil
  then show ?case
    by (auto simp: mutex_lock.simps get_put held_by_def split: if_splits)
next
  case (Cons e w)
  then show ?case
    by (cases "locked (get s) = 0")
      (auto simp: lock_when_free lock_when_busy_Cons get_put held_by_def)
qed

lemma unlock_restores:
  "mutex_free (get s) \<Longrightarrow>
    put (mutex_unlock cur (get (put \<lparr>locked = 1, owner = cur\<rparr> s)))
      (put \<lparr>locked = 1, owner = cur\<rparr> s) = s"
  by (metis get_put put_put put_get mutex_free_eq mutex_unlock_def mutex_update_both
      mutex.select_convs one_neq_zero)

text \<open>The lock is not recursive: its holder waits for ever for itself.\<close>

lemma relock_never_returns:
  assumes "held_by me (get s)" and "\<forall>e\<in>set w. leaves_alone get me e"
  shows "mutex_lock get put me w s = None"
  using assms
proof (induction w arbitrary: s)
  case Nil
  then show ?case by (simp add: lock_when_busy_Nil held_by_def)
next
  case (Cons e w)
  then have "held_by me (get (e s))"
    by (simp add: leaves_alone_def)
  with Cons show ?case
    by (simp add: lock_when_busy_Cons held_by_def)
qed

text \<open>Once one of the sleeps ends with the lock open, the call returns.\<close>

lemma lock_after_release:
  assumes "locked (get (fold (\<lambda>e. e) (take n w) s)) = 0" and "n \<le> length w"
  shows "\<exists>s'. mutex_lock get put cur w s = Some s'"
  using assms
proof (induction w arbitrary: n s)
  case Nil
  then show ?case by (simp add: lock_when_free)
next
  case (Cons e w)
  show ?case
  proof (cases "locked (get s) = 0")
    case True
    then show ?thesis by (simp add: lock_when_free)
  next
    case False
    with Cons.prems obtain k where "n = Suc k"
      by (cases n) auto
    with Cons.prems have "\<exists>s'. mutex_lock get put cur w (e s) = Some s'"
      by (intro Cons.IH [of k]) auto
    with False show ?thesis by (simp add: lock_when_busy_Cons)
  qed
qed

end

text \<open>The lock by itself is the smallest guarded structure.\<close>

interpretation bare: mutex_guarded "\<lambda>m. m" "\<lambda>m _. m"
  by unfold_locales simp_all

section \<open>Tasks around one lock\<close>

text \<open>
  Any number of tasks, each outside, asking for the lock or inside its critical section. A step
  is one atomic action of one task, built from the code's own operations; \<open>stray\<close> is a task that
  unlocks a mutex it does not hold.
\<close>

datatype pc = Outside | Wanting | Inside

record lock_sys =
  mtx :: mutex
  pcs :: "task_ptr \<Rightarrow> pc"

definition lock_sys_init :: "mutex \<Rightarrow> lock_sys" where
  "lock_sys_init m = \<lparr>mtx = mutex_init m, pcs = (\<lambda>_. Outside)\<rparr>"

abbreviation try_lock :: "task_ptr \<Rightarrow> mutex \<Rightarrow> mutex option" where
  "try_lock t m \<equiv> mutex_lock (\<lambda>m. m) (\<lambda>m _. m) t [] m"

inductive lock_step :: "lock_sys \<Rightarrow> lock_sys \<Rightarrow> bool" where
  want: "pcs s t = Outside \<Longrightarrow> t \<noteq> 0 \<Longrightarrow> lock_step s (s\<lparr>pcs := (pcs s)(t := Wanting)\<rparr>)"
| enter: "pcs s t = Wanting \<Longrightarrow> try_lock t (mtx s) = Some m \<Longrightarrow>
    lock_step s (s\<lparr>mtx := m, pcs := (pcs s)(t := Inside)\<rparr>)"
| leave: "pcs s t = Inside \<Longrightarrow>
    lock_step s (s\<lparr>mtx := mutex_unlock t (mtx s), pcs := (pcs s)(t := Outside)\<rparr>)"
| stray: "pcs s t \<noteq> Inside \<Longrightarrow> lock_step s (s\<lparr>mtx := mutex_unlock t (mtx s)\<rparr>)"

abbreviation lock_reachable :: "mutex \<Rightarrow> lock_sys \<Rightarrow> bool" where
  "lock_reachable m \<equiv> reaches {lock_sys_init m} lock_step"

definition lock_sys_inv :: "lock_sys \<Rightarrow> bool" where
  "lock_sys_inv s \<longleftrightarrow> (\<forall>t. pcs s t = Inside \<longleftrightarrow> held_by t (mtx s))"

lemma try_lock_Some:
  "try_lock t m = Some m' \<longleftrightarrow> locked m = 0 \<and> m' = m\<lparr>locked := 1, owner := t\<rparr>"
  by (auto simp: mutex_lock.simps)

lemma lock_step_inv [kinv]: "lock_step s s' \<Longrightarrow> lock_sys_inv s \<Longrightarrow> lock_sys_inv s'"
proof (induction rule: lock_step.induct)
  case (want s t)
  then show ?case by (simp add: lock_sys_inv_def) (metis pc.distinct(3))
next
  case (enter s t m)
  then show ?case by (auto simp: lock_sys_inv_def held_by_def try_lock_Some)
next
  case (leave s t)
  then show ?case by (auto simp: lock_sys_inv_def held_by_def mutex_unlock_def)
next
  case (stray s t)
  then have "mutex_unlock t (mtx s) = mtx s"
    by (auto simp: lock_sys_inv_def held_by_def mutex_unlock_def)
  with stray show ?case by (simp add: lock_sys_inv_def)
qed

interpretation exclusion: step_invariant "{lock_sys_init m}" lock_step lock_sys_inv for m
  by unfold_locales (simp_all add: lock_sys_inv_def lock_sys_init_def mutex_init_def held_by_def lock_step_inv [unfolded lock_sys_inv_def held_by_def])

lemma reachable_try_lock:
  assumes "lock_reachable m s" and "\<forall>t. pcs s t \<noteq> Inside"
  shows "try_lock t (mtx s) = Some \<lparr>locked = 1, owner = t\<rparr>"
  using exclusion.reaches_inv [OF assms(1)] assms(2)
  by (auto simp: lock_sys_inv_def held_by_def try_lock_Some)

text \<open>
  C6. Mutual exclusion: in every state that any interleaving of tasks reaches, stray unlocks
  included, the task inside its critical section is the only one there and owns the lock.
\<close>

theorem mutual_exclusion:
  assumes "lock_reachable m s" and "pcs s t = Inside"
  shows "{u. pcs s u = Inside} = {t} \<and> held_by t (mtx s)"
  using exclusion.reaches_inv [OF assms(1)] assms(2)
  by (auto simp: lock_sys_inv_def held_by_def)

definition one_inside :: lock_sys where
  "one_inside = \<lparr>mtx = \<lparr>locked = 1, owner = 1\<rparr>, pcs = (\<lambda>_. Outside)(1 := Inside, 2 := Wanting)\<rparr>"

lemma one_inside_reachable: "lock_reachable \<lparr>locked = 0, owner = 0\<rparr> one_inside"
proof -
  let ?m = "\<lparr>locked = 0, owner = 0\<rparr>"
  let ?a = "\<lparr>mtx = ?m, pcs = (\<lambda>_. Outside)(1 := Wanting)\<rparr>"
  let ?b = "\<lparr>mtx = ?m, pcs = (\<lambda>_. Outside)(1 := Wanting, 2 := Wanting)\<rparr>"
  have "lock_step (lock_sys_init ?m) ?a"
    using lock_step.want [of "lock_sys_init ?m" 1]
    by (simp add: lock_sys_init_def mutex_init_def)
  moreover have "lock_step ?a ?b"
    using lock_step.want [of ?a 2] by simp
  moreover have "lock_step ?b one_inside"
    using lock_step.enter [of ?b 1 "\<lparr>locked = 1, owner = 1\<rparr>"]
    by (simp add: try_lock_Some one_inside_def fun_upd_twist)
  ultimately show ?thesis
    by (meson reaches.intros singletonI)
qed

theorem mutual_exclusion_witness:
  "{u. pcs one_inside u = Inside} = {1} \<and> held_by 1 (mtx one_inside)"
  by (rule mutual_exclusion [OF one_inside_reachable]) (simp add: one_inside_def)

text \<open>
  No deadlock on one lock: whenever no task is inside its critical section, a task that asks
  for the lock can enter at its next attempt.
\<close>

theorem lock_progress:
  assumes "lock_reachable m s" and "\<forall>u. pcs s u \<noteq> Inside" and "pcs s t = Wanting"
  shows "\<exists>s'. lock_step s s' \<and> pcs s' t = Inside \<and> held_by t (mtx s')"
  using lock_step.enter [OF assms(3) reachable_try_lock [OF assms(1,2)]]
  by (fastforce simp: held_by_def)

theorem lock_progress_witness:
  "\<exists>s'. lock_step (lock_sys_init \<lparr>locked = 7, owner = 9\<rparr>\<lparr>pcs := (\<lambda>_. Outside)(3 := Wanting)\<rparr>) s'
     \<and> pcs s' 3 = Inside \<and> held_by 3 (mtx s')"
proof (rule lock_progress)
  let ?m = "\<lparr>locked = 7, owner = 9\<rparr>"
  show "lock_reachable ?m (lock_sys_init ?m\<lparr>pcs := (\<lambda>_. Outside)(3 := Wanting)\<rparr>)"
    using reaches.step [where step = lock_step, OF reaches.start [OF singletonI] lock_step.want [of "lock_sys_init ?m" 3]]
    by (simp add: lock_sys_init_def)
qed simp_all

end
