(* ===== verification/Task.thy ===== *)
theory Task
  imports Scheduling Mutex
begin

text \<open>
  \<^verbatim>\<open>task.c\<close>: the preemptive scheduler of the kernel. Control blocks are kept by pointer: 0 is NULL,
  1 is \<open>main_task\<close> and \<open>2 + i\<close> is \<open>task_pool[i]\<close>. \<open>schedule\<close> runs with interrupts off, so it is one
  step; its first argument in the code, the stack pointer of the interrupted task, is \<open>esp\<close>.
\<close>

section \<open>Model\<close>

datatype task_state = TASK_READY | TASK_SLEEPING | TASK_BLOCKED | TASK_ZOMBIE

record task =
  t_esp :: u32
  t_id :: u32
  t_priority :: u32
  t_state :: task_state
  t_sleep_ticks :: u32
  t_cpu_ticks :: u32
  t_stack :: "u32 list"
  t_next :: task_ptr

definition TASK_POOL_SIZE :: nat where
  "TASK_POOL_SIZE = 8"

record tasking =
  tasks :: "task_ptr \<Rightarrow> task"
  current_task :: task_ptr
  next_pid :: u32
  total_tasks :: u32
  pool_index :: nat

abbreviation (input) main_task :: task_ptr where
  "main_task \<equiv> 1"

abbreviation (input) task_pool :: "nat \<Rightarrow> task_ptr" where
  "task_pool i \<equiv> 2 + i"

definition upd_task :: "task_ptr \<Rightarrow> (task \<Rightarrow> task) \<Rightarrow> tasking \<Rightarrow> tasking" where
  "upd_task t f s = s\<lparr>tasks := (tasks s)(t := f (tasks s t))\<rparr>"

definition init_tasking :: "tasking \<Rightarrow> tasking" where
  "init_tasking s =
     (upd_task main_task (\<lambda>t. t\<lparr>t_id := 0, t_priority := 1, t_esp := 0, t_state := TASK_READY,
        t_sleep_ticks := 0, t_cpu_ticks := 0, t_next := main_task\<rparr>) s)
       \<lparr>current_task := main_task, total_tasks := 1, pool_index := 0\<rparr>"

text \<open>
  \<open>stack_at\<close> gives the address of each control block's stack array; the array is held as its
  1024 words.
\<close>

definition create_task :: "(task_ptr \<Rightarrow> u32) \<Rightarrow> u32 \<Rightarrow> u32 \<Rightarrow> tasking \<Rightarrow> tasking" where
  "create_task stack_at entry priority s =
     (if pool_index s \<ge> TASK_POOL_SIZE then s
      else
        let nt = task_pool (pool_index s);
            s = s\<lparr>pool_index := pool_index s + 1\<rparr>;
            s = upd_task nt (\<lambda>t. t\<lparr>t_id := next_pid s, t_priority := priority, t_state := TASK_READY,
                  t_sleep_ticks := 0, t_cpu_ticks := 0\<rparr>) (s\<lparr>next_pid := next_pid s + 1\<rparr>);
            (sp, st) = initial_frame entry (1024, t_stack (tasks s nt));
            s = upd_task nt (\<lambda>t. t\<lparr>t_stack := st, t_esp := stack_at nt + of_nat (4 * sp)\<rparr>) s;
            s = upd_task nt (\<lambda>t. t\<lparr>t_next := t_next (tasks s (current_task s))\<rparr>) s;
            s = upd_task (current_task s) (\<lambda>t. t\<lparr>t_next := nt\<rparr>) s
        in s\<lparr>total_tasks := total_tasks s + 1\<rparr>)"

abbreviation links :: "tasking \<Rightarrow> task_ptr \<Rightarrow> task_ptr" where
  "links s t \<equiv> t_next (tasks s t)"

text \<open>The body of the first loop of \<open>schedule\<close>, on one control block.\<close>

definition count_down :: "task \<Rightarrow> task" where
  "count_down t =
     (if t_state t = TASK_SLEEPING then
        let t = (if t_sleep_ticks t > 0 then t\<lparr>t_sleep_ticks := t_sleep_ticks t - 1\<rparr> else t)
        in if t_sleep_ticks t = 0 then t\<lparr>t_state := TASK_READY\<rparr> else t
      else t)"

text \<open>The body of the second: the best candidate so far and its priority.\<close>

definition consider_task :: "tasking \<Rightarrow> task_ptr \<Rightarrow> task_ptr \<times> u32 \<Rightarrow> task_ptr \<times> u32" where
  "consider_task s t = (\<lambda>(best, best_prio).
     if t_state (tasks s t) = TASK_READY \<and> t_priority (tasks s t) > best_prio
     then (t, t_priority (tasks s t)) else (best, best_prio))"

definition schedule :: "u32 \<Rightarrow> tasking \<Rightarrow> (u32 \<times> tasking) option" where
  "schedule esp s =
     (if current_task s = 0 then Some (esp, s)
      else do {
        let s = upd_task (current_task s) (\<lambda>t. t\<lparr>t_esp := esp\<rparr>) s;
        s \<leftarrow> ring_walk (\<lambda>t. upd_task t count_down) links (current_task s) (current_task s) s;
        let first = links s (current_task s);
        (best, best_prio) \<leftarrow> ring_walk (consider_task s) (\<lambda>_. links s) first first (0, 0);
        let s = (if best \<noteq> 0 then s\<lparr>current_task := best\<rparr> else s);
        let s = upd_task (current_task s) (\<lambda>t. t\<lparr>t_cpu_ticks := t_cpu_ticks t + 1\<rparr>) s;
        Some (t_esp (tasks s (current_task s)), s)
      })"

text \<open>
  \<open>int $32\<close> runs the scheduler; \<open>esp\<close> is where it finds the registers of the caller saved. What the
  interrupt does besides is in theory \<open>Interrupts\<close>.
\<close>

definition task_sleep :: "u32 \<Rightarrow> u32 \<Rightarrow> tasking \<Rightarrow> (u32 \<times> tasking) option" where
  "task_sleep esp ticks s =
     (if ticks = 0 then Some (esp, s)
      else schedule esp (upd_task (current_task s)
             (\<lambda>t. t\<lparr>t_sleep_ticks := ticks, t_state := TASK_SLEEPING\<rparr>) s))"

definition task_yield :: "u32 \<Rightarrow> tasking \<Rightarrow> (u32 \<times> tasking) option" where
  "task_yield esp s = schedule esp s"

definition get_current_task :: "tasking \<Rightarrow> task_ptr" where
  "get_current_task s = current_task s"

definition task_count :: "tasking \<Rightarrow> u32" where
  "task_count s = total_tasks s"

section \<open>Invariant\<close>

text \<open>
  \<open>ring_at s xs\<close>: the control blocks in use are linked in a circle; from the current task on it
  reads \<open>xs\<close>.
\<close>

definition ring_at :: "tasking \<Rightarrow> task_ptr list \<Rightarrow> bool" where
  "ring_at s xs \<longleftrightarrow> circle (links s) xs \<and> hd xs = current_task s \<and>
     set xs = {main_task} \<union> task_pool ` {..<pool_index s}"

definition tasking_inv :: "tasking \<Rightarrow> bool" where
  "tasking_inv s \<longleftrightarrow> (\<exists>xs. ring_at s xs) \<and> pool_index s \<le> TASK_POOL_SIZE \<and>
     total_tasks s = of_nat (pool_index s + 1) \<and>
     (\<forall>i<TASK_POOL_SIZE. length (t_stack (tasks s (task_pool i))) = 1024)"

lemma upd_task_simps [simp]:
  "tasks (upd_task t f s) = (tasks s)(t := f (tasks s t))"
  "current_task (upd_task t f s) = current_task s"
  "next_pid (upd_task t f s) = next_pid s"
  "total_tasks (upd_task t f s) = total_tasks s"
  "pool_index (upd_task t f s) = pool_index s"
  by (simp_all add: upd_task_def)

lemma links_upd_same [simp]: "(\<And>t. t_next (f t) = t_next t) \<Longrightarrow> links (upd_task t f s) = links s"
  by auto

lemma count_down_frame [simp]:
  "t_next (count_down t) = t_next t" "t_esp (count_down t) = t_esp t" "t_id (count_down t) = t_id t"
  "t_priority (count_down t) = t_priority t" "t_cpu_ticks (count_down t) = t_cpu_ticks t"
  "t_stack (count_down t) = t_stack t"
  by (simp_all add: count_down_def Let_def)

interpretation tick: link_preserving links "\<lambda>t. upd_task t count_down"
  by unfold_locales (rule links_upd_same, simp)

interpretation tsel: link_preserving "\<lambda>_. links s" "consider_task s" for s
  by unfold_locales simp

interpretation tbest: first_choice "\<lambda>t. t_state (tasks s t) = TASK_READY"
    "\<lambda>t. t_priority (tasks s t)" "consider_task s" for s
  by unfold_locales (simp add: consider_task_def)

section \<open>One run of the scheduler\<close>

text \<open>A control block after the first loop: its stack pointer saved, its sleep counted down.\<close>

definition ticked :: "u32 \<Rightarrow> tasking \<Rightarrow> task_ptr \<Rightarrow> task" where
  "ticked esp s t = count_down (if t = current_task s then (tasks s t)\<lparr>t_esp := esp\<rparr> else tasks s t)"

definition runnable :: "u32 \<Rightarrow> tasking \<Rightarrow> task_ptr \<Rightarrow> bool" where
  "runnable esp s t \<longleftrightarrow> t_state (ticked esp s t) = TASK_READY \<and> 0 < t_priority (tasks s t)"

lemma ticked_frame [simp]:
  "t_next (ticked esp s t) = t_next (tasks s t)" "t_priority (ticked esp s t) = t_priority (tasks s t)"
  "t_stack (ticked esp s t) = t_stack (tasks s t)" "t_cpu_ticks (ticked esp s t) = t_cpu_ticks (tasks s t)"
  by (simp_all add: ticked_def)

lemma fold_upd_task:
  "distinct xs \<Longrightarrow> fold (\<lambda>t. upd_task t f) xs s =
    s\<lparr>tasks := (\<lambda>t. if t \<in> set xs then f (tasks s t) else tasks s t)\<rparr>"
proof (induction xs arbitrary: s)
  case (Cons x xs)
  then show ?case by (auto simp: upd_task_def fun_eq_iff intro!: arg_cong [where f = "\<lambda>m. s\<lparr>tasks := m\<rparr>"])
qed simp

lemma ring_at_nonzero: "ring_at s xs \<Longrightarrow> t \<in> set xs \<Longrightarrow> t \<noteq> 0"
  by (auto simp: ring_at_def)

lemma word_gt_0: "(0 :: u32) < w \<longleftrightarrow> w \<noteq> 0"
  by (simp add: word_gt_0)

text \<open>
  How a choice splits the list it was made on: with a candidate of positive priority, the chosen
  one is ready, beats those before it and is not beaten by those behind it; without one it is the last.
\<close>

definition best_split :: "(task_ptr \<Rightarrow> bool) \<Rightarrow> (task_ptr \<Rightarrow> u32) \<Rightarrow> task_ptr list \<Rightarrow> task_ptr \<Rightarrow> task_ptr list \<Rightarrow> bool" where
  "best_split ok key us r vs \<longleftrightarrow> (if \<exists>x\<in>set (us @ r # vs). ok x \<and> 0 < key x
     then ok r \<and> 0 < key r \<and> (\<forall>u\<in>set us. ok u \<longrightarrow> key u < key r) \<and> (\<forall>v\<in>set vs. ok v \<longrightarrow> key v \<le> key r)
     else vs = [])"

lemma best_split_cong:
  "(\<And>t. t \<in> set (us @ r # vs) \<Longrightarrow> ok t = ok' t \<and> key t = key' t) \<Longrightarrow>
    best_split ok key us r vs = best_split ok' key' us r vs"
  unfolding best_split_def by auto

lemma choice_of_list:
  assumes "(b = 0 \<and> (\<forall>x\<in>set xs. ok x \<longrightarrow> key x \<le> (0::u32))) \<or> (0 < key b \<and> first_max ok key xs b)"
    and "0 \<notin> set xs" and "xs \<noteq> []"
  shows "\<exists>us vs. xs = us @ (if b \<noteq> 0 then b else last xs) # vs \<and>
    best_split ok key us (if b \<noteq> 0 then b else last xs) vs"
  using assms(1)
proof (elim disjE conjE)
  assume r: "b = 0" "\<forall>x\<in>set xs. ok x \<longrightarrow> key x \<le> 0"
  have xs: "xs = butlast xs @ [last xs]" using assms(3) by simp
  have "best_split ok key (butlast xs) (last xs) []"
    unfolding best_split_def xs [symmetric] using r(2) by auto
  with r xs show ?thesis by auto
next
  assume r: "0 < key b" "first_max ok key xs b"
  then obtain us vs where xs: "xs = us @ b # vs" "ok b" "\<forall>u\<in>set us. ok u \<longrightarrow> key u < key b"
    "\<forall>v\<in>set vs. ok v \<longrightarrow> key v \<le> key b" unfolding first_max_def by blast
  with r(1) have "best_split ok key us b vs" unfolding best_split_def by auto
  moreover have "b \<noteq> 0" using xs(1) assms(2) by auto
  ultimately show ?thesis using xs(1) by auto
qed

text \<open>The first loop.\<close>

definition after_tick :: "u32 \<Rightarrow> task_ptr list \<Rightarrow> tasking \<Rightarrow> tasking" where
  "after_tick esp xs s = s\<lparr>tasks := (\<lambda>t. if t \<in> set xs then ticked esp s t else tasks s t)\<rparr>"

lemma after_tick_simps [simp]:
  "links (after_tick esp xs s) = links s" "current_task (after_tick esp xs s) = current_task s"
  "t \<in> set xs \<Longrightarrow> tasks (after_tick esp xs s) t = ticked esp s t"
  by (auto simp: after_tick_def)

lemma tick_phase:
  assumes circ: "circle (links s) (c # xs)" and c: "current_task s = c"
  shows "ring_walk (\<lambda>t. upd_task t count_down) links c c (upd_task c (\<lambda>t. t\<lparr>t_esp := esp\<rparr>) s) =
    Some (after_tick esp (c # xs) s)"
proof -
  let ?s = "upd_task c (\<lambda>t. t\<lparr>t_esp := esp\<rparr>) s"
  have "links ?s = links s" by (rule links_upd_same) simp
  then have "ring_walk (\<lambda>t. upd_task t count_down) links c c ?s =
      Some (fold (\<lambda>t. upd_task t count_down) (c # xs) ?s)"
    using circ by (intro tick.walk_circle) simp
  also have "fold (\<lambda>t. upd_task t count_down) (c # xs) ?s = after_tick esp (c # xs) s"
    using fold_upd_task [of "c # xs" count_down ?s] circ c
    by (simp add: after_tick_def upd_task_def ticked_def fun_eq_iff circle_def)
  finally show ?thesis .
qed

text \<open>The second loop.\<close>

lemma choose_phase:
  assumes circ: "circle (links s) (c # xs)" and nz: "0 \<notin> set (c # xs)"
  shows "\<exists>b p us vs. ring_walk (consider_task s) (\<lambda>_. links s) (links s c) (links s c) (0, 0) = Some (b, p) \<and>
    xs @ [c] = us @ (if b \<noteq> 0 then b else c) # vs \<and>
    best_split (\<lambda>t. t_state (tasks s t) = TASK_READY) (\<lambda>t. t_priority (tasks s t)) us (if b \<noteq> 0 then b else c) vs"
proof -
  let ?ok = "\<lambda>t. t_state (tasks s t) = TASK_READY" and ?key = "\<lambda>t. t_priority (tasks s t)"
  have rot: "rotate1 (c # xs) = links s c # tl (xs @ [c])" and rot': "rotate1 (c # xs) = xs @ [c]"
    using circ by (cases xs; simp add: circle_def)+
  have "circle (links s) (rotate1 (c # xs))" by (rule circle_rotate1 [OF circ])
  then have walk: "ring_walk (consider_task s) (\<lambda>_. links s) (links s c) (links s c) (0, 0) =
      Some (fold (consider_task s) (xs @ [c]) (0, 0))"
    using tsel.walk_circle [of s "links s c" "tl (xs @ [c])" "(0, 0)"]
    unfolding rot [symmetric] rot' by simp
  obtain b p where bp: "fold (consider_task s) (xs @ [c]) (0, 0) = (b, p)" by fastforce
  have "(b = 0 \<and> (\<forall>x\<in>set (xs @ [c]). ?ok x \<longrightarrow> ?key x \<le> 0)) \<or> (0 < ?key b \<and> first_max ?ok ?key (xs @ [c]) b)"
    using tbest.choose [where s = s and xs = "xs @ [c]" and b = 0 and p = 0] bp by auto
  from choice_of_list [OF this, unfolded last_snoc] nz obtain us vs where
    "xs @ [c] = us @ (if b \<noteq> 0 then b else c) # vs" "best_split ?ok ?key us (if b \<noteq> 0 then b else c) vs"
    by auto
  with walk bp show ?thesis by (intro exI conjI) simp_all
qed

text \<open>
  The whole of \<open>schedule\<close>. With the ring read from the task after the current one, so that the
  current one comes last, the choice splits it into \<open>us\<close>, the chosen task and \<open>vs\<close>.
\<close>

definition after_schedule :: "u32 \<Rightarrow> task_ptr list \<Rightarrow> task_ptr \<Rightarrow> tasking \<Rightarrow> tasking" where
  "after_schedule esp xs r s = s\<lparr>current_task := r, tasks := (\<lambda>t. if t \<in> set xs
     then (ticked esp s t)\<lparr>t_cpu_ticks := t_cpu_ticks (tasks s t) + (if t = r then 1 else 0)\<rparr>
     else tasks s t)\<rparr>"

abbreviation chosen :: "u32 \<Rightarrow> tasking \<Rightarrow> task_ptr list \<Rightarrow> task_ptr \<Rightarrow> task_ptr list \<Rightarrow> bool" where
  "chosen esp s \<equiv> best_split (\<lambda>t. t_state (ticked esp s t) = TASK_READY) (\<lambda>t. t_priority (tasks s t))"

lemma after_tick_schedule:
  assumes "r \<in> set xs"
  shows "upd_task r (\<lambda>t. t\<lparr>t_cpu_ticks := t_cpu_ticks t + 1\<rparr>) (after_tick esp xs s\<lparr>current_task := r\<rparr>) =
    after_schedule esp xs r s"
    and "current_task s = r \<Longrightarrow> upd_task r (\<lambda>t. t\<lparr>t_cpu_ticks := t_cpu_ticks t + 1\<rparr>) (after_tick esp xs s) =
    after_schedule esp xs r s"
  using assms by (auto simp: after_tick_def after_schedule_def upd_task_def fun_eq_iff)

lemma schedule_runs:
  assumes ring: "ring_at s (c # xs)"
  shows "\<exists>us r vs. schedule esp s = Some (t_esp (ticked esp s r), after_schedule esp (c # xs) r s) \<and>
    xs @ [c] = us @ r # vs \<and> chosen esp s us r vs"
proof -
  let ?s = "after_tick esp (c # xs) s"
  have c: "current_task s = c" "c \<noteq> 0" and circ: "circle (links s) (c # xs)"
    using ring unfolding ring_at_def by auto
  have "circle (links ?s) (c # xs)" "0 \<notin> set (c # xs)"
    using circ ring_at_nonzero [OF ring] by auto
  from choose_phase [OF this] obtain b p us vs where walk:
      "ring_walk (consider_task ?s) (\<lambda>_. links ?s) (links ?s c) (links ?s c) (0, 0) = Some (b, p)"
    and split: "xs @ [c] = us @ (if b \<noteq> 0 then b else c) # vs"
    and pick: "best_split (\<lambda>t. t_state (tasks ?s t) = TASK_READY) (\<lambda>t. t_priority (tasks ?s t)) us
      (if b \<noteq> 0 then b else c) vs"
    by (elim exE conjE)
  let ?r = "if b \<noteq> 0 then b else c"
  have "set (us @ ?r # vs) = set (c # xs)" unfolding split [symmetric] by auto
  then have mem: "t \<in> set (c # xs)" if "t \<in> set (us @ ?r # vs)" for t using that by simp
  then have r: "?r \<in> set (c # xs)" by simp
  have "schedule esp s = Some (t_esp (ticked esp s ?r), after_schedule esp (c # xs) ?r s)"
    using c tick_phase [OF circ c(1), of esp] walk after_tick_schedule [OF r, where esp = esp and s = s] after_tick_simps(3) [OF r, of esp s]
    by (cases "b = 0") (simp_all add: schedule_def)
  moreover have "chosen esp s us ?r vs"
    using pick mem by (subst best_split_cong) (auto simp del: set_append)
  ultimately show ?thesis
    using split r by (intro exI conjI) (auto simp: after_schedule_def)
qed

lemma after_schedule_simps [simp]:
  "current_task (after_schedule esp xs r s) = r" "pool_index (after_schedule esp xs r s) = pool_index s"
  "total_tasks (after_schedule esp xs r s) = total_tasks s" "next_pid (after_schedule esp xs r s) = next_pid s"
  "links (after_schedule esp xs r s) = links s" "t_stack (tasks (after_schedule esp xs r s) t) = t_stack (tasks s t)"
  "t_priority (tasks (after_schedule esp xs r s) t) = t_priority (tasks s t)"
  by (auto simp: after_schedule_def)

lemma schedule_ring:
  assumes ring: "ring_at s (c # xs)" and split: "xs @ [c] = us @ r # vs"
  shows "ring_at (after_schedule esp (c # xs) r s) (r # vs @ us)"
proof -
  have "circle (links s) (rotate (length us) (rotate1 (c # xs)))"
    using ring unfolding ring_at_def by (blast intro: circle_rotate circle_rotate1)
  then have "circle (links s) (r # vs @ us)"
    by (simp add: split rotate_append)
  moreover have "set (r # vs @ us) = set (us @ r # vs)" by auto
  then have "set (r # vs @ us) = set (c # xs)" unfolding split [symmetric] by simp
  ultimately show ?thesis using ring by (auto simp: ring_at_def)
qed

section \<open>The invariant is kept\<close>

lemma ring_at_Cons: "ring_at s xs \<Longrightarrow> \<exists>ys. xs = current_task s # ys"
  by (cases xs) (auto simp: ring_at_def circle_def)

lemma tasking_invE:
  assumes "tasking_inv s"
  obtains xs where "ring_at s (current_task s # xs)"
  using assms ring_at_Cons unfolding tasking_inv_def by metis

lemma init_tasking_inv [kinv]:
  "\<forall>i<TASK_POOL_SIZE. length (t_stack (tasks s (task_pool i))) = 1024 \<Longrightarrow> tasking_inv (init_tasking s)"
  by (auto simp: tasking_inv_def init_tasking_def ring_at_def circle_def upd_task_def intro!: exI [of _ "[main_task]"])

lemma schedule_inv [kinv]:
  assumes "tasking_inv s" and "schedule esp s = Some (esp', s')"
  shows "tasking_inv s'"
proof -
  obtain xs where ring: "ring_at s (current_task s # xs)" using tasking_invE [OF assms(1)] .
  from schedule_runs [OF this, of esp] obtain us r vs where
    "s' = after_schedule esp (current_task s # xs) r s" "xs @ [current_task s] = us @ r # vs"
    using assms(2) by auto
  with schedule_ring [OF ring, of us r vs esp] assms(1) show ?thesis
    by (auto simp: tasking_inv_def)
qed

lemma create_task_room:
  assumes ring: "ring_at s (c # xs)" and room: "pool_index s < TASK_POOL_SIZE"
  shows "ring_at (create_task stack_at entry prio s) (c # task_pool (pool_index s) # xs)"
proof -
  let ?s = "create_task stack_at entry prio s" and ?nt = "task_pool (pool_index s)"
  have c: "current_task s = c" and circ: "circle (links s) (c # xs)"
    and set: "set (c # xs) = {main_task} \<union> task_pool ` {..<pool_index s}"
    using ring unfolding ring_at_def by auto
  have new: "?nt \<notin> set (c # xs)" unfolding set by auto
  then have "c \<noteq> ?nt" by auto
  then have links: "links ?s = (links s)(?nt := links s c, c := ?nt)"
    using room c by (auto simp: create_task_def Let_def case_prod_unfold fun_eq_iff)
  have "circle (links ?s) (c # ?nt # xs)"
    unfolding links by (rule circle_insert_after [OF circ new])
  moreover have "current_task ?s = c" "pool_index ?s = Suc (pool_index s)"
    using room c by (simp_all add: create_task_def Let_def case_prod_unfold)
  ultimately show ?thesis
    using set by (auto simp: ring_at_def lessThan_Suc)
qed

lemma create_task_fields:
  assumes "pool_index s < TASK_POOL_SIZE"
  shows "pool_index (create_task stack_at entry prio s) = Suc (pool_index s)"
    and "t_state (tasks (create_task stack_at entry prio s) t) =
      (if t = task_pool (pool_index s) then TASK_READY else t_state (tasks s t))"
    and "t_priority (tasks (create_task stack_at entry prio s) t) =
      (if t = task_pool (pool_index s) then prio else t_priority (tasks s t))"
  using assms by (simp_all add: create_task_def Let_def case_prod_unfold)

lemma create_task_inv [kinv]:
  assumes "tasking_inv s"
  shows "tasking_inv (create_task stack_at entry prio s)"
proof (cases "pool_index s < TASK_POOL_SIZE")
  case True
  let ?s = "create_task stack_at entry prio s" and ?nt = "task_pool (pool_index s)"
  obtain xs where "ring_at s (current_task s # xs)" using tasking_invE [OF assms] .
  from create_task_room [OF this True] have "\<exists>xs. ring_at ?s xs" by blast
  moreover have "pool_index ?s = Suc (pool_index s)" "total_tasks ?s = total_tasks s + 1"
    using True by (simp_all add: create_task_def Let_def case_prod_unfold)
  moreover have "length (t_stack (tasks ?s t)) = length (t_stack (tasks s t))" for t
    using True by (auto simp: create_task_def Let_def case_prod_unfold)
  ultimately show ?thesis
    using assms True by (auto simp: tasking_inv_def)
next
  case False
  with assms show ?thesis by (simp add: create_task_def)
qed

lemma upd_task_inv:
  assumes "tasking_inv s" and "\<And>t. t_next (f t) = t_next t \<and> t_stack (f t) = t_stack t"
  shows "tasking_inv (upd_task p f s)"
proof -
  have "links (upd_task p f s) = links s" using assms(2) by auto
  then have "ring_at (upd_task p f s) xs = ring_at s xs" for xs by (simp add: ring_at_def)
  with assms show ?thesis by (auto simp: tasking_inv_def)
qed

section \<open>Properties\<close>

text \<open>
  The scheduler invariant: the control blocks in use always form one circle that contains the
  current task, and the counters agree with it. Creating a task, a timer tick, a yield and a sleep
  keep it, and the three that run the scheduler return.
\<close>

theorem tasking_invariant:
  assumes "tasking_inv s"
  shows "tasking_inv (create_task stack_at entry prio s) \<and>
    (\<exists>e s'. schedule esp s = Some (e, s') \<and> tasking_inv s') \<and>
    (\<exists>e s'. task_yield esp s = Some (e, s') \<and> tasking_inv s') \<and>
    (\<exists>e s'. task_sleep esp ticks s = Some (e, s') \<and> tasking_inv s')"
proof -
  have run: "\<exists>e s'. schedule esp s = Some (e, s') \<and> tasking_inv s'" if "tasking_inv s" for s
    using tasking_invE [OF that] schedule_runs schedule_inv [OF that] by metis
  moreover have "tasking_inv (upd_task p (\<lambda>t. t\<lparr>t_sleep_ticks := ticks, t_state := TASK_SLEEPING\<rparr>) s)" for p
    using assms by (rule upd_task_inv) simp
  ultimately show ?thesis
    using assms create_task_inv [OF assms] by (auto simp: task_yield_def task_sleep_def)
qed

definition raw_tasking :: tasking where
  "raw_tasking = \<lparr>tasks = (\<lambda>_. \<lparr>t_esp = 0, t_id = 0, t_priority = 0, t_state = TASK_READY, t_sleep_ticks = 0,
     t_cpu_ticks = 0, t_stack = replicate 1024 0, t_next = 0\<rparr>), current_task = main_task, next_pid = 1,
     total_tasks = 1, pool_index = 0\<rparr>"

text \<open>The system after boot: the main task, and the two demonstration tasks of \<open>kernel_main\<close>.\<close>

definition boot_tasking :: tasking where
  "boot_tasking = create_task (\<lambda>p. of_nat p * 8192) 0x2000 2
     (create_task (\<lambda>p. of_nat p * 8192) 0x1000 3 (init_tasking raw_tasking))"

lemma init_raw_inv: "tasking_inv (init_tasking raw_tasking)"
  by (rule init_tasking_inv) (simp add: raw_tasking_def)

lemma boot_tasking_inv: "tasking_inv boot_tasking"
  unfolding boot_tasking_def by (intro create_task_inv init_raw_inv)

theorem tasking_invariant_witness:
  "tasking_inv (create_task (\<lambda>p. of_nat p * 8192) 0x3000 7 boot_tasking) \<and>
    (\<exists>e s'. schedule 0x9000 boot_tasking = Some (e, s') \<and> tasking_inv s') \<and>
    (\<exists>e s'. task_yield 0x9000 boot_tasking = Some (e, s') \<and> tasking_inv s') \<and>
    (\<exists>e s'. task_sleep 0x9000 50 boot_tasking = Some (e, s') \<and> tasking_inv s')"
  by (rule tasking_invariant [OF boot_tasking_inv])

text \<open>
  C9. One scheduling decision. Reading the ring from the task after the current one (the current
  one last), with sleeping tasks counted down first: if some ready task has a positive priority, the
  first task of the highest such priority runs next, otherwise the current task goes on, ready or
  not. Only the chosen task is charged a tick, the interrupted stack pointer is saved, and the
  chosen task's saved stack pointer is returned.
\<close>

theorem schedule_correct:
  assumes "ring_at s (c # xs)"
  shows "\<exists>r s'. schedule esp s = Some (t_esp (tasks s' r), s') \<and> current_task s' = r \<and>
    (if \<exists>t\<in>set (c # xs). runnable esp s t
     then first_max (runnable esp s) (\<lambda>t. t_priority (tasks s t)) (xs @ [c]) r else r = c) \<and>
    (\<forall>t\<in>set (c # xs). tasks s' t =
      (ticked esp s t)\<lparr>t_cpu_ticks := t_cpu_ticks (tasks s t) + (if t = r then 1 else 0)\<rparr>) \<and>
    (\<exists>ys. ring_at s' ys \<and> set ys = set (c # xs))"
proof -
  from schedule_runs [OF assms, of esp] obtain us r vs where
    run: "schedule esp s = Some (t_esp (ticked esp s r), after_schedule esp (c # xs) r s)"
    and split: "xs @ [c] = us @ r # vs" and pick: "chosen esp s us r vs" by blast
  have mem: "set (us @ r # vs) = set (c # xs)" unfolding split [symmetric] by auto
  have "vs = [] \<Longrightarrow> r = c" using split by simp
  with pick have "if \<exists>t\<in>set (c # xs). runnable esp s t
     then first_max (runnable esp s) (\<lambda>t. t_priority (tasks s t)) (xs @ [c]) r else r = c"
    unfolding best_split_def mem split first_max_def runnable_def by (auto split: if_splits)
  moreover have "r \<in> set (c # xs)" using mem by auto
  moreover have "ring_at (after_schedule esp (c # xs) r s) (r # vs @ us)"
    by (rule schedule_ring [OF assms split])
  moreover have "set (r # vs @ us) = set (c # xs)" using mem by auto
  ultimately show ?thesis
    using run by (intro exI [of _ r] exI [of _ "after_schedule esp (c # xs) r s"])
      (auto simp: after_schedule_def)
qed

lemma init_pool: "pool_index (init_tasking s) = 0"
  by (simp add: init_tasking_def)

lemma boot_pool: "pool_index boot_tasking = 2"
  by (simp add: boot_tasking_def create_task_fields init_pool TASK_POOL_SIZE_def)

lemma boot_ring: "ring_at boot_tasking [1, 3, 2]"
proof -
  have "ring_at (init_tasking raw_tasking) [1]"
    by (simp add: init_tasking_def raw_tasking_def ring_at_def circle_def upd_task_def)
  from create_task_room [OF this, where prio = 3] have
    "ring_at (create_task (\<lambda>p. of_nat p * 8192) 0x1000 3 (init_tasking raw_tasking)) [1, 2]"
    by (simp add: init_pool TASK_POOL_SIZE_def)
  from create_task_room [OF this, where prio = 2] show ?thesis
    unfolding boot_tasking_def by (simp add: create_task_fields init_pool TASK_POOL_SIZE_def)
qed

theorem schedule_correct_witness:
  "\<exists>r s'. schedule 0x9000 boot_tasking = Some (t_esp (tasks s' r), s') \<and> current_task s' = r \<and>
    (if \<exists>t\<in>set [1, 3, 2]. runnable 0x9000 boot_tasking t
     then first_max (runnable 0x9000 boot_tasking) (\<lambda>t. t_priority (tasks boot_tasking t)) ([3, 2] @ [1]) r
     else r = 1) \<and>
    (\<forall>t\<in>set [1, 3, 2]. tasks s' t = (ticked 0x9000 boot_tasking t)
      \<lparr>t_cpu_ticks := t_cpu_ticks (tasks boot_tasking t) + (if t = r then 1 else 0)\<rparr>) \<and>
    (\<exists>ys. ring_at s' ys \<and> set ys = set [1, 3, 2])"
  by (rule schedule_correct [OF boot_ring])

text \<open>
  Creating a task. With a free slot the new control block enters the ring right behind the
  current task, gets the next number, is ready, and when the scheduler first returns to its saved
  stack pointer the processor starts at \<open>entry\<close> in kernel code with interrupts enabled (bit 9 of
  EFLAGS), cleared registers and an empty stack. With all eight slots used nothing changes.
\<close>

theorem create_task_correct:
  assumes "tasking_inv s" and "ring_at s (c # xs)"
  shows "if pool_index s < TASK_POOL_SIZE then
      let s' = create_task stack_at entry prio s; nt = task_pool (pool_index s); t = tasks s' nt in
      ring_at s' (c # nt # xs) \<and> t_id t = next_pid s \<and> next_pid s' = next_pid s + 1 \<and>
      t_priority t = prio \<and> t_state t = TASK_READY \<and> t_esp t = stack_at nt + 4 * 1010 \<and>
      irq_return 1010 (t_stack t) = \<lparr>ds = 0x10, general = replicate 8 0, eip = entry, cs = 0x08,
        eflags = 0x0202, resume_sp = 1024\<rparr> \<and> bit (0x0202 :: u32) 9 \<and> task_count s' = task_count s + 1
    else create_task stack_at entry prio s = s"
proof (cases "pool_index s < TASK_POOL_SIZE")
  case True
  let ?nt = "task_pool (pool_index s)"
  have "length (t_stack (tasks s ?nt)) = 1024" using assms(1) True by (simp add: tasking_inv_def)
  then obtain sp st where f: "initial_frame entry (1024, t_stack (tasks s ?nt)) = (sp, st)" "sp = 1010"
    "irq_return sp st = \<lparr>ds = 0x10, general = replicate 8 0, eip = entry, cs = 0x08,
        eflags = 0x0202, resume_sp = 1024\<rparr>"
    using initial_frame_resumes [of 1024 "t_stack (tasks s ?nt)" entry]
    by (cases "initial_frame entry (1024, t_stack (tasks s ?nt))") auto
  have "current_task s \<in> {main_task} \<union> task_pool ` {..<pool_index s}"
    using assms(2) unfolding ring_at_def by auto
  then have "current_task s \<noteq> ?nt" by auto
  with True f create_task_room [OF assms(2) True, of stack_at entry prio] show ?thesis
    by (simp add: create_task_def Let_def task_count_def)
next
  case False
  then show ?thesis by (simp add: create_task_def)
qed

theorem create_task_correct_witness:
  "if pool_index boot_tasking < TASK_POOL_SIZE then
      let s' = create_task (\<lambda>p. 0x100) 0x4000 5 boot_tasking; nt = task_pool (pool_index boot_tasking);
          t = tasks s' nt in
      ring_at s' (1 # nt # [3, 2]) \<and> t_id t = next_pid boot_tasking \<and> next_pid s' = next_pid boot_tasking + 1 \<and>
      t_priority t = 5 \<and> t_state t = TASK_READY \<and> t_esp t = 0x100 + 4 * 1010 \<and>
      irq_return 1010 (t_stack t) = \<lparr>ds = 0x10, general = replicate 8 0, eip = 0x4000, cs = 0x08,
        eflags = 0x0202, resume_sp = 1024\<rparr> \<and> bit (0x0202 :: u32) 9 \<and> task_count s' = task_count boot_tasking + 1
    else create_task (\<lambda>p. 0x100) 0x4000 5 boot_tasking = boot_tasking"
  by (rule create_task_correct [OF boot_tasking_inv boot_ring])

text \<open>A runnable task above every other runnable one is the one that runs next.\<close>

lemma schedule_highest:
  assumes ring: "ring_at s (c # xs)" and r: "r \<in> set (c # xs)" "runnable esp s r"
    and top: "\<forall>t\<in>set (c # xs). t \<noteq> r \<longrightarrow> runnable esp s t \<longrightarrow> t_priority (tasks s t) < t_priority (tasks s r)"
  shows "\<exists>e. schedule esp s = Some (e, after_schedule esp (c # xs) r s)"
proof -
  from schedule_runs [OF ring, of esp] obtain us r' vs where
    run: "schedule esp s = Some (t_esp (ticked esp s r'), after_schedule esp (c # xs) r' s)"
    and split: "xs @ [c] = us @ r' # vs" and pick: "chosen esp s us r' vs" by blast
  have mem: "set (us @ r' # vs) = set (c # xs)" unfolding split [symmetric] by auto
  with r have "\<exists>x\<in>set (us @ r' # vs). t_state (ticked esp s x) = TASK_READY \<and> 0 < t_priority (tasks s x)"
    unfolding runnable_def by metis
  with pick have r': "runnable esp s r'"
    and best: "\<And>t. t \<in> set us \<union> set vs \<Longrightarrow> runnable esp s t \<Longrightarrow> t_priority (tasks s t) \<le> t_priority (tasks s r')"
    unfolding best_split_def runnable_def by (auto intro: less_imp_le)
  have "r' = r"
  proof (rule ccontr)
    assume ne: "r' \<noteq> r"
    then have "t_priority (tasks s r') < t_priority (tasks s r)" using top r' mem by auto
    moreover have "r \<in> set us \<union> set vs" using r(1) ne unfolding mem [symmetric] by auto
    ultimately show False using best [OF _ r(2)] by fastforce
  qed
  with run show ?thesis by blast
qed

text \<open>Successive timer interrupts; each entry of the list is the stack pointer saved by one.\<close>

fun run_schedules :: "u32 list \<Rightarrow> tasking \<Rightarrow> tasking option" where
  "run_schedules [] s = Some s"
| "run_schedules (esp # es) s = do { (e, s) \<leftarrow> schedule esp s; run_schedules es s }"

abbreviation ready_at :: "u32 \<Rightarrow> tasking \<Rightarrow> task_ptr \<Rightarrow> bool" where
  "ready_at p s t \<equiv> t_state (tasks s t) = TASK_READY \<and> t_priority (tasks s t) = p"

lemma ticked_awake: "t_state (tasks s t) \<noteq> TASK_SLEEPING \<Longrightarrow> t_state (ticked esp s t) = t_state (tasks s t)"
  by (auto simp: ticked_def count_down_def)

text \<open>One decision among awake tasks, in terms of the tasks of the highest priority.\<close>

lemma schedule_top:
  assumes ring: "ring_at s (c # xs)" and awake: "\<forall>t\<in>set (c # xs). t_state (tasks s t) \<noteq> TASK_SLEEPING"
    and p: "0 < p" "\<forall>t\<in>set (c # xs). t_state (tasks s t) = TASK_READY \<longrightarrow> t_priority (tasks s t) \<le> p"
    and ne: "filter (ready_at p s) (xs @ [c]) \<noteq> []"
  shows "\<exists>r us vs e. schedule esp s = Some (e, after_schedule esp (c # xs) r s) \<and> xs @ [c] = us @ r # vs \<and>
    ready_at p s r \<and> filter (ready_at p s) us = []"
proof -
  from schedule_runs [OF ring, of esp] obtain us r vs where
    run: "schedule esp s = Some (t_esp (ticked esp s r), after_schedule esp (c # xs) r s)"
    and split: "xs @ [c] = us @ r # vs" and pick: "chosen esp s us r vs" by blast
  have mem: "set (c # xs) = set (us @ r # vs)" unfolding split [symmetric] by auto
  have tick: "t_state (ticked esp s t) = t_state (tasks s t)" if "t \<in> set (us @ r # vs)" for t
    using awake that unfolding mem by (blast intro: ticked_awake)
  from ne obtain t where t: "t \<in> set (us @ r # vs)" "ready_at p s t"
    unfolding split filter_empty_conv by blast
  have "\<exists>t\<in>set (us @ r # vs). t_state (ticked esp s t) = TASK_READY \<and> 0 < t_priority (tasks s t)"
    using t p(1) tick [OF t(1)] by metis
  then have pick: "t_state (tasks s r) = TASK_READY"
    "\<forall>u\<in>set us. t_state (tasks s u) = TASK_READY \<longrightarrow> t_priority (tasks s u) < t_priority (tasks s r)"
    "\<forall>v\<in>set vs. t_state (tasks s v) = TASK_READY \<longrightarrow> t_priority (tasks s v) \<le> t_priority (tasks s r)"
    using pick tick unfolding best_split_def by auto
  have "p \<le> t_priority (tasks s r)" using t pick by fastforce
  moreover have "t_priority (tasks s r) \<le> p" using p(2) pick(1) unfolding mem by simp
  ultimately have "t_priority (tasks s r) = p" by simp
  with run split pick show ?thesis by (fastforce simp: filter_empty_conv)
qed

lemma after_schedule_awake:
  "\<forall>t\<in>set xs. t_state (tasks s t) \<noteq> TASK_SLEEPING \<Longrightarrow> t \<in> set xs \<Longrightarrow>
    t_state (tasks (after_schedule esp xs r s) t) = t_state (tasks s t)"
  by (simp add: after_schedule_def ticked_awake)

text \<open>
  C13. Round robin: while no task sleeps and none changes its state, the ready tasks of the highest
  priority share the processor in ring order, one tick each, for ever; no other task runs.
\<close>

theorem round_robin:
  assumes "ring_at s (c # xs)" and "\<forall>t\<in>set (c # xs). t_state (tasks s t) \<noteq> TASK_SLEEPING"
    and "0 < p" and "\<forall>t\<in>set (c # xs). t_state (tasks s t) = TASK_READY \<longrightarrow> t_priority (tasks s t) \<le> p"
    and "filter (ready_at p s) (xs @ [c]) = tops" and "tops \<noteq> []" and "es \<noteq> []"
  shows "\<exists>s'. run_schedules es s = Some s' \<and> current_task s' = tops ! ((length es - 1) mod length tops)"
  using assms
proof (induction es arbitrary: s c xs tops)
  case (Cons e es)
  have "filter (ready_at p s) (xs @ [c]) \<noteq> []" using Cons.prems(5,6) by simp
  from schedule_top [OF Cons.prems(1-4) this, of e] obtain r us vs x where
    run: "schedule e s = Some (x, after_schedule e (c # xs) r s)" and split: "xs @ [c] = us @ r # vs"
    and r: "ready_at p s r" "filter (ready_at p s) us = []" by blast
  let ?s = "after_schedule e (c # xs) r s"
  have mem: "set (r # vs @ us) = set (us @ r # vs)" by auto
  also have "\<dots> = set (c # xs)" unfolding split [symmetric] by auto
  finally have mem: "set (r # vs @ us) = set (c # xs)" .
  have tops: "tops = r # filter (ready_at p s) vs" using Cons.prems(5) r unfolding split by auto
  have same: "t_state (tasks ?s t) = t_state (tasks s t)" if "t \<in> set (c # xs)" for t
    using after_schedule_awake [OF Cons.prems(2) that] .
  have "filter (ready_at p ?s) ((vs @ us) @ [r]) = filter (ready_at p s) ((vs @ us) @ [r])"
    using same mem by (intro filter_cong) auto
  also have "\<dots> = rotate1 tops" using r tops by simp
  finally have tops': "filter (ready_at p ?s) ((vs @ us) @ [r]) = rotate1 tops" .
  show ?case
  proof (cases "es = []")
    case True
    then show ?thesis using run tops by simp
  next
    case False
    have "\<exists>s'. run_schedules es ?s = Some s' \<and>
        current_task s' = rotate1 tops ! ((length es - 1) mod length (rotate1 tops))"
    proof (rule Cons.IH [OF schedule_ring [OF Cons.prems(1) split] _ Cons.prems(3) _ tops' _ False])
      show "\<forall>t\<in>set (r # vs @ us). t_state (tasks ?s t) \<noteq> TASK_SLEEPING"
        "\<forall>t\<in>set (r # vs @ us). t_state (tasks ?s t) = TASK_READY \<longrightarrow> t_priority (tasks ?s t) \<le> p"
        unfolding mem using same Cons.prems(2,4) by simp_all
    qed (use Cons.prems(6) in simp)
    moreover have "rotate1 tops ! ((length es - 1) mod length tops) = tops ! (length es mod length tops)"
      using Cons.prems(6) False by (simp add: nth_rotate1 mod_Suc_eq)
    ultimately show ?thesis using run by simp
  qed
qed simp

theorem round_robin_witness:
  "\<exists>s'. run_schedules [0x9000, 0x9100, 0x9200] (create_task (\<lambda>p. 0x100) 0x4000 3 boot_tasking) = Some s' \<and>
    current_task s' = [4, 2] ! ((length [0x9000, 0x9100, 0x9200 :: u32] - 1) mod length [4, 2 :: nat])"
proof (rule round_robin)
  let ?s = "create_task (\<lambda>p. 0x100) 0x4000 3 boot_tasking"
  show "ring_at ?s (1 # [4, 3, 2])"
    using create_task_room [OF boot_ring, where prio = 3] by (simp add: boot_pool TASK_POOL_SIZE_def)
  show "0 < (3 :: u32)" by simp
  have t: "map (\<lambda>t. (t_state (tasks ?s t), t_priority (tasks ?s t))) [1, 2, 3, 4] =
      [(TASK_READY, 1), (TASK_READY, 3), (TASK_READY, 2), (TASK_READY, 3)]"
    by (simp add: create_task_fields boot_pool TASK_POOL_SIZE_def)
      (simp add: boot_tasking_def create_task_fields init_pool TASK_POOL_SIZE_def,
       simp add: raw_tasking_def init_tasking_def)
  then show "\<forall>t\<in>set (1 # [4, 3, 2]). t_state (tasks ?s t) \<noteq> TASK_SLEEPING"
    and "\<forall>t\<in>set (1 # [4, 3, 2]). t_state (tasks ?s t) = TASK_READY \<longrightarrow> t_priority (tasks ?s t) \<le> 3"
    and "filter (ready_at 3 ?s) ([4, 3, 2] @ [1]) = [4, 2]"
    by simp_all
qed simp_all

text \<open>Counting down a sleep of \<open>n\<close> ticks.\<close>

lemma schedule_ticks:
  assumes "ring_at s (c # xs)" and "t \<in> set (c # xs)"
  shows "\<exists>e s' ys. schedule esp s = Some (e, s') \<and> ring_at s' ys \<and> set ys = set (c # xs) \<and>
    t_state (tasks s' t) = t_state (ticked esp s t) \<and> t_sleep_ticks (tasks s' t) = t_sleep_ticks (ticked esp s t)"
proof -
  from schedule_runs [OF assms(1), of esp] obtain us r vs where
    run: "schedule esp s = Some (t_esp (ticked esp s r), after_schedule esp (c # xs) r s)"
    and split: "xs @ [c] = us @ r # vs" by blast
  have "set (r # vs @ us) = set (us @ r # vs)" by auto
  also have "\<dots> = set (c # xs)" unfolding split [symmetric] by auto
  finally have "set (r # vs @ us) = set (c # xs)" .
  moreover have "t_state (tasks (after_schedule esp (c # xs) r s) t) = t_state (ticked esp s t)"
    "t_sleep_ticks (tasks (after_schedule esp (c # xs) r s) t) = t_sleep_ticks (ticked esp s t)"
    using assms(2) by (simp_all add: after_schedule_def)
  ultimately show ?thesis
    using run schedule_ring [OF assms(1) split, of esp] by blast
qed

lemma ticked_sleeping:
  assumes "t_state (tasks s t) = TASK_SLEEPING" and "0 < unat (t_sleep_ticks (tasks s t))"
  shows "unat (t_sleep_ticks (ticked esp s t)) = unat (t_sleep_ticks (tasks s t)) - 1"
    and "t_state (ticked esp s t) =
      (if unat (t_sleep_ticks (tasks s t)) = 1 then TASK_READY else TASK_SLEEPING)"
proof -
  let ?w = "t_sleep_ticks (tasks s t)"
  have "0 < ?w" using assms(2) by (simp add: word_less_nat_alt)
  moreover have u: "unat (?w - 1) = unat ?w - 1" using unat_u32_minus [of 1 ?w] assms(2) by simp
  moreover have "?w - 1 = 0 \<longleftrightarrow> unat ?w = 1"
    using u assms(2) by (metis One_nat_def Suc_pred' diff_self_eq_0 unat_eq_zero)
  ultimately show "unat (t_sleep_ticks (ticked esp s t)) = unat ?w - 1"
    and "t_state (ticked esp s t) = (if unat ?w = 1 then TASK_READY else TASK_SLEEPING)"
    using assms(1) by (auto simp: ticked_def count_down_def Let_def)
qed

lemma sleep_counts_down:
  assumes "ring_at s xs" and "t \<in> set xs" and "t_state (tasks s t) = TASK_SLEEPING"
    and "unat (t_sleep_ticks (tasks s t)) = n" and "0 < length es" and "length es \<le> n"
  shows "\<exists>s'. run_schedules es s = Some s' \<and> unat (t_sleep_ticks (tasks s' t)) = n - length es \<and>
    t_state (tasks s' t) = (if length es < n then TASK_SLEEPING else TASK_READY)"
  using assms
proof (induction es arbitrary: s xs n)
  case (Cons e es)
  obtain ys where xs: "xs = current_task s # ys" using ring_at_Cons [OF Cons.prems(1)] by blast
  from schedule_ticks [of s "current_task s" ys t e] Cons.prems(1,2) xs obtain x s' zs where
    run: "schedule e s = Some (x, s')" and ring: "ring_at s' zs" "t \<in> set zs"
    and t: "t_state (tasks s' t) = t_state (ticked e s t)" "t_sleep_ticks (tasks s' t) = t_sleep_ticks (ticked e s t)"
    by auto
  have n: "0 < unat (t_sleep_ticks (tasks s t))" using Cons.prems by simp
  note tick = ticked_sleeping [OF Cons.prems(3) n, of e]
  show ?case
  proof (cases "es = []")
    case True
    with run t tick Cons.prems show ?thesis by (auto simp: le_less)
  next
    case False
    then have "1 < n" using Cons.prems by (cases es) auto
    with tick t Cons.prems(4) have "t_state (tasks s' t) = TASK_SLEEPING"
      "unat (t_sleep_ticks (tasks s' t)) = n - 1" by simp_all
    from Cons.IH [OF ring this] False Cons.prems(6) run show ?thesis
      by (auto simp: less_diff_conv)
  qed
qed simp

text \<open>
  C25. Sleeping: after \<open>task_sleep(n)\<close> the caller is asleep through the next \<open>n - 1\<close> runs of the
  scheduler, the one that \<open>task_sleep\<close> itself triggers included, and ready after the \<open>n\<close>-th. So
  \<open>task_sleep(1)\<close>, which the locks use to wait, makes its caller ready again at once.
\<close>

theorem task_sleep_wakes:
  assumes "tasking_inv s" and "0 < length es" and "length es \<le> unat ticks"
  shows "\<exists>s'. run_schedules es (upd_task (current_task s)
      (\<lambda>t. t\<lparr>t_sleep_ticks := ticks, t_state := TASK_SLEEPING\<rparr>) s) = Some s' \<and>
    (length es = 1 \<longrightarrow> map_option snd (task_sleep (hd es) ticks s) = Some s') \<and>
    t_state (tasks s' (current_task s)) = (if length es < unat ticks then TASK_SLEEPING else TASK_READY)"
proof -
  let ?s = "upd_task (current_task s) (\<lambda>t. t\<lparr>t_sleep_ticks := ticks, t_state := TASK_SLEEPING\<rparr>) s"
  have "tasking_inv ?s" using assms(1) by (rule upd_task_inv) simp
  then obtain xs where "ring_at ?s (current_task ?s # xs)" using tasking_invE by blast
  from sleep_counts_down [OF this, of "current_task s" "unat ticks" es] assms(2,3)
  obtain s' where s': "run_schedules es ?s = Some s'"
    "t_state (tasks s' (current_task s)) = (if length es < unat ticks then TASK_SLEEPING else TASK_READY)"
    by auto
  have "ticks \<noteq> 0" using assms(2,3) by auto
  have "map_option snd (task_sleep (hd es) ticks s) = Some s'" if "length es = 1"
  proof -
    obtain e where "es = [e]" using \<open>length es = 1\<close> by (cases es) auto
    with s'(1) \<open>ticks \<noteq> 0\<close> show ?thesis
      by (cases "schedule e ?s") (auto simp: task_sleep_def)
  qed
  with s' show ?thesis by blast
qed

theorem task_sleep_wakes_witness:
  "\<exists>s'. run_schedules [0x9000] (upd_task (current_task boot_tasking)
      (\<lambda>t. t\<lparr>t_sleep_ticks := 1, t_state := TASK_SLEEPING\<rparr>) boot_tasking) = Some s' \<and>
    (length [0x9000 :: u32] = 1 \<longrightarrow> map_option snd (task_sleep (hd [0x9000]) 1 boot_tasking) = Some s') \<and>
    t_state (tasks s' (current_task boot_tasking)) =
      (if length [0x9000 :: u32] < unat (1 :: u32) then TASK_SLEEPING else TASK_READY)"
  by (rule task_sleep_wakes [OF boot_tasking_inv]) simp_all

end
