(* ===== verification/Timer.thy ===== *)
theory Timer
  imports Kernel_Prelude
begin

text \<open>
  \<^verbatim>\<open>timer.c\<close>: the tick counter, the table of callbacks the timer interrupt runs, and the wait loop. A
  callback is the address of its function, 0 for NULL; what the functions do is the argument \<open>call\<close> of the
  interrupt routine. The state \<open>'s\<close> they work on contains the timer, reached by \<open>get\<close> and \<open>put\<close>: a callback
  may change the table while the routine walks it.
\<close>

section \<open>Model\<close>

definition TIMER_MAX_CALLBACKS :: nat where
  "TIMER_MAX_CALLBACKS = 8"

record timer =
  timer_ticks :: u32
  timer_freq_hz :: u32
  callbacks :: "u32 list"
  cb_count :: nat

partial_function (option) run_callbacks ::
  "('s \<Rightarrow> timer) \<Rightarrow> (u32 \<Rightarrow> 's \<Rightarrow> 's option) \<Rightarrow> nat \<Rightarrow> 's \<Rightarrow> 's option" where
  "run_callbacks get call i s =
     (if i < cb_count (get s) then do {
        s \<leftarrow> (if callbacks (get s) ! i \<noteq> 0 then call (callbacks (get s) ! i) s else Some s);
        run_callbacks get call (i + 1) s
      }
      else Some s)"

definition timer_irq_callback ::
  "('s \<Rightarrow> timer) \<Rightarrow> (timer \<Rightarrow> 's \<Rightarrow> 's) \<Rightarrow> (u32 \<Rightarrow> 's \<Rightarrow> 's option) \<Rightarrow> 's \<Rightarrow> 's option" where
  "timer_irq_callback get put call s =
     (let s = put ((get s)\<lparr>timer_ticks := timer_ticks (get s) + 1\<rparr>) s in run_callbacks get call 0 s)"

definition reset_timer :: "u32 \<Rightarrow> timer \<Rightarrow> timer" where
  "reset_timer frequency t =
     fold (\<lambda>i t. t\<lparr>callbacks := (callbacks t)[i := 0]\<rparr>) [0..<TIMER_MAX_CALLBACKS]
       (t\<lparr>timer_freq_hz := frequency, cb_count := 0\<rparr>)"

text \<open>The three bytes for the interval timer; a frequency of 0 is a division by zero.\<close>

definition pit_setup :: "u32 \<Rightarrow> (u16 \<times> u8) list option" where
  "pit_setup frequency =
     (if frequency = 0 then None
      else let divisor = 1193180 div frequency in
        Some [(0x43, 0x36), (0x40, ucast (divisor AND 0xFF)), (0x40, ucast (drop_bit 8 divisor AND 0xFF))])"

definition get_ticks :: "timer \<Rightarrow> u32" where
  "get_ticks t = timer_ticks t"

definition get_uptime_sec :: "timer \<Rightarrow> u32 option" where
  "get_uptime_sec t = (if timer_freq_hz t = 0 then None else Some (timer_ticks t div timer_freq_hz t))"

definition timer_register_callback :: "u32 \<Rightarrow> timer \<Rightarrow> int \<times> timer" where
  "timer_register_callback cb t =
     (if cb_count t \<ge> TIMER_MAX_CALLBACKS then (-1, t)
      else (0, t\<lparr>callbacks := (callbacks t)[cb_count t := cb], cb_count := cb_count t + 1\<rparr>))"

definition shift_down :: "nat \<Rightarrow> nat \<Rightarrow> u32 list \<Rightarrow> u32 list" where
  "shift_down i n cbs = fold (\<lambda>j cbs. cbs[j := cbs ! (j + 1)]) [i..<n - 1] cbs"

definition timer_unregister_callback :: "u32 \<Rightarrow> timer \<Rightarrow> timer" where
  "timer_unregister_callback cb t =
     (case find (\<lambda>i. callbacks t ! i = cb) [0..<cb_count t] of
        None \<Rightarrow> t
      | Some i \<Rightarrow>
          let t = t\<lparr>callbacks := shift_down i (cb_count t) (callbacks t)\<rparr>;
              t = t\<lparr>cb_count := cb_count t - 1\<rparr>
          in t\<lparr>callbacks := (callbacks t)[cb_count t := 0]\<rparr>)"

text \<open>The wait halts between two looks at the counter; \<open>w\<close> is what each halt does to it.\<close>

fun wait_loop :: "u32 \<Rightarrow> u32 \<Rightarrow> (timer \<Rightarrow> timer) list \<Rightarrow> timer \<Rightarrow> timer option" where
  "wait_loop start needed w t =
     (if timer_ticks t - start < needed
      then case w of [] \<Rightarrow> None | hlt # w' \<Rightarrow> wait_loop start needed w' (hlt t)
      else Some t)"

declare wait_loop.simps [simp del]

definition timer_wait_ms :: "u32 \<Rightarrow> (timer \<Rightarrow> timer) list \<Rightarrow> timer \<Rightarrow> timer option" where
  "timer_wait_ms ms w t =
     (let ticks_needed = (ms * timer_freq_hz t) div 1000;
          ticks_needed = (if ticks_needed = 0 then 1 else ticks_needed)
      in wait_loop (timer_ticks t) ticks_needed w t)"

section \<open>The callback table\<close>

definition active :: "timer \<Rightarrow> u32 list" where
  "active t = take (cb_count t) (callbacks t)"

definition timer_inv :: "timer \<Rightarrow> bool" where
  "timer_inv t \<longleftrightarrow> length (callbacks t) = TIMER_MAX_CALLBACKS \<and> cb_count t \<le> TIMER_MAX_CALLBACKS \<and>
     (\<forall>i. cb_count t \<le> i \<longrightarrow> i < TIMER_MAX_CALLBACKS \<longrightarrow> callbacks t ! i = 0) \<and> timer_freq_hz t \<noteq> 0"

lemma length_shift_down [simp]: "length (shift_down i n cbs) = length cbs"
  unfolding shift_down_def by (rule fold_invariant [where Q = "\<lambda>_. True"]) simp_all

lemma nth_shift_down:
  "n \<le> length cbs \<Longrightarrow> k < length cbs \<Longrightarrow>
    shift_down i n cbs ! k = (if i \<le> k \<and> k + 1 < n then cbs ! (k + 1) else cbs ! k)"
proof (induction n)
  case 0
  then show ?case by (simp add: shift_down_def)
next
  case (Suc n)
  show ?case
  proof (cases "i < n")
    case False
    with Suc.prems show ?thesis by (auto simp: shift_down_def)
  next
    case True
    then have range: "[i..<Suc n - 1] = [i..<n - 1] @ [n - 1]"
      using upt_Suc_append [of i "n - 1"] by (cases n) auto
    have n: "n < length cbs" "n \<le> length cbs" using Suc.prems(1) by simp_all
    have at: "shift_down i n cbs ! n = cbs ! n" if "n < length cbs"
      unfolding shift_down_def
      by (rule fold_invariant [where Q = "\<lambda>j. j < n - 1" and P = "\<lambda>c. c ! n = cbs ! n"]) auto
    have "shift_down i (Suc n) cbs = (shift_down i n cbs)[n - 1 := shift_down i n cbs ! n]"
      using True by (simp only: shift_down_def range) simp
    with Suc.IH [OF n(2) Suc.prems(2)] at [OF n(1)] Suc.prems True show ?thesis
      by (auto simp: nth_list_update)
  qed
qed

lemma remove1_nth:
  assumes "i < length xs" and "xs ! i = x" and "\<And>j. j < i \<Longrightarrow> xs ! j \<noteq> x"
  shows "remove1 x xs = take i xs @ drop (i + 1) xs"
proof -
  have "x \<notin> set (take i xs)" using assms by (auto simp: in_set_conv_nth)
  moreover have "xs = take i xs @ x # drop (i + 1) xs"
    using assms(1,2) id_take_nth_drop by fastforce
  ultimately show ?thesis by (metis remove1_append remove1.simps(2))
qed

lemma find_upt_first: "find P [0..<n] = Some i \<Longrightarrow> i < n \<and> P i \<and> (\<forall>j<i. \<not> P j)"
  by (auto simp: find_Some_iff)

lemma register_active:
  assumes "timer_inv t" and "timer_register_callback cb t = (r, t')"
  shows "timer_inv t' \<and> timer_ticks t' = timer_ticks t \<and>
    (if length (active t) < TIMER_MAX_CALLBACKS then r = 0 \<and> active t' = active t @ [cb] else r = -1 \<and> t' = t)"
proof (cases "cb_count t < TIMER_MAX_CALLBACKS")
  case True
  with assms have t': "r = 0" "t' = t\<lparr>callbacks := (callbacks t)[cb_count t := cb], cb_count := cb_count t + 1\<rparr>"
    by (auto simp: timer_register_callback_def)
  have len: "length (callbacks t) = TIMER_MAX_CALLBACKS" using assms(1) by (simp add: timer_inv_def)
  have "timer_inv t'" unfolding t' using assms(1) True by (auto simp: timer_inv_def)
  moreover have "active t' = active t @ [cb]"
    using True len by (simp add: t' active_def take_Suc_conv_app_nth)
  ultimately show ?thesis using True len by (simp add: t' active_def)
next
  case False
  with assms show ?thesis by (auto simp: timer_register_callback_def active_def timer_inv_def)
qed

lemma unregister_active:
  assumes "timer_inv t"
  shows "timer_inv (timer_unregister_callback cb t) \<and> timer_ticks (timer_unregister_callback cb t) = timer_ticks t \<and>
    active (timer_unregister_callback cb t) = remove1 cb (active t)"
proof (cases "find (\<lambda>i. callbacks t ! i = cb) [0..<cb_count t]")
  case None
  then have "cb \<notin> set (active t)"
    using assms by (auto simp: active_def timer_inv_def find_None_iff in_set_conv_nth)
  with None assms show ?thesis by (simp add: timer_unregister_callback_def remove1_idem)
next
  case (Some i)
  let ?n = "cb_count t" and ?cbs = "callbacks t"
  from find_upt_first [OF Some] have i: "i < ?n" "?cbs ! i = cb" "\<And>j. j < i \<Longrightarrow> ?cbs ! j \<noteq> cb" by auto
  have len: "length ?cbs = TIMER_MAX_CALLBACKS" "?n \<le> length ?cbs" using assms by (auto simp: timer_inv_def)
  define cbs' where "cbs' = (shift_down i ?n ?cbs)[?n - 1 := 0]"
  have t': "timer_unregister_callback cb t = t\<lparr>callbacks := cbs', cb_count := ?n - 1\<rparr>"
    using Some by (simp add: timer_unregister_callback_def cbs'_def Let_def)
  have at: "cbs' ! k = (if k = ?n - 1 then 0 else if i \<le> k \<and> k + 1 < ?n then ?cbs ! (k + 1) else ?cbs ! k)"
    if "k < length ?cbs" for k
    using that len i(1) by (auto simp: cbs'_def nth_list_update nth_shift_down)
  have len': "length cbs' = length ?cbs" by (simp add: cbs'_def)
  have "take (?n - 1) cbs' = take i (active t) @ drop (i + 1) (active t)"
  proof (rule nth_equalityI)
    fix k assume "k < length (take (?n - 1) cbs')"
    then have k: "k < ?n - 1" "k < length ?cbs" using len' by simp_all
    with len(2) i(1) at [OF k(2)] show "take (?n - 1) cbs' ! k = (take i (active t) @ drop (i + 1) (active t)) ! k"
      by (auto simp: active_def nth_append)
  qed (use len' len(2) i(1) in \<open>auto simp: active_def\<close>)
  moreover have "remove1 cb (active t) = take i (active t) @ drop (i + 1) (active t)"
    using i len(2) by (intro remove1_nth) (auto simp: active_def)
  ultimately show ?thesis
    unfolding t' using assms at len len' i(1) by (auto simp: timer_inv_def active_def)
qed

section \<open>The interrupt routine\<close>

fun run_all :: "(u32 \<Rightarrow> 's \<Rightarrow> 's option) \<Rightarrow> u32 list \<Rightarrow> 's \<Rightarrow> 's option" where
  "run_all call [] s = Some s"
| "run_all call (f # fs) s = do { s \<leftarrow> call f s; run_all call fs s }"

text \<open>
  What the timer relies on: the state holds it, and a callback that returns has left it as it was. Then the
  interrupt counts one tick and runs the registered functions once each, in the order of registration.
\<close>

locale timer_user =
  fixes get :: "'s \<Rightarrow> timer" and put :: "timer \<Rightarrow> 's \<Rightarrow> 's" and call :: "u32 \<Rightarrow> 's \<Rightarrow> 's option"
  assumes get_put: "get (put t s) = t"
    and call_keeps: "call f s = Some s' \<Longrightarrow> get s' = get s"
begin

lemma run_callbacks_from:
  assumes "timer_inv (get s)"
  shows "run_callbacks get call i s = run_all call (filter (\<lambda>f. f \<noteq> 0) (drop i (active (get s)))) s"
  using assms
proof (induction "cb_count (get s) - i" arbitrary: i s)
  case 0
  then show ?case by (subst run_callbacks.simps) (simp add: active_def)
next
  case (Suc d)
  let ?f = "callbacks (get s) ! i"
  have i: "i < cb_count (get s)" "i < length (active (get s))" using Suc by (auto simp: active_def timer_inv_def)
  then have drop: "drop i (active (get s)) = ?f # drop (i + 1) (active (get s))"
    by (simp add: Cons_nth_drop_Suc [symmetric] active_def)
  have step: "run_callbacks get call (i + 1) s' = run_all call (filter (\<lambda>f. f \<noteq> 0) (drop (i + 1) (active (get s)))) s'"
    if "get s' = get s" for s'
    using Suc that by (metis Suc_diff_Suc Suc_eq_plus1 i(1) nat.inject)
  show ?case
  proof (cases "?f = 0")
    case True
    then show ?thesis using i step [of s] by (subst run_callbacks.simps) (simp add: drop)
  next
    case False
    then show ?thesis
      using i step call_keeps by (subst run_callbacks.simps) (cases "call ?f s"; simp add: drop)
  qed
qed

lemma irq_runs_all:
  assumes "timer_inv (get s)"
  shows "timer_irq_callback get put call s =
    run_all call (filter (\<lambda>f. f \<noteq> 0) (active (get s))) (put ((get s)\<lparr>timer_ticks := timer_ticks (get s) + 1\<rparr>) s)"
proof -
  let ?t = "(get s)\<lparr>timer_ticks := timer_ticks (get s) + 1\<rparr>"
  have "timer_inv ?t" "active ?t = active (get s)" using assms by (simp_all add: timer_inv_def active_def)
  then show ?thesis using run_callbacks_from [of "put ?t s" 0] by (simp add: timer_irq_callback_def Let_def get_put)
qed

lemma run_all_keeps: "run_all call fs s = Some s' \<Longrightarrow> get s' = get s"
  by (induction fs arbitrary: s) (auto simp: bind_eq_Some_conv dest: call_keeps)

end

section \<open>Waiting\<close>

definition tick :: "timer \<Rightarrow> timer" where
  "tick t = t\<lparr>timer_ticks := timer_ticks t + 1\<rparr>"

lemma funpow_tick: "(tick ^^ n) t = t\<lparr>timer_ticks := timer_ticks t + of_nat n\<rparr>"
  by (induction n arbitrary: t) (simp_all add: tick_def funpow_Suc_right add.assoc del: funpow.simps(2))

lemma wait_loop_ticks:
  assumes "unat (timer_ticks t - start) + k = unat needed"
  shows "wait_loop start needed (replicate n tick) t = (if k \<le> n then Some ((tick ^^ k) t) else None)"
  using assms
proof (induction k arbitrary: t n)
  case 0
  then have "\<not> timer_ticks t - start < needed" by (simp add: word_less_nat_alt)
  then show ?case by (subst wait_loop.simps) simp
next
  case (Suc k)
  have lt: "timer_ticks t - start < needed" using Suc.prems by (simp add: word_less_nat_alt)
  have "unat (timer_ticks t - start) + 1 < 2 ^ 32" using Suc.prems unat_u32 [of needed] by linarith
  then have "unat (timer_ticks t - start + 1) = unat (timer_ticks t - start) + 1"
    using unat_u32_plus [of "timer_ticks t - start" 1] by simp
  then have "unat (timer_ticks (tick t) - start) + k = unat needed"
    using Suc.prems by (simp add: tick_def algebra_simps)
  with Suc.IH [of "tick t"] lt show ?case
    by (subst wait_loop.simps) (cases n; simp add: funpow_Suc_right del: funpow.simps(2))
qed

section \<open>Properties\<close>

text \<open>
  The callback table is a list: from a consistent table, registering appends the function when fewer than
  eight are registered and answers -1 otherwise; unregistering removes the first occurrence and moves the
  later ones up in order. Consistency, the tick count and the cleared entries behind the list are kept.
\<close>

theorem callback_table_list:
  assumes "timer_inv t"
  shows "(case timer_register_callback cb t of (r, t') \<Rightarrow> timer_inv t' \<and> timer_ticks t' = timer_ticks t \<and>
      (if length (active t) < 8 then r = 0 \<and> active t' = active t @ [cb] else r = -1 \<and> t' = t)) \<and>
    timer_inv (timer_unregister_callback cb t) \<and> timer_ticks (timer_unregister_callback cb t) = timer_ticks t \<and>
    active (timer_unregister_callback cb t) = remove1 cb (active t)"
  using register_active [OF assms, of cb] unregister_active [OF assms, of cb]
  by (cases "timer_register_callback cb t") (simp add: TIMER_MAX_CALLBACKS_def)

definition two_callbacks :: timer where
  "two_callbacks = \<lparr>timer_ticks = 0xFFFFFFFE, timer_freq_hz = 100, callbacks = [7, 9, 0, 0, 0, 0, 0, 0], cb_count = 2\<rparr>"

lemma two_callbacks_inv: "timer_inv two_callbacks"
proof -
  have "[7 :: u32, 9, 0, 0, 0, 0, 0, 0] ! i = 0" if "2 \<le> i" "i < 8" for i
  proof -
    from that have "i \<in> {2, 3, 4, 5, 6, 7}" by auto
    then show ?thesis by auto
  qed
  then show ?thesis by (simp add: timer_inv_def two_callbacks_def TIMER_MAX_CALLBACKS_def)
qed

theorem callback_table_list_witness:
  "active (snd (timer_register_callback 5 two_callbacks)) = [7, 9, 5] \<and>
    active (timer_unregister_callback 7 two_callbacks) = [9]"
  using callback_table_list [OF two_callbacks_inv, of 5] callback_table_list [OF two_callbacks_inv, of 7]
  by (auto simp: active_def two_callbacks_def)


end
