(* ===== verification/Ring_Buffer.thy ===== *)
theory Ring_Buffer
  imports Kernel_Prelude
begin

text \<open>
  The circular arrays of the kernel (message queue, pipe, both log buffers): a start index and a
  count select a slice of a fixed array, read modulo its size. Two contracts are stated over that
  slice: a bounded queue that refuses when full (queue, pipe) and a bounded log that forgets its
  oldest entry (the logs).
\<close>

section \<open>A slice of a circular array\<close>

definition rb_list :: "'a list \<Rightarrow> nat \<Rightarrow> nat \<Rightarrow> 'a list" where
  "rb_list buf start cnt = map (\<lambda>i. buf ! ((start + i) mod length buf)) [0..<cnt]"

lemma length_rb_list [simp]: "length (rb_list buf start cnt) = cnt"
  by (simp add: rb_list_def)

lemma rb_list_0 [simp]: "rb_list buf start 0 = []"
  by (simp add: rb_list_def)

lemma rb_list_Nil_iff [simp]: "rb_list buf start cnt = [] \<longleftrightarrow> cnt = 0"
  by (simp add: rb_list_def)

lemma nth_rb_list: "i < cnt \<Longrightarrow> rb_list buf start cnt ! i = buf ! ((start + i) mod length buf)"
  by (simp add: rb_list_def)

lemma mod_slot_le:
  assumes "i \<le> j" and "j < n" and "(s + i) mod n = (s + j) mod (n :: nat)"
  shows "i = j"
proof -
  have "n dvd (s + j) - (s + i)"
    using assms(1,3) mod_eq_dvd_iff_nat [of "s + i" "s + j" n] by simp
  then have "n dvd j - i" by simp
  with assms(1,2) show ?thesis
    by (metis diff_is_0_eq dvd_imp_le le_antisym le_less_trans diff_le_self not_gr_zero not_le)
qed

lemma mod_slot_inj:
  "i < n \<Longrightarrow> j < n \<Longrightarrow> (s + i) mod n = (s + j) mod (n :: nat) \<Longrightarrow> i = j"
  using mod_slot_le [of i j n s] mod_slot_le [of j i n s] by (cases "i \<le> j") auto

lemma rb_list_push:
  assumes "cnt < length buf"
  shows "rb_list (buf[(start + cnt) mod length buf := x]) start (Suc cnt) = rb_list buf start cnt @ [x]"
proof (rule nth_equalityI)
  fix i assume "i < length (rb_list (buf[(start + cnt) mod length buf := x]) start (Suc cnt))"
  then have "i < Suc cnt" by simp
  show "rb_list (buf[(start + cnt) mod length buf := x]) start (Suc cnt) ! i =
      (rb_list buf start cnt @ [x]) ! i"
  proof (cases "i = cnt")
    case True
    have "(start + cnt) mod length buf < length buf"
      using assms by (intro mod_less_divisor) linarith
    with True show ?thesis by (simp add: nth_rb_list nth_append)
  next
    case False
    with \<open>i < Suc cnt\<close> assms have "(start + i) mod length buf \<noteq> (start + cnt) mod length buf"
      using mod_slot_inj [of i "length buf" cnt start] by auto
    with False \<open>i < Suc cnt\<close> show ?thesis by (simp add: nth_rb_list nth_append)
  qed
qed simp

lemma rb_list_pop:
  assumes "0 < cnt" and "start < length buf"
  shows "rb_list buf start cnt = buf ! start # rb_list buf ((start + 1) mod length buf) (cnt - 1)"
proof (rule nth_equalityI)
  fix i assume "i < length (rb_list buf start cnt)"
  with assms show "rb_list buf start cnt ! i =
      (buf ! start # rb_list buf ((start + 1) mod length buf) (cnt - 1)) ! i"
    by (cases i) (simp_all add: nth_rb_list mod_add_left_eq)
qed (use assms in simp)

lemma rb_end_pop: "0 < cnt \<Longrightarrow> ((start + 1) mod n + (cnt - 1)) mod n = (start + cnt) mod (n :: nat)"
  by (cases cnt) (simp_all add: mod_add_left_eq)

lemma rb_list_overwrite:
  assumes "start < length buf"
  shows "rb_list (buf[start := x]) ((start + 1) mod length buf) (length buf) =
    tl (rb_list buf start (length buf)) @ [x]"
proof -
  let ?n = "length buf"
  obtain m where n: "?n = Suc m" using assms by (cases ?n) auto
  have pop: "rb_list buf start ?n = buf ! start # rb_list buf ((start + 1) mod ?n) m"
    using rb_list_pop [of ?n start buf] assms n by simp
  have slot: "((start + 1) mod ?n + m) mod ?n = start"
    using assms n by (simp add: mod_add_left_eq) (metis add_Suc_right mod_add_self2 mod_less)
  have "rb_list (buf[((start + 1) mod ?n + m) mod ?n := x]) ((start + 1) mod ?n) (Suc m) =
      rb_list buf ((start + 1) mod ?n) m @ [x]"
    by (rule rb_list_push) (simp add: n)
  then show ?thesis using n pop slot by simp
qed

section \<open>A bounded queue that refuses when full\<close>

text \<open>
  The interface a client of the message queue or of a pipe sees: \<open>push\<close> gives the new state or
  refuses, \<open>pop\<close> gives a value and the new state or refuses. The laws tie both to the list of
  stored values.
\<close>

datatype 'a fifo_op = Push 'a | Pop

fun fifo_run ::
  "('a \<Rightarrow> 's \<Rightarrow> 's option) \<Rightarrow> ('s \<Rightarrow> ('a \<times> 's) option) \<Rightarrow> 'a fifo_op list \<Rightarrow> 's \<Rightarrow>
    'a list \<times> 'a list \<times> 's" where
  "fifo_run push pop [] s = ([], [], s)"
| "fifo_run push pop (Push x # ops) s =
     (case push x s of
        None \<Rightarrow> fifo_run push pop ops s
      | Some s' \<Rightarrow> (let (ins, outs, t) = fifo_run push pop ops s' in (x # ins, outs, t)))"
| "fifo_run push pop (Pop # ops) s =
     (case pop s of
        None \<Rightarrow> fifo_run push pop ops s
      | Some (x, s') \<Rightarrow> (let (ins, outs, t) = fifo_run push pop ops s' in (ins, x # outs, t)))"

locale bounded_fifo =
  fixes cap :: nat
    and contents :: "'s \<Rightarrow> 'a list"
    and invar :: "'s \<Rightarrow> bool"
    and push :: "'a \<Rightarrow> 's \<Rightarrow> 's option"
    and pop :: "'s \<Rightarrow> ('a \<times> 's) option"
  assumes bound: "invar s \<Longrightarrow> length (contents s) \<le> cap"
    and push_room: "invar s \<Longrightarrow> length (contents s) < cap \<Longrightarrow>
      \<exists>s'. push x s = Some s' \<and> invar s' \<and> contents s' = contents s @ [x]"
    and push_full: "invar s \<Longrightarrow> length (contents s) = cap \<Longrightarrow> push x s = None"
    and pop_some: "invar s \<Longrightarrow> contents s = x # xs \<Longrightarrow>
      \<exists>s'. pop s = Some (x, s') \<and> invar s' \<and> contents s' = xs"
    and pop_empty: "invar s \<Longrightarrow> contents s = [] \<Longrightarrow> pop s = None"
begin

lemma push_SomeD:
  "invar s \<Longrightarrow> push x s = Some s' \<Longrightarrow> invar s' \<and> contents s' = contents s @ [x]"
  using bound [of s] push_room [of s x] push_full [of s x]
  by (cases "length (contents s) < cap") auto

lemma pop_SomeD:
  "invar s \<Longrightarrow> pop s = Some (x, s') \<Longrightarrow> invar s' \<and> contents s = x # contents s'"
  using pop_some [of s] pop_empty [of s] by (cases "contents s") auto

text \<open>
  Nothing is lost, duplicated or reordered: what was stored before a run followed by what was
  accepted during it is what came out followed by what is stored after it.
\<close>

lemma run_fifo:
  "invar s \<Longrightarrow> fifo_run push pop ops s = (ins, outs, t) \<Longrightarrow>
    invar t \<and> contents s @ ins = outs @ contents t"
proof (induction ops arbitrary: s ins outs)
  case Nil
  then show ?case by auto
next
  case (Cons op ops)
  show ?case
  proof (cases op)
    case (Push x)
    show ?thesis
    proof (cases "push x s")
      case None
      with Cons Push show ?thesis by simp
    next
      case (Some s')
      obtain ins' where "fifo_run push pop ops s' = (ins', outs, t)" "ins = x # ins'"
        using Cons.prems Push Some by (auto split: prod.splits)
      with Cons.IH [of s' ins' outs] push_SomeD [OF Cons.prems(1) Some] show ?thesis by simp
    qed
  next
    case Pop
    show ?thesis
    proof (cases "pop s")
      case None
      with Cons Pop show ?thesis by simp
    next
      case (Some r)
      obtain x s' where r: "r = (x, s')" by (cases r)
      obtain outs' where "fifo_run push pop ops s' = (ins, outs', t)" "outs = x # outs'"
        using Cons.prems Pop Some r by (auto split: prod.splits)
      with Cons.IH [of s' ins outs'] pop_SomeD [of s x s'] Cons.prems(1) Some r show ?thesis by simp
    qed
  qed
qed

end

section \<open>A bounded log that forgets the oldest entry\<close>

text \<open>The last \<open>n\<close> elements of a list.\<close>

definition last_n :: "nat \<Rightarrow> 'a list \<Rightarrow> 'a list" where
  "last_n n xs = drop (length xs - n) xs"

lemma length_last_n [simp]: "length (last_n n xs) = min n (length xs)"
  by (auto simp: last_n_def)

lemma last_n_Nil_iff: "last_n n xs = [] \<longleftrightarrow> n = 0 \<or> xs = []"
  by (cases n; cases xs) (auto simp: last_n_def)

lemma last_n_short: "length xs \<le> n \<Longrightarrow> last_n n xs = xs"
  by (simp add: last_n_def)

lemma last_n_last_n_snoc: "last_n n (last_n n xs @ [x]) = last_n n (xs @ [x])"
  by (cases "length xs \<le> n") (auto simp: last_n_def Suc_diff_le)

lemma last_n_snoc_full: "length xs = n \<Longrightarrow> 0 < n \<Longrightarrow> last_n n (xs @ [x]) = tl xs @ [x]"
  by (cases xs) (auto simp: last_n_def)

text \<open>
  A message \<open>m\<close> is stored as \<open>render m\<close> if the log accepts it (a level filter that appending does
  not change) and is ignored otherwise.
\<close>

locale bounded_log =
  fixes cap :: nat
    and entries :: "'s \<Rightarrow> 'e list"
    and invar :: "'s \<Rightarrow> bool"
    and accepts :: "'m \<Rightarrow> 's \<Rightarrow> bool"
    and render :: "'m \<Rightarrow> 'e"
    and append_msg :: "'m \<Rightarrow> 's \<Rightarrow> 's"
  assumes append_entries: "invar s \<Longrightarrow> accepts m s \<Longrightarrow>
      entries (append_msg m s) = last_n cap (entries s @ [render m]) \<and> invar (append_msg m s)"
    and append_ignored: "\<not> accepts m s \<Longrightarrow> append_msg m s = s"
    and append_accepts: "accepts m' (append_msg m s) = accepts m' s"
    and entries_bound: "invar s \<Longrightarrow> length (entries s) \<le> cap"
begin

lemma accepts_fold: "accepts m (fold append_msg ms s) = accepts m s"
  by (induction ms arbitrary: s) (simp_all add: append_accepts)

lemma entries_fold:
  "invar s \<Longrightarrow> entries (fold append_msg ms s) =
      last_n cap (entries s @ map render (filter (\<lambda>m. accepts m s) ms)) \<and>
    invar (fold append_msg ms s)"
proof (induction ms rule: rev_induct)
  case Nil
  then show ?case by (simp add: entries_bound last_n_short)
next
  case (snoc m ms)
  let ?old = "entries s @ map render (filter (\<lambda>m. accepts m s) ms)"
  show ?case
  proof (cases "accepts m s")
    case True
    with snoc show ?thesis
      using append_entries [of "fold append_msg ms s" m] last_n_last_n_snoc [of cap ?old "render m"]
      by (simp add: accepts_fold)
  next
    case False
    with snoc show ?thesis
      using append_ignored [of m "fold append_msg ms s"] by (simp add: accepts_fold)
  qed
qed

end

text \<open>
  The index discipline both log files share: the write index follows the count until the array is
  full and is the oldest entry from then on.
\<close>

definition log_start :: "nat \<Rightarrow> nat \<Rightarrow> nat \<Rightarrow> nat" where
  "log_start cap cnt head = (if cnt < cap then 0 else head)"

definition log_indices_ok :: "nat \<Rightarrow> nat \<Rightarrow> nat \<Rightarrow> bool" where
  "log_indices_ok cap cnt head \<longleftrightarrow> head < cap \<and> cnt \<le> cap \<and> (cnt < cap \<longrightarrow> head = cnt)"

lemma log_ring_append:
  assumes ok: "log_indices_ok (length buf) cnt head"
    and cnt': "cnt' = (if cnt < length buf then Suc cnt else cnt)"
    and head': "head' = (head + 1) mod length buf"
  shows "rb_list (buf[head := x]) (log_start (length buf) cnt' head') cnt' =
      last_n (length buf) (rb_list buf (log_start (length buf) cnt head) cnt @ [x]) \<and>
    log_indices_ok (length buf) cnt' head'"
proof (cases "cnt < length buf")
  case True
  with ok have head: "head = cnt" by (simp add: log_indices_ok_def)
  then have start: "log_start (length buf) cnt' head' = 0"
    using True cnt' head' by (auto simp: log_start_def mod_Suc)
  have "rb_list (buf[head := x]) 0 (Suc cnt) = rb_list buf 0 cnt @ [x]"
    using rb_list_push [OF True, of 0 x] True head by simp
  with True start cnt' head' head show ?thesis
    by (auto simp: last_n_short log_start_def log_indices_ok_def mod_Suc)
next
  case False
  with ok have full: "cnt = length buf" "head < length buf"
    by (auto simp: log_indices_ok_def)
  then have "0 < length buf" by linarith
  with full cnt' head' show ?thesis
    using rb_list_overwrite [OF full(2), of x]
    by (simp add: log_start_def log_indices_ok_def last_n_snoc_full)
qed

end
