(* ===== verification/Terminal.thy ===== *)
theory Terminal
  imports Ring_Buffer
begin

text \<open>
  The screen of \<^verbatim>\<open>kernel.c\<close>: a circular buffer of 200 lines that keeps what was printed, a view into it that
  can be scrolled, and the 80 by 25 cells of the VGA text buffer. Rows and columns are integers where the
  code checks them against their bounds.
\<close>

section \<open>Model\<close>

definition VGA_WIDTH :: nat where "VGA_WIDTH = 80"
definition VGA_HEIGHT :: nat where "VGA_HEIGHT = 25"
definition VGA_COLOR_DEFAULT :: u8 where "VGA_COLOR_DEFAULT = 0x0F"
definition VGA_COLOR_HEADER :: u8 where "VGA_COLOR_HEADER = 0x0F"
definition VGA_COLOR_TASKBAR :: u8 where "VGA_COLOR_TASKBAR = 0x0F"
definition SCROLLBACK_LINES :: nat where "SCROLLBACK_LINES = 200"
definition HEADER_LINES :: nat where "HEADER_LINES = 5"
definition VISIBLE_LINES :: nat where "VISIBLE_LINES = VGA_HEIGHT - HEADER_LINES"

record terminal =
  scrollback_buffer :: "char list list"
  scrollback_colors :: "u8 list"
  scrollback_head :: nat
  scrollback_count :: nat
  view_offset :: int
  term_col :: nat
  vga :: "u16 list"

text \<open>A \<open>char\<close> is signed: the conversion to 16 bits extends its sign.\<close>

definition vga_entry :: "char \<Rightarrow> u8 \<Rightarrow> u16" where
  "vga_entry c color = scast (of_char c :: u8) OR push_bit 8 (ucast color)"

definition vga_put_at :: "int \<Rightarrow> int \<Rightarrow> char \<Rightarrow> u8 \<Rightarrow> terminal \<Rightarrow> terminal" where
  "vga_put_at row col c color t =
     (if row \<ge> 0 \<and> row < int VGA_HEIGHT \<and> col \<ge> 0 \<and> col < int VGA_WIDTH
      then t\<lparr>vga := (vga t)[nat (row * int VGA_WIDTH + col) := vga_entry c color]\<rparr> else t)"

definition vga_clear_row :: "nat \<Rightarrow> u8 \<Rightarrow> terminal \<Rightarrow> terminal" where
  "vga_clear_row row color t =
     fold (\<lambda>x t. t\<lparr>vga := (vga t)[row * VGA_WIDTH + x := vga_entry CHR '' '' color]\<rparr>) [0..<VGA_WIDTH] t"

definition scrollback_init :: "terminal \<Rightarrow> terminal" where
  "scrollback_init t =
     t\<lparr>scrollback_buffer := map (\<lambda>i. map (\<lambda>j. NUL) [0..<VGA_WIDTH + 1]) [0..<SCROLLBACK_LINES],
       scrollback_colors := map (\<lambda>i. VGA_COLOR_DEFAULT) [0..<SCROLLBACK_LINES],
       scrollback_head := 0, scrollback_count := 0, view_offset := 0, term_col := 0\<rparr>"

definition set_char :: "nat \<Rightarrow> char \<Rightarrow> terminal \<Rightarrow> terminal" where
  "set_char col c t = t\<lparr>scrollback_buffer := (scrollback_buffer t)
     [scrollback_head t := (scrollback_buffer t ! scrollback_head t)[col := c]]\<rparr>"

definition scrollback_add_line :: "terminal \<Rightarrow> terminal" where
  "scrollback_add_line t =
     (let t = set_char (term_col t) NUL t;
          t = t\<lparr>scrollback_head := (scrollback_head t + 1) mod SCROLLBACK_LINES\<rparr>;
          t = (if scrollback_count t < SCROLLBACK_LINES then t\<lparr>scrollback_count := scrollback_count t + 1\<rparr> else t);
          t = fold (\<lambda>i. set_char i NUL) [0..<VGA_WIDTH + 1] t;
          t = t\<lparr>scrollback_colors := (scrollback_colors t)[scrollback_head t := VGA_COLOR_DEFAULT]\<rparr>
      in t\<lparr>term_col := 0, view_offset := 0\<rparr>)"

definition scrollback_putchar :: "char \<Rightarrow> u8 \<Rightarrow> terminal \<Rightarrow> terminal" where
  "scrollback_putchar c color t =
     (if term_col t < VGA_WIDTH then
        let t = set_char (term_col t) c t;
            t = t\<lparr>scrollback_colors := (scrollback_colors t)[scrollback_head t := color]\<rparr>
        in t\<lparr>term_col := term_col t + 1\<rparr>
      else t)"

definition scrollback_get_line_index :: "nat \<Rightarrow> terminal \<Rightarrow> int" where
  "scrollback_get_line_index display_line t =
     (if scrollback_count t = 0 then -1
      else
        let lines_from_end = (int VISIBLE_LINES - 1 - int display_line) + view_offset t in
        if lines_from_end \<ge> int (scrollback_count t) then -1
        else let idx = int (scrollback_head t) - lines_from_end in
          if idx < 0 then idx + int SCROLLBACK_LINES else idx)"

definition draw_line :: "nat \<Rightarrow> char list \<Rightarrow> u8 \<Rightarrow> terminal \<Rightarrow> terminal" where
  "draw_line row line color t =
     fold (\<lambda>col. vga_put_at (int row) (int col) (line ! col) color) [0..<length (cstr (take VGA_WIDTH line))] t"

definition draw_row :: "nat \<Rightarrow> terminal \<Rightarrow> terminal" where
  "draw_row row t =
     (let screen_row = HEADER_LINES + row;
          buf_idx = scrollback_get_line_index row t;
          t = vga_clear_row screen_row VGA_COLOR_DEFAULT t
      in if buf_idx \<ge> 0
         then draw_line screen_row (scrollback_buffer t ! nat buf_idx) (scrollback_colors t ! nat buf_idx) t else t)"

definition put_string :: "string \<Rightarrow> int \<Rightarrow> int \<Rightarrow> u8 \<Rightarrow> terminal \<Rightarrow> terminal" where
  "put_string s row col color t =
     fold (\<lambda>i. vga_put_at row (col + int i) (s ! i) color) [0..<length s] t"

definition draw_marks :: "terminal \<Rightarrow> terminal" where
  "draw_marks t =
     (let t = (if view_offset t = 0
               then vga_put_at (int (HEADER_LINES + VISIBLE_LINES) - 1) (int (term_col t)) CHR ''_'' 0x0F t else t);
          t = (if view_offset t > 0 then put_string ''^MORE'' (int HEADER_LINES) (int VGA_WIDTH - 6) 0x0F t else t)
      in if scrollback_count t > VISIBLE_LINES \<and> view_offset t < int (scrollback_count t) - int VISIBLE_LINES
         then put_string ''vMORE'' (int VGA_HEIGHT - 1) (int VGA_WIDTH - 6) 0x0F t else t)"

definition terminal_refresh_view :: "terminal \<Rightarrow> terminal" where
  "terminal_refresh_view t = draw_marks (fold draw_row [0..<VISIBLE_LINES] t)"

definition terminal_clear :: "terminal \<Rightarrow> terminal" where
  "terminal_clear t = fold (\<lambda>y. vga_clear_row y VGA_COLOR_DEFAULT) [0..<VGA_HEIGHT] (scrollback_init t)"

abbreviation backspace :: char where
  "backspace \<equiv> CHR 0x08"

definition terminal_putchar :: "char \<Rightarrow> terminal \<Rightarrow> terminal" where
  "terminal_putchar c t =
     (if c = newline then terminal_refresh_view (scrollback_add_line t)
      else if c = backspace then
        if term_col t > 0 then
          let t = t\<lparr>term_col := term_col t - 1\<rparr>; t = set_char (term_col t) NUL t in terminal_refresh_view t
        else t
      else
        let t = scrollback_putchar c VGA_COLOR_DEFAULT t;
            t = (if term_col t \<ge> VGA_WIDTH then scrollback_add_line t else t)
        in terminal_refresh_view t)"

definition terminal_write_at :: "char list \<Rightarrow> int \<Rightarrow> int \<Rightarrow> terminal \<Rightarrow> terminal" where
  "terminal_write_at str row col t = put_string (cstr str) row col VGA_COLOR_DEFAULT t"

definition max_offset :: "terminal \<Rightarrow> int" where
  "max_offset t =
     (let max_offset = int (scrollback_count t) - int VISIBLE_LINES in if max_offset < 0 then 0 else max_offset)"

definition terminal_scroll_up :: "int \<Rightarrow> terminal \<Rightarrow> terminal" where
  "terminal_scroll_up lines t =
     (let m = max_offset t;
          t = t\<lparr>view_offset := view_offset t + lines\<rparr>;
          t = (if view_offset t > m then t\<lparr>view_offset := m\<rparr> else t)
      in terminal_refresh_view t)"

definition terminal_scroll_down :: "int \<Rightarrow> terminal \<Rightarrow> terminal" where
  "terminal_scroll_down lines t =
     (let t = t\<lparr>view_offset := view_offset t - lines\<rparr>;
          t = (if view_offset t < 0 then t\<lparr>view_offset := 0\<rparr> else t)
      in terminal_refresh_view t)"

definition terminal_scroll_to_top :: "terminal \<Rightarrow> terminal" where
  "terminal_scroll_to_top t = terminal_refresh_view (t\<lparr>view_offset := max_offset t\<rparr>)"

definition terminal_scroll_to_bottom :: "terminal \<Rightarrow> terminal" where
  "terminal_scroll_to_bottom t = terminal_refresh_view (t\<lparr>view_offset := 0\<rparr>)"

definition terminal_get_view_offset :: "terminal \<Rightarrow> int" where
  "terminal_get_view_offset t = view_offset t"

definition terminal_get_total_lines :: "terminal \<Rightarrow> nat" where
  "terminal_get_total_lines t = scrollback_count t"

definition terminal_write_at_col :: "char list \<Rightarrow> int \<Rightarrow> int \<Rightarrow> u8 \<Rightarrow> terminal \<Rightarrow> terminal" where
  "terminal_write_at_col str row col color t = put_string (cstr str) row col color t"

definition terminal_write_dec :: "u32 \<Rightarrow> int \<Rightarrow> int \<Rightarrow> terminal \<Rightarrow> terminal" where
  "terminal_write_dec n row col t =
     (if n = 0 then
        let t = vga_put_at row col CHR ''0'' VGA_COLOR_DEFAULT t
        in vga_put_at row (col + 1) CHR '' '' VGA_COLOR_DEFAULT t
      else
        let buf = dec_loop 12 (unat n); i = length buf;
            t = fold (\<lambda>j. vga_put_at row (col + int j) (buf ! (i - 1 - j)) VGA_COLOR_DEFAULT) [0..<i] t
        in vga_put_at row (col + int i) CHR '' '' VGA_COLOR_DEFAULT t)"

definition fill_row :: "nat \<Rightarrow> char \<Rightarrow> u8 \<Rightarrow> terminal \<Rightarrow> terminal" where
  "fill_row row c color t = fold (\<lambda>x t. t\<lparr>vga := (vga t)[row * VGA_WIDTH + x := vga_entry c color]\<rparr>) [0..<VGA_WIDTH] t"

definition draw_header :: "terminal \<Rightarrow> terminal" where
  "draw_header t =
     (let t = fill_row 0 CHR '' '' VGA_COLOR_HEADER t;
          t = terminal_write_at_col ''  RTOS x86 v3.1  '' 0 0 VGA_COLOR_HEADER t;
          t = fill_row 1 CHR ''-'' VGA_COLOR_DEFAULT t;
          t = terminal_write_at_col ''Task A (Producer Sent) : '' 2 0 VGA_COLOR_TASKBAR t;
          t = terminal_write_at_col ''Task B (Consumer Recv) : '' 3 0 VGA_COLOR_TASKBAR t
      in fill_row 4 CHR ''-'' VGA_COLOR_DEFAULT t)"

section \<open>What the drawing leaves alone\<close>

definition same_text :: "terminal \<Rightarrow> terminal \<Rightarrow> bool" where
  "same_text t' t \<longleftrightarrow> t'\<lparr>vga := []\<rparr> = t\<lparr>vga := []\<rparr> \<and> length (vga t') = length (vga t)"

lemma same_text_fields:
  assumes "same_text t' t"
  shows "scrollback_buffer t' = scrollback_buffer t" "scrollback_colors t' = scrollback_colors t"
    "scrollback_head t' = scrollback_head t" "scrollback_count t' = scrollback_count t"
    "view_offset t' = view_offset t" "term_col t' = term_col t" "length (vga t') = length (vga t)"
  using assms by (cases t; cases t'; simp add: same_text_def)+

lemma same_text_refl [simp]: "same_text t t"
  by (simp add: same_text_def)

lemma same_text_trans: "same_text t3 t2 \<Longrightarrow> same_text t2 t1 \<Longrightarrow> same_text t3 t1"
  by (simp add: same_text_def)

lemma same_text_vga: "length v = length (vga t) \<Longrightarrow> same_text (t\<lparr>vga := v\<rparr>) t"
  by (simp add: same_text_def)

lemma same_text_fold: "(\<And>i t. same_text (f i t) t) \<Longrightarrow> same_text (fold f is t) t"
  by (induction "is" arbitrary: t) (auto intro: same_text_trans)

lemma same_text_put: "same_text (vga_put_at row col c color t) t"
  by (simp add: vga_put_at_def same_text_vga)

lemma same_text_fill: "same_text (fill_row row c color t) t"
  unfolding fill_row_def by (rule same_text_fold) (simp add: same_text_vga)

lemma clear_row_fill: "vga_clear_row row color = fill_row row CHR '' '' color"
  by (simp add: fun_eq_iff vga_clear_row_def fill_row_def)

lemma same_text_put_string: "same_text (put_string s row col color t) t"
  unfolding put_string_def by (rule same_text_fold) (rule same_text_put)

lemma same_text_draw_row: "same_text (draw_row row t) t"
  unfolding draw_row_def draw_line_def clear_row_fill
  by (auto simp: Let_def intro: same_text_trans [OF same_text_fold] same_text_put same_text_fill)

lemma same_text_marks: "same_text (draw_marks t) t"
proof -
  define t1 where "t1 = (if view_offset t = 0
    then vga_put_at (int (HEADER_LINES + VISIBLE_LINES) - 1) (int (term_col t)) CHR ''_'' 0x0F t else t)"
  define t2 where "t2 = (if view_offset t1 > 0 then put_string ''^MORE'' (int HEADER_LINES) (int VGA_WIDTH - 6) 0x0F t1 else t1)"
  have "same_text t1 t" "same_text t2 t1" by (simp_all add: t1_def t2_def same_text_put same_text_put_string)
  moreover have "same_text (draw_marks t) t2"
    unfolding draw_marks_def Let_def t1_def [symmetric] t2_def [symmetric] by (simp add: same_text_put_string)
  ultimately show ?thesis by (blast intro: same_text_trans)
qed

lemma same_text_refresh: "same_text (terminal_refresh_view t) t"
  unfolding terminal_refresh_view_def
  by (rule same_text_trans [OF same_text_marks same_text_fold]) (rule same_text_draw_row)

lemmas refresh_fields [simp] = same_text_fields [OF same_text_refresh]

section \<open>The text behind the screen\<close>

text \<open>\<open>line_back t k\<close> is the line \<open>k\<close> above the one being written; \<open>term_lines\<close> are those kept, oldest first.\<close>

definition line_back :: "terminal \<Rightarrow> nat \<Rightarrow> string" where
  "line_back t k = cstr (scrollback_buffer t ! ((scrollback_head t + SCROLLBACK_LINES - k) mod SCROLLBACK_LINES))"

definition kept :: "terminal \<Rightarrow> nat" where
  "kept t = min (scrollback_count t + 1) SCROLLBACK_LINES"

definition term_lines :: "terminal \<Rightarrow> string list" where
  "term_lines t = map (line_back t) (rev [0..<kept t])"

definition term_inv :: "terminal \<Rightarrow> bool" where
  "term_inv t \<longleftrightarrow> length (scrollback_buffer t) = 200 \<and> list_all (\<lambda>l. length l = 81 \<and> l ! 80 = NUL) (scrollback_buffer t) \<and>
     scrollback_colors t = replicate 200 VGA_COLOR_DEFAULT \<and> scrollback_head t < 200 \<and> scrollback_count t \<le> 200 \<and> term_col t < 80 \<and>
     (\<exists>l. NUL \<notin> set l \<and> length l = term_col t \<and>
        scrollback_buffer t ! scrollback_head t = l @ replicate (81 - term_col t) NUL) \<and>
     length (vga t) = 2000 \<and> 0 \<le> view_offset t \<and> view_offset t \<le> max_offset t"

lemmas term_consts = VGA_WIDTH_def VGA_HEIGHT_def SCROLLBACK_LINES_def HEADER_LINES_def VISIBLE_LINES_def

lemma replicate_update [simp]: "(replicate n x)[i := x] = replicate n x"
  by (cases "i < n") (simp_all add: list_update_same_conv list_update_beyond)

lemma term_lines_split:
  assumes "scrollback_head t < 200"
  shows "term_lines t = map (line_back t) (rev [1..<kept t]) @ [cstr (scrollback_buffer t ! scrollback_head t)]"
proof -
  have "[0..<kept t] = 0 # [1..<kept t]" by (subst upt_conv_Cons) (simp_all add: kept_def term_consts)
  with assms show ?thesis by (simp add: term_lines_def line_back_def term_consts)
qed

lemma cstr_padded: "NUL \<notin> set l \<Longrightarrow> cstr (l @ replicate (Suc n) NUL) = l"
  by (simp add: cstr_terminated)

lemma set_char_id: "scrollback_buffer t ! scrollback_head t ! col = c \<Longrightarrow> set_char col c t = t"
  by (simp add: set_char_def) (metis list_update_id terminal.surjective terminal.update_convs(1))

lemma other_line: "k < 200 \<Longrightarrow> 0 < k \<Longrightarrow> h < 200 \<Longrightarrow> (h + 200 - k) mod 200 \<noteq> (h :: nat)"
  by (cases "k \<le> h") (auto simp: mod_if)

text \<open>Writing in the current line changes only the last of the lines.\<close>

lemma term_lines_current:
  assumes "scrollback_head t < 200" and "length (scrollback_buffer t) = 200"
    and "scrollback_buffer t' = (scrollback_buffer t)[scrollback_head t := l]"
    and "scrollback_head t' = scrollback_head t" and "scrollback_count t' = scrollback_count t"
  shows "term_lines t' = butlast (term_lines t) @ [cstr l]"
proof -
  have "line_back t' k = line_back t k" if "1 \<le> k" "k < kept t" for k
  proof -
    have "k < 200" using that by (simp add: kept_def term_consts)
    then have "(scrollback_head t + 200 - k) mod 200 \<noteq> scrollback_head t" using that assms(1) other_line by simp
    with assms show ?thesis by (simp add: line_back_def term_consts)
  qed
  moreover have "kept t' = kept t" using assms by (simp add: kept_def)
  ultimately show ?thesis
    using assms by (simp add: term_lines_split)
qed

lemma fold_set_char:
  "fold (\<lambda>i. set_char i NUL) is t = t\<lparr>scrollback_buffer := (scrollback_buffer t)
     [scrollback_head t := fold (\<lambda>i l. l[i := NUL]) is (scrollback_buffer t ! scrollback_head t)]\<rparr>"
  if "scrollback_head t < length (scrollback_buffer t)"
  using that by (induction "is" arbitrary: t) (simp_all add: set_char_def)

lemma fold_clear_all: "fold (\<lambda>i l. l[i := x]) [0..<n] l = replicate n x @ drop n l" if "n \<le> length l"
  using that
proof (induction n)
  case (Suc n)
  then show ?case
    by (simp add: list_update_append Cons_nth_drop_Suc [symmetric] replicate_append_same)
qed simp

lemma rev_upt_Suc: "0 < n \<Longrightarrow> rev [0..<n] = map Suc (rev [0..<n - 1]) @ [0]"
  by (cases n) (simp_all add: upt_conv_Cons rev_map [symmetric] map_Suc_upt del: upt_Suc)

text \<open>Ending a line, from a state in which the current row is already terminated.\<close>

lemma add_line_state:
  assumes "scrollback_buffer t ! scrollback_head t ! term_col t = NUL"
    and "length (scrollback_buffer t) = 200" "list_all (\<lambda>l. length l = 81 \<and> l ! 80 = NUL) (scrollback_buffer t)"
  shows "scrollback_add_line t = t\<lparr>scrollback_head := (scrollback_head t + 1) mod 200,
    scrollback_count := min (scrollback_count t + 1) 200 + (scrollback_count t - 200),
    scrollback_buffer := (scrollback_buffer t)[(scrollback_head t + 1) mod 200 := replicate 81 NUL],
    scrollback_colors := (scrollback_colors t)[(scrollback_head t + 1) mod 200 := VGA_COLOR_DEFAULT],
    term_col := 0, view_offset := 0\<rparr>"
proof -
  let ?h = "(scrollback_head t + 1) mod 200"
  have len: "length (scrollback_buffer t ! ?h) = 81" using assms(2,3) by (simp add: list_all_length)
  have row: "fold (\<lambda>i l. l[i := NUL]) [0..<81] (scrollback_buffer t ! ?h) = replicate 81 NUL"
    by (subst fold_clear_all) (simp_all only: len order.refl drop_all append_Nil2)
  have n81: "[0..<VGA_WIDTH + 1] = [0..<81]" by (simp add: term_consts)
  define t1 where "t1 = (let t = t\<lparr>scrollback_head := ?h\<rparr> in
    if scrollback_count t < 200 then t\<lparr>scrollback_count := scrollback_count t + 1\<rparr> else t)"
  have t1: "scrollback_head t1 = ?h" "scrollback_buffer t1 = scrollback_buffer t"
    "scrollback_colors t1 = scrollback_colors t" by (simp_all add: t1_def Let_def)
  have "fold (\<lambda>i. set_char i NUL) [0..<81] t1 = t1\<lparr>scrollback_buffer := (scrollback_buffer t)[?h := replicate 81 NUL]\<rparr>"
    unfolding fold_set_char [of t1, unfolded t1 assms(2), OF mod_less_divisor, simplified] t1
    using row by (simp del: upt.simps upt_Suc)
  moreover have "scrollback_add_line t = (let t = fold (\<lambda>i. set_char i NUL) [0..<81] t1;
      t = t\<lparr>scrollback_colors := (scrollback_colors t)[scrollback_head t := VGA_COLOR_DEFAULT]\<rparr>
    in t\<lparr>term_col := 0, view_offset := 0\<rparr>)"
    unfolding scrollback_add_line_def set_char_id [OF assms(1)] n81 t1_def
    by (simp only: Let_def term_consts)
  ultimately show ?thesis
    using t1 by (simp add: Let_def t1_def)
qed

lemma term_lines_add:
  assumes inv: "length (scrollback_buffer t) = 200" "scrollback_head t < 200"
    and t': "scrollback_head t' = (scrollback_head t + 1) mod 200" "scrollback_count t' = min (scrollback_count t + 1) 200"
      "scrollback_buffer t' = (scrollback_buffer t)[(scrollback_head t + 1) mod 200 := replicate 81 NUL]"
  shows "term_lines t' = last_n 200 (term_lines t @ [[]])"
proof -
  let ?h = "scrollback_head t" and ?n = "kept t' - 1"
  have lb: "line_back t' (Suc k) = line_back t k" if "Suc k < 200" for k
  proof -
    have "((?h + 1) mod 200 + 200 - Suc k) mod 200 = (?h + 200 - k) mod 200"
      using inv(2) that by (cases "?h = 199") (auto simp: mod_if)
    moreover have "(?h + 200 - k) mod 200 \<noteq> (?h + 1) mod 200"
      using inv(2) that by (cases "k \<le> ?h") (auto simp: mod_if)
    ultimately show ?thesis using inv by (simp add: line_back_def t' term_consts)
  qed
  have zero: "line_back t' 0 = []"
    using inv by (simp add: line_back_def t' term_consts cstr_def)
  have n: "?n \<le> 199" "0 < kept t'" by (simp_all add: kept_def term_consts)
  have "term_lines t' = map (line_back t' \<circ> Suc) (rev [0..<?n]) @ [[]]"
    unfolding term_lines_def rev_upt_Suc [OF n(2)] using zero by simp
  also have "map (line_back t' \<circ> Suc) (rev [0..<?n]) = map (line_back t) (rev [0..<?n])"
    using lb n(1) by (intro map_cong) auto
  also have "\<dots> = last_n 199 (term_lines t)"
  proof -
    have "?n = kept t - (kept t - 199)" using t'(2) by (simp add: kept_def term_consts)
    then show ?thesis by (simp add: last_n_def term_lines_def drop_map drop_rev)
  qed
  finally show ?thesis by (simp add: last_n_def)
qed

section \<open>Printing refines appending to a list of lines\<close>

text \<open>What a character does to the lines on a screen of 80 columns that keeps 200 of them.\<close>

definition spec_putc :: "char \<Rightarrow> string list \<Rightarrow> string list" where
  "spec_putc c ls =
     (if c = newline then last_n 200 (ls @ [[]])
      else if c = backspace then butlast ls @ [butlast (last ls)]
      else let ls = butlast ls @ [last ls @ [c]] in
        if length (last ls) = 80 then last_n 200 (ls @ [[]]) else ls)"

lemma term_lines_refresh [simp]: "term_lines (terminal_refresh_view t) = term_lines t"
  by (simp add: term_lines_def kept_def line_back_def)

lemma term_inv_refresh [simp]: "term_inv (terminal_refresh_view t) = term_inv t"
  by (simp add: term_inv_def max_offset_def)

lemma term_lines_last:
  assumes "term_inv t"
  obtains l where "NUL \<notin> set l" "length l = term_col t" "last (term_lines t) = l"
    "scrollback_buffer t ! scrollback_head t = l @ replicate (81 - term_col t) NUL"
proof -
  from assms obtain l where l: "NUL \<notin> set l" "length l = term_col t"
    "scrollback_buffer t ! scrollback_head t = l @ replicate (81 - term_col t) NUL"
    and h: "scrollback_head t < 200" "term_col t < 80"
    by (auto simp: term_inv_def)
  obtain n where "81 - term_col t = Suc n" using h(2) by (cases "81 - term_col t") auto
  with l cstr_padded have "cstr (scrollback_buffer t ! scrollback_head t) = l" by simp
  then have "last (term_lines t) = l" using h by (simp add: term_lines_split)
  with that l show ?thesis by blast
qed

lemma add_line_inv:
  assumes "scrollback_buffer t ! scrollback_head t ! term_col t = NUL" "length (scrollback_buffer t) = 200"
    and "list_all (\<lambda>l. length l = 81 \<and> l ! 80 = NUL) (scrollback_buffer t)" "scrollback_head t < 200"
    and "scrollback_colors t = replicate 200 VGA_COLOR_DEFAULT" "scrollback_count t \<le> 200" "length (vga t) = 2000"
  shows "term_inv (scrollback_add_line t)" and "term_lines (scrollback_add_line t) = last_n 200 (term_lines t @ [[]])"
proof -
  have st: "scrollback_add_line t = t\<lparr>scrollback_head := (scrollback_head t + 1) mod 200,
    scrollback_count := min (scrollback_count t + 1) 200,
    scrollback_buffer := (scrollback_buffer t)[(scrollback_head t + 1) mod 200 := replicate 81 NUL],
    scrollback_colors := (scrollback_colors t)[(scrollback_head t + 1) mod 200 := VGA_COLOR_DEFAULT],
    term_col := 0, view_offset := 0\<rparr>"
    using add_line_state [OF assms(1-3)] assms(6) by simp
  have "list_all (\<lambda>l. length l = 81 \<and> l ! 80 = NUL) ((scrollback_buffer t)[i := replicate 81 NUL])" for i
    using assms(3) set_update_subset_insert [of "scrollback_buffer t"] by (fastforce simp: list_all_iff)
  then show "term_inv (scrollback_add_line t)"
    using assms unfolding st by (simp add: term_inv_def max_offset_def Let_def)
  show "term_lines (scrollback_add_line t) = last_n 200 (term_lines t @ [[]])"
    unfolding st by (rule term_lines_add) (use assms in simp_all)
qed

text \<open>Writing a character at column \<open>col\<close> of the current line, where \<open>col\<close> is the next free one or the last used.\<close>

lemma write_current:
  assumes inv: "term_inv t" and l: "NUL \<notin> set l" "length l = n" "n \<le> 80"
    and row: "(scrollback_buffer t ! scrollback_head t)[col := c] = l @ replicate (81 - n) NUL"
  shows "term_lines (set_char col c t) = butlast (term_lines t) @ [l]"
    and "list_all (\<lambda>l. length l = 81 \<and> l ! 80 = NUL) (scrollback_buffer (set_char col c t))"
proof -
  have h: "scrollback_head t < 200" "length (scrollback_buffer t) = 200"
    "list_all (\<lambda>l. length l = 81 \<and> l ! 80 = NUL) (scrollback_buffer t)"
    using inv by (simp_all add: term_inv_def)
  obtain k where k: "81 - n = Suc k" using l(3) by (cases "81 - n") auto
  have "cstr (l @ replicate (81 - n) NUL) = l" unfolding k by (rule cstr_padded) fact
  then show "term_lines (set_char col c t) = butlast (term_lines t) @ [l]"
    using term_lines_current [of t "set_char col c t" "l @ replicate (81 - n) NUL"] h row
    by (simp add: set_char_def)
  have "length (l @ replicate (81 - n) NUL) = 81 \<and> (l @ replicate (81 - n) NUL) ! 80 = NUL"
    using l by (auto simp: nth_append)
  then show "list_all (\<lambda>l. length l = 81 \<and> l ! 80 = NUL) (scrollback_buffer (set_char col c t))"
    using h row by (auto simp: set_char_def list_all_length nth_list_update)
qed

lemma write_current_inv:
  assumes inv: "term_inv t" and l: "NUL \<notin> set l" "length l = n" "n < 80"
    and row: "(scrollback_buffer t ! scrollback_head t)[col := c] = l @ replicate (81 - n) NUL"
    and cols: "cs = replicate 200 VGA_COLOR_DEFAULT"
  shows "term_inv (set_char col c t\<lparr>term_col := n, scrollback_colors := cs\<rparr>)"
proof -
  have h: "scrollback_head t < 200" "length (scrollback_buffer t) = 200" using inv by (simp_all add: term_inv_def)
  have "scrollback_buffer (set_char col c t) ! scrollback_head t = l @ replicate (81 - n) NUL"
    using h row by (simp add: set_char_def)
  with write_current(2) [OF inv l(1,2) _ row] inv l cols show ?thesis
    by (auto simp: term_inv_def set_char_def max_offset_def)
qed

lemma newline_refines:
  assumes "term_inv t"
  shows "term_inv (scrollback_add_line t)" "term_lines (scrollback_add_line t) = last_n 200 (term_lines t @ [[]])"
proof -
  obtain l where l: "length l = term_col t"
    "scrollback_buffer t ! scrollback_head t = l @ replicate (81 - term_col t) NUL"
    using term_lines_last [OF assms] by metis
  have c: "term_col t < 80" using assms by (simp add: term_inv_def)
  have "scrollback_buffer t ! scrollback_head t ! term_col t = NUL"
    unfolding l(2) using l(1) c by (simp add: nth_append)
  note add_line_inv [OF this]
  with assms show "term_inv (scrollback_add_line t)" "term_lines (scrollback_add_line t) = last_n 200 (term_lines t @ [[]])"
    by (simp_all add: term_inv_def)
qed

lemma backspace_refines:
  assumes inv: "term_inv t" and pos: "term_col t > 0"
  shows "term_inv (set_char (term_col t - 1) NUL (t\<lparr>term_col := term_col t - 1\<rparr>))"
    and "term_lines (set_char (term_col t - 1) NUL (t\<lparr>term_col := term_col t - 1\<rparr>)) =
      butlast (term_lines t) @ [butlast (last (term_lines t))]"
proof -
  obtain l where l: "NUL \<notin> set l" "length l = term_col t" "last (term_lines t) = l"
    "scrollback_buffer t ! scrollback_head t = l @ replicate (81 - term_col t) NUL"
    using term_lines_last [OF inv] .
  let ?n = "term_col t - 1"
  have c: "term_col t < 80" using inv by (simp add: term_inv_def)
  obtain l' x where lx: "l = l' @ [x]" "length l' = ?n" using l(2) pos by (cases l rule: rev_cases) auto
  have "81 - ?n = Suc (81 - term_col t)" using pos c by simp
  then have row: "(scrollback_buffer t ! scrollback_head t)[?n := NUL] = butlast l @ replicate (81 - ?n) NUL"
    unfolding l(4) lx using lx(2) by (simp add: list_update_append)
  have nl: "NUL \<notin> set (butlast l)" "length (butlast l) = ?n" using l(1) lx by simp_all
  have eq: "set_char ?n NUL (t\<lparr>term_col := ?n\<rparr>) = set_char ?n NUL t\<lparr>term_col := ?n, scrollback_colors := scrollback_colors t\<rparr>"
    by (simp add: set_char_def)
  show "term_inv (set_char ?n NUL (t\<lparr>term_col := ?n\<rparr>))"
    unfolding eq using write_current_inv [OF inv nl _ row, of "scrollback_colors t"] c inv by (simp add: term_inv_def)
  have "term_lines (set_char ?n NUL (t\<lparr>term_col := ?n\<rparr>)) = term_lines (set_char ?n NUL t)"
    by (simp add: set_char_def term_lines_def kept_def line_back_def)
  with write_current(1) [OF inv nl _ row] c l(3) show
    "term_lines (set_char ?n NUL (t\<lparr>term_col := ?n\<rparr>)) = butlast (term_lines t) @ [butlast (last (term_lines t))]"
    by simp
qed

lemma plain_refines:
  assumes inv: "term_inv t" and c: "c \<noteq> NUL"
  defines "t' \<equiv> scrollback_putchar c VGA_COLOR_DEFAULT t"
  defines "t'' \<equiv> (if term_col t' \<ge> VGA_WIDTH then scrollback_add_line t' else t')"
  shows "term_inv t'' \<and> term_lines t'' = (let ls = butlast (term_lines t) @ [last (term_lines t) @ [c]] in
        if length (last ls) = 80 then last_n 200 (ls @ [[]]) else ls)"
proof -
  obtain l where l: "NUL \<notin> set l" "length l = term_col t" "last (term_lines t) = l"
    "scrollback_buffer t ! scrollback_head t = l @ replicate (81 - term_col t) NUL"
    using term_lines_last [OF inv] .
  let ?n = "term_col t + 1" and ?l = "l @ [c]"
  have col: "term_col t < 80" using inv by (simp add: term_inv_def)
  obtain k where k: "81 - term_col t = Suc k" "81 - ?n = k" using col by (cases "81 - term_col t") auto
  have row: "(scrollback_buffer t ! scrollback_head t)[term_col t := c] = ?l @ replicate (81 - ?n) NUL"
    unfolding l(4) k using l(2) by (simp add: list_update_append)
  have nl: "NUL \<notin> set ?l" "length ?l = ?n" using l c by auto
  let ?cs = "(scrollback_colors t)[scrollback_head t := VGA_COLOR_DEFAULT]"
  have t': "t' = set_char (term_col t) c t\<lparr>term_col := ?n, scrollback_colors := ?cs\<rparr>"
    using col by (simp add: t'_def scrollback_putchar_def Let_def set_char_def term_consts)
  have lines: "term_lines t' = butlast (term_lines t) @ [?l]"
  proof -
    have "term_lines t' = term_lines (set_char (term_col t) c t)"
      by (simp add: t' set_char_def term_lines_def kept_def line_back_def)
    then show ?thesis using write_current(1) [OF inv nl _ row] col by simp
  qed
  show ?thesis
  proof (cases "?n = 80")
    case False
    with col have "term_inv t'"
      unfolding t' using write_current_inv [OF inv nl _ row, of ?cs] inv by (simp add: term_inv_def)
    with False col lines nl l(3) show ?thesis by (simp add: t''_def t' term_consts set_char_def)
  next
    case True
    have t'': "t'' = scrollback_add_line t'" using True by (simp add: t''_def t' term_consts set_char_def)
    have inv': "length (scrollback_buffer t') = 200" "scrollback_head t' < 200" "scrollback_colors t' = replicate 200 VGA_COLOR_DEFAULT"
      "scrollback_count t' \<le> 200" "length (vga t') = 2000" using inv by (simp_all add: t' set_char_def term_inv_def)
    have rows: "list_all (\<lambda>l. length l = 81 \<and> l ! 80 = NUL) (scrollback_buffer t')"
      using write_current(2) [OF inv nl _ row] col by (simp add: t')
    then have "scrollback_buffer t' ! scrollback_head t' ! term_col t' = NUL"
      using inv' True by (simp add: t' list_all_length)
    from add_line_inv [OF this inv'(1) rows inv'(2-5)] show ?thesis
      unfolding t'' lines using True nl l(3) by simp
  qed
qed

lemma putchar_refines:
  assumes "term_inv t" and "c \<noteq> NUL"
  shows "term_inv (terminal_putchar c t) \<and> term_lines (terminal_putchar c t) = spec_putc c (term_lines t)"
proof -
  consider "c = newline" | "c = backspace" "term_col t > 0" | "c = backspace" "term_col t = 0" | "c \<noteq> newline" "c \<noteq> backspace"
    by (cases "term_col t") auto
  then show ?thesis
  proof cases
    case 1
    with newline_refines [OF assms(1)] show ?thesis by (simp add: terminal_putchar_def spec_putc_def)
  next
    case 2
    with backspace_refines [OF assms(1)] show ?thesis by (simp add: terminal_putchar_def spec_putc_def Let_def)
  next
    case 3
    obtain l where "length l = term_col t" "last (term_lines t) = l" using term_lines_last [OF assms(1)] by metis
    with 3 assms(1) show ?thesis
      by (simp add: terminal_putchar_def spec_putc_def term_lines_split term_inv_def)
  next
    case 4
    with plain_refines [OF assms] show ?thesis by (simp add: terminal_putchar_def spec_putc_def Let_def)
  qed
qed

text \<open>
  The interface of a line printer: one operation that keeps an invariant and changes a list of lines as \<open>spec_putc\<close>
  does. Printing strings follows from it.
\<close>

locale line_printer = simulation putc spec_putc lines_of inv "\<lambda>c. c \<noteq> NUL"
  for putc :: "char \<Rightarrow> 's \<Rightarrow> 's" and lines_of :: "'s \<Rightarrow> string list" and inv :: "'s \<Rightarrow> bool"
begin

lemma print_refines:
  assumes "inv s" and "NUL \<notin> set str"
  shows "inv (fold putc str s) \<and> lines_of (fold putc str s) = fold spec_putc str (lines_of s)"
proof -
  have "list_all (\<lambda>c. c \<noteq> NUL) str" using assms(2) by (auto simp: list_all_iff)
  with assms(1) show ?thesis by (rule run_simulates)
qed

end

interpretation screen: line_printer terminal_putchar term_lines term_inv
  by unfold_locales (rule putchar_refines)

section \<open>The cells of the screen\<close>

definition cell :: "terminal \<Rightarrow> nat \<Rightarrow> nat \<Rightarrow> u16" where
  "cell t i j = vga t ! (i * 80 + j)"

lemma cell_index:
  assumes "j < 80" "j' < (80 :: nat)"
  shows "i * 80 + j = i' * 80 + j' \<longleftrightarrow> i = i' \<and> j = j'"
proof -
  have "(i * 80 + j) div 80 = i" "(i' * 80 + j') div 80 = i'" using assms by simp_all
  then show ?thesis by (metis add_left_cancel)
qed

lemma cell_put:
  assumes "length (vga t) = 2000" "i < 25" "j < 80"
  shows "cell (vga_put_at row col c color t) i j =
    (if row = int i \<and> col = int j then vga_entry c color else cell t i j)"
proof (cases "row \<ge> 0 \<and> row < 25 \<and> col \<ge> 0 \<and> col < 80")
  case True
  then obtain r d where rd: "row = int r" "col = int d" "r < 25" "d < 80"
    by (metis nonneg_int_cases of_nat_less_iff of_nat_numeral)
  then have idx: "nat (row * 80 + col) = r * 80 + d" by (metis nat_int of_nat_add of_nat_mult of_nat_numeral)
  have "r * 80 + d < 2000" using rd by simp
  with True assms rd cell_index [of j d i r] show ?thesis
    by (auto simp: cell_def vga_put_at_def term_consts idx nth_list_update)
next
  case False
  with assms show ?thesis by (auto simp: cell_def vga_put_at_def term_consts)
qed

lemma cell_put_string:
  assumes "length (vga t) = 2000" "i < 25" "j < 80"
  shows "cell (put_string s row col color t) i j =
    (if row = int i \<and> col \<le> int j \<and> int j < col + int (length s) then vga_entry (s ! nat (int j - col)) color else cell t i j)"
proof -
  let ?f = "\<lambda>i. vga_put_at row (col + int i) (s ! i) color"
  have "length (vga (fold ?f [0..<n] t)) = 2000 \<and> cell (fold ?f [0..<n] t) i j =
      (if row = int i \<and> col \<le> int j \<and> int j < col + int n then vga_entry (s ! nat (int j - col)) color else cell t i j)" for n
  proof (induction n)
    case 0
    then show ?case using assms by auto
  next
    case (Suc n)
    have len: "length (vga (?f n (fold ?f [0..<n] t))) = 2000"
      using same_text_fields(7) [OF same_text_put] Suc by simp
    have "nat (int j - col) = n" if "col + int n = int j" using that by simp
    with Suc len assms show ?case by (auto simp: cell_put)
  qed
  then show ?thesis by (simp add: put_string_def)
qed

lemma cell_fill:
  assumes "length (vga t) = 2000" "i < 25" "j < 80" "r < 25"
  shows "cell (fill_row r c color t) i j = (if i = r then vga_entry c color else cell t i j)"
proof -
  let ?f = "\<lambda>x t. t\<lparr>vga := (vga t)[r * 80 + x := vga_entry c color]\<rparr>"
  have "length (vga (fold ?f [0..<n] t)) = 2000 \<and>
      cell (fold ?f [0..<n] t) i j = (if i = r \<and> j < n then vga_entry c color else cell t i j)" if "n \<le> 80" for n
    using that
  proof (induction n)
    case 0
    then show ?case using assms by simp
  next
    case (Suc n)
    then have "i * 80 + j = r * 80 + n \<longleftrightarrow> i = r \<and> j = n" using assms by (intro cell_index) auto
    moreover have "r * 80 + n < 2000" using Suc.prems assms by simp
    ultimately show ?case using Suc by (auto simp: cell_def nth_list_update)
  qed
  from this [of 80] assms show ?thesis by (simp add: fill_row_def term_consts)
qed

lemma draw_line_put_string: "draw_line row line color = put_string (cstr (take VGA_WIDTH line)) (int row) 0 color"
proof -
  let ?s = "cstr (take VGA_WIDTH line)"
  have "?s ! i = line ! i" if "i < length ?s" for i
  proof -
    have "i < length (take VGA_WIDTH line)" using that length_cstr_le [of "take VGA_WIDTH line"] by simp
    with that show ?thesis unfolding cstr_def by (simp add: takeWhile_nth)
  qed
  then show ?thesis
    by (intro ext) (auto simp: draw_line_def put_string_def intro!: fold_cong)
qed

text \<open>The text in row \<open>r\<close> of the view.\<close>

definition shown :: "terminal \<Rightarrow> nat \<Rightarrow> string" where
  "shown t r =
     (let k = 19 - r + nat (view_offset t) in if k < scrollback_count t then rev (term_lines t) ! k else [])"

lemma back_index:
  assumes "k < 200" "h < (200 :: nat)"
  shows "int ((h + 200 - k) mod 200) = (if int h - int k < 0 then int h - int k + 200 else int h - int k)"
  using assms by (cases "k \<le> h") (auto simp: mod_if)

lemma cstr_snoc_NUL: "cstr (l @ [NUL]) = cstr l"
  by (induction l) auto

lemma line_index:
  assumes inv: "term_inv t" and r: "r < 20"
  shows "let k = 19 - r + nat (view_offset t); idx = scrollback_get_line_index r t in
    if k < scrollback_count t then idx = int ((scrollback_head t + 200 - k) mod 200) else idx = -1"
proof -
  let ?k = "19 - r + nat (view_offset t)"
  have h: "scrollback_head t < 200" "scrollback_count t \<le> 200" "0 \<le> view_offset t" using inv by (auto simp: term_inv_def)
  have k: "(int VISIBLE_LINES - 1 - int r) + view_offset t = int ?k" using r h(3) by (simp add: term_consts of_nat_diff)
  have "int ((scrollback_head t + 200 - ?k) mod 200) =
      (if int (scrollback_head t) - int ?k < 0 then int (scrollback_head t) - int ?k + 200 else int (scrollback_head t) - int ?k)"
    if "?k < scrollback_count t"
    using that h by (intro back_index) auto
  then show ?thesis
    unfolding scrollback_get_line_index_def k Let_def by (auto simp: term_consts)
qed

lemma shown_row:
  assumes inv: "term_inv t" and r: "r < 20"
  shows "shown t r = (let idx = scrollback_get_line_index r t in
    if idx \<ge> 0 then cstr (take VGA_WIDTH (scrollback_buffer t ! nat idx)) else [])"
    and "scrollback_get_line_index r t \<ge> 0 \<Longrightarrow> scrollback_colors t ! nat (scrollback_get_line_index r t) = VGA_COLOR_DEFAULT"
proof -
  let ?k = "19 - r + nat (view_offset t)" and ?i = "(scrollback_head t + 200 - (19 - r + nat (view_offset t))) mod 200"
  have h: "length (scrollback_buffer t) = 200" "list_all (\<lambda>l. length l = 81 \<and> l ! 80 = NUL) (scrollback_buffer t)"
    "scrollback_colors t = replicate 200 VGA_COLOR_DEFAULT" "scrollback_count t \<le> 200" using inv by (auto simp: term_inv_def)
  then have row: "length (scrollback_buffer t ! ?i) = 81" "scrollback_buffer t ! ?i ! 80 = NUL"
    by (simp_all add: list_all_length)
  then have "scrollback_buffer t ! ?i = take 80 (scrollback_buffer t ! ?i) @ [NUL]"
    using take_Suc_conv_app_nth [of 80 "scrollback_buffer t ! ?i"] by simp
  then have "cstr (scrollback_buffer t ! ?i) = cstr (take 80 (scrollback_buffer t ! ?i))"
    using cstr_snoc_NUL by metis
  moreover have "rev (term_lines t) ! ?k = line_back t ?k" if "?k < scrollback_count t"
  proof -
    have "?k < kept t" using that h(4) by (simp add: kept_def term_consts)
    then show ?thesis by (simp add: term_lines_def rev_map [symmetric])
  qed
  ultimately show "shown t r = (let idx = scrollback_get_line_index r t in
    if idx \<ge> 0 then cstr (take VGA_WIDTH (scrollback_buffer t ! nat idx)) else [])"
    using line_index [OF assms] by (auto simp: shown_def Let_def line_back_def term_consts split: if_splits)
  show "scrollback_get_line_index r t \<ge> 0 \<Longrightarrow> scrollback_colors t ! nat (scrollback_get_line_index r t) = VGA_COLOR_DEFAULT"
    using line_index [OF assms] h(3) by (auto simp: Let_def split: if_splits)
qed

lemma cell_draw_row:
  assumes inv: "term_inv t" and r: "r < 20" and ij: "i < 25" "j < 80"
  shows "cell (draw_row r t) i j = (if i = 5 + r then
    vga_entry (if j < length (shown t r) then shown t r ! j else CHR '' '') VGA_COLOR_DEFAULT else cell t i j)"
proof -
  let ?t = "fill_row (5 + r) CHR '' '' VGA_COLOR_DEFAULT t" and ?idx = "scrollback_get_line_index r t"
  have len: "length (vga t) = 2000" using inv by (simp add: term_inv_def)
  have f: "scrollback_buffer ?t = scrollback_buffer t" "scrollback_colors ?t = scrollback_colors t" "length (vga ?t) = 2000"
    using same_text_fields [OF same_text_fill] len by simp_all
  have row: "draw_row r t = (if ?idx \<ge> 0 then put_string (shown t r) (int (5 + r)) 0 VGA_COLOR_DEFAULT ?t else ?t)"
    unfolding draw_row_def Let_def clear_row_fill draw_line_put_string
    using shown_row [OF inv r] f by (simp add: HEADER_LINES_def Let_def)
  have "shown t r = []" if "\<not> ?idx \<ge> 0" using shown_row(1) [OF inv r] that by (simp add: Let_def)
  then show ?thesis
    unfolding row using f(3) ij r len by (auto simp: cell_put_string cell_fill)
qed

lemma term_lines_cong:
  assumes "same_text t' t"
  shows "term_lines t' = term_lines t"
proof -
  have "line_back t' = line_back t" by (rule ext) (simp add: line_back_def same_text_fields [OF assms])
  then show ?thesis by (simp add: term_lines_def kept_def same_text_fields [OF assms])
qed

lemma shown_cong: "same_text t' t \<Longrightarrow> shown t' r = shown t r"
  using same_text_fields [of t' t] term_lines_cong [of t' t] by (simp add: shown_def Let_def)

lemma term_inv_cong: "same_text t' t \<Longrightarrow> term_inv t' = term_inv t"
  using same_text_fields [of t' t] by (simp add: term_inv_def max_offset_def)

lemma cell_rows:
  assumes inv: "term_inv t" and ij: "i < 25" "j < 80" and n: "n \<le> 20"
  shows "cell (fold draw_row [0..<n] t) i j = (if 5 \<le> i \<and> i < 5 + n then
    vga_entry (if j < length (shown t (i - 5)) then shown t (i - 5) ! j else CHR '' '') VGA_COLOR_DEFAULT else cell t i j)"
  using n
proof (induction n)
  case 0
  then show ?case by auto
next
  case (Suc n)
  let ?t = "fold draw_row [0..<n] t"
  have st: "same_text ?t t" by (rule same_text_fold) (rule same_text_draw_row)
  have "cell (draw_row n ?t) i j = (if i = 5 + n then
    vga_entry (if j < length (shown ?t n) then shown ?t n ! j else CHR '' '') VGA_COLOR_DEFAULT else cell ?t i j)"
    using Suc.prems ij inv term_inv_cong [OF st] by (intro cell_draw_row) auto
  then show ?case using Suc shown_cong [OF st] by auto
qed

text \<open>What is drawn on top of the text: the cursor and the two marks.\<close>

definition overlay :: "terminal \<Rightarrow> nat \<Rightarrow> nat \<Rightarrow> char option" where
  "overlay t i j =
     (if i = 24 \<and> 74 \<le> j \<and> j < 79 \<and> scrollback_count t > 20 \<and> view_offset t < int (scrollback_count t) - 20
      then Some (''vMORE'' ! (j - 74))
      else if i = 5 \<and> 74 \<le> j \<and> j < 79 \<and> view_offset t > 0 then Some (''^MORE'' ! (j - 74))
      else if i = 24 \<and> j = term_col t \<and> view_offset t = 0 then Some CHR ''_''
      else None)"

lemma cell_marks:
  assumes len: "length (vga t) = 2000" and ij: "i < 25" "j < 80"
  shows "cell (draw_marks t) i j = (case overlay t i j of Some c \<Rightarrow> vga_entry c 0x0F | None \<Rightarrow> cell t i j)"
proof -
  define t1 where "t1 = (if view_offset t = 0
    then vga_put_at (int (HEADER_LINES + VISIBLE_LINES) - 1) (int (term_col t)) CHR ''_'' 0x0F t else t)"
  define t2 where "t2 = (if view_offset t1 > 0 then put_string ''^MORE'' (int HEADER_LINES) (int VGA_WIDTH - 6) 0x0F t1 else t1)"
  have st: "same_text t1 t" "same_text t2 t1" by (simp_all add: t1_def t2_def same_text_put same_text_put_string)
  note f = same_text_fields [OF st(1)] same_text_fields [OF same_text_trans [OF st(2,1)]]
  have d: "draw_marks t = (if scrollback_count t > VISIBLE_LINES \<and> view_offset t < int (scrollback_count t) - int VISIBLE_LINES
       then put_string ''vMORE'' (int VGA_HEIGHT - 1) (int VGA_WIDTH - 6) 0x0F t2 else t2)"
    unfolding draw_marks_def Let_def t1_def [symmetric] t2_def [symmetric] using f by simp
  have l: "length (vga t1) = 2000" "length (vga t2) = 2000" using f len by simp_all
  have j: "nat (int j - 74) = j - 74" by simp
  have c1: "cell t1 i j = (if view_offset t = 0 \<and> i = 24 \<and> j = term_col t then vga_entry CHR ''_'' 0x0F else cell t i j)"
    using len ij by (auto simp: t1_def cell_put term_consts)
  have c2: "cell t2 i j = (if view_offset t > 0 \<and> i = 5 \<and> 74 \<le> j \<and> j < 79 then vga_entry (''^MORE'' ! (j - 74)) 0x0F else cell t1 i j)"
    using l ij f(5) by (auto simp: t2_def cell_put_string term_consts j)
  have "cell (draw_marks t) i j = (if i = 24 \<and> 74 \<le> j \<and> j < 79 \<and> scrollback_count t > 20 \<and> view_offset t < int (scrollback_count t) - 20
      then vga_entry (''vMORE'' ! (j - 74)) 0x0F else cell t2 i j)"
    unfolding d using l ij by (auto simp: cell_put_string term_consts j)
  then show ?thesis unfolding c1 c2 overlay_def by auto
qed

section \<open>Properties\<close>

text \<open>
  C32. What is on the screen after a redraw: rows 5 to 24 show the lines of the scrollback, the one being written at
  the bottom when the view is not scrolled and \<open>view_offset\<close> lines further up otherwise, filled with blanks, white
  on black; over them the cursor (view at the bottom), \<open>^MORE\<close> in the first row when lines below are hidden and
  \<open>vMORE\<close> in the last row when lines above are. The five rows of the header stay as they are.
\<close>

theorem screen_shows_lines:
  assumes "term_inv t" and "i < 25" and "j < 80"
  shows "vga (terminal_refresh_view t) ! (i * 80 + j) =
    (if i < 5 then vga t ! (i * 80 + j)
     else let line = shown t (i - 5) in
       vga_entry (case overlay t i j of Some c \<Rightarrow> c | None \<Rightarrow> if j < length line then line ! j else CHR '' '') 0x0F)"
proof -
  let ?t = "fold draw_row [0..<20] t"
  have v: "terminal_refresh_view t = draw_marks ?t" by (simp add: terminal_refresh_view_def term_consts)
  have st: "same_text ?t t" by (rule same_text_fold) (rule same_text_draw_row)
  note f = same_text_fields [OF st]
  have "length (vga ?t) = 2000" using f assms(1) by (simp add: term_inv_def)
  from cell_marks [OF this assms(2,3)] have "cell (terminal_refresh_view t) i j =
      (case overlay t i j of Some c \<Rightarrow> vga_entry c 0x0F | None \<Rightarrow> cell ?t i j)"
    unfolding v overlay_def f by simp
  moreover have "overlay t i j = None" if "i < 5" using that by (auto simp: overlay_def)
  ultimately show ?thesis
    using cell_rows [OF assms, of 20] assms(2) by (auto simp: cell_def Let_def VGA_COLOR_DEFAULT_def split: option.splits)
qed

lemma terminal_clear_text:
  assumes "length (vga t) = 2000"
  shows "term_inv (terminal_clear t)" "term_lines (terminal_clear t) = [[]]"
proof -
  have st: "same_text (terminal_clear t) (scrollback_init t)"
    unfolding terminal_clear_def clear_row_fill by (rule same_text_fold) (rule same_text_fill)
  have row: "map (\<lambda>j. NUL) [0..<VGA_WIDTH + 1] = replicate 81 NUL"
    by (simp add: map_replicate_const VGA_WIDTH_def del: upt.simps replicate.simps)
  have b: "scrollback_buffer (scrollback_init t) = replicate 200 (replicate 81 NUL)"
    unfolding scrollback_init_def row
    by (simp add: map_replicate_const SCROLLBACK_LINES_def del: upt.simps replicate.simps)
  have c: "scrollback_colors (scrollback_init t) = replicate 200 VGA_COLOR_DEFAULT"
    by (simp add: scrollback_init_def map_replicate_const SCROLLBACK_LINES_def del: upt.simps replicate.simps)
  have "term_inv (scrollback_init t)"
    unfolding term_inv_def b c using assms
    by (simp add: scrollback_init_def max_offset_def term_consts list_all_length del: replicate.simps)
  then show "term_inv (terminal_clear t)" by (simp add: term_inv_cong [OF st])
  have "cstr (replicate 81 NUL) = []" by (simp add: cstr_def)
  then show "term_lines (terminal_clear t) = [[]]"
    unfolding term_lines_cong [OF st]
    by (subst term_lines_split) (simp_all add: b [unfolded scrollback_init_def] scrollback_init_def kept_def term_consts
        map_replicate_const del: upt.simps replicate.simps)
qed

text \<open>
  C31. Printing, from a cleared screen whose buffer held anything: the lines kept behind the screen are exactly those
  of the text, with lines broken after 80 columns, backspace taking back the last character of the current line and
  only the last 200 lines remembered.
\<close>

theorem terminal_prints:
  assumes "length (vga t) = 2000" and "NUL \<notin> set str"
  shows "term_lines (fold terminal_putchar str (terminal_clear t)) = fold spec_putc str [[]] \<and>
    term_inv (fold terminal_putchar str (terminal_clear t))"
  using screen.print_refines [OF terminal_clear_text(1) assms(2)] terminal_clear_text assms(1) by simp

text \<open>
  Scrolling: every scroll operation leaves the text alone, keeps the view between the bottom and the highest
  position that still fills the screen, and moves it by exactly the requested number of lines within these bounds.
\<close>

theorem scrolling_bounded:
  assumes "term_inv t" and "n \<ge> 0"
  shows "view_offset (terminal_scroll_up n t) = min (view_offset t + n) (max_offset t) \<and>
    view_offset (terminal_scroll_down n t) = max (view_offset t - n) 0 \<and>
    view_offset (terminal_scroll_to_top t) = max_offset t \<and> view_offset (terminal_scroll_to_bottom t) = 0 \<and>
    (\<forall>t'\<in>{terminal_scroll_up n t, terminal_scroll_down n t, terminal_scroll_to_top t, terminal_scroll_to_bottom t}.
       term_inv t' \<and> term_lines t' = term_lines t)"
proof -
  have keep: "term_inv (t\<lparr>view_offset := v\<rparr>) \<and> term_lines (t\<lparr>view_offset := v\<rparr>) = term_lines t"
    if "0 \<le> v" "v \<le> max_offset t" for v
    using assms(1) that by (simp add: term_inv_def max_offset_def term_lines_def kept_def line_back_def)
  have b: "0 \<le> view_offset t" "view_offset t \<le> max_offset t" "0 \<le> max_offset t"
    using assms(1) by (auto simp: term_inv_def)
  have up: "terminal_scroll_up n t = terminal_refresh_view (t\<lparr>view_offset := min (view_offset t + n) (max_offset t)\<rparr>)"
    by (simp add: terminal_scroll_up_def Let_def min_def)
  have down: "terminal_scroll_down n t = terminal_refresh_view (t\<lparr>view_offset := max (view_offset t - n) 0\<rparr>)"
    by (simp add: terminal_scroll_down_def Let_def max_def)
  show ?thesis
    using b assms(2) keep [of "min (view_offset t + n) (max_offset t)"] keep [of "max (view_offset t - n) 0"]
      keep [of "max_offset t"] keep [of 0]
    by (simp add: up down terminal_scroll_to_top_def terminal_scroll_to_bottom_def)
qed

definition blank_screen :: terminal where
  "blank_screen = \<lparr>scrollback_buffer = [], scrollback_colors = [], scrollback_head = 9, scrollback_count = 3,
     view_offset = 0, term_col = 0, vga = replicate 2000 0\<rparr>"

lemma blank_screen_vga: "length (vga blank_screen) = 2000"
  by (simp add: blank_screen_def del: replicate.simps)

theorem terminal_prints_witness:
  "term_lines (fold terminal_putchar (''ab'' @ [backspace, newline] @ ''c'') (terminal_clear blank_screen)) = [''a'', ''c'']"
proof -
  have "NUL \<notin> set (''ab'' @ [backspace, newline] @ ''c'')" by simp
  from terminal_prints [OF blank_screen_vga this] have
    "term_lines (fold terminal_putchar (''ab'' @ [backspace, newline] @ ''c'') (terminal_clear blank_screen)) =
      fold spec_putc (''ab'' @ [backspace, newline] @ ''c'') [[]]" by blast
  also have "\<dots> = [''a'', ''c'']" by (simp add: spec_putc_def last_n_def)
  finally show ?thesis .
qed

lemma demo_screen_inv: "term_inv (terminal_putchar CHR ''x'' (terminal_clear blank_screen))"
  using putchar_refines [OF terminal_clear_text(1) [OF blank_screen_vga], of "CHR ''x''"] by simp

theorem screen_shows_lines_witness:
  "let t = terminal_putchar CHR ''x'' (terminal_clear blank_screen) in
    vga (terminal_refresh_view t) ! (2 * 80 + 7) = vga t ! (2 * 80 + 7)"
  using screen_shows_lines [OF demo_screen_inv, of 2 7] by (simp add: Let_def)

theorem scrolling_bounded_witness:
  "let t = terminal_putchar CHR ''x'' (terminal_clear blank_screen) in
    term_lines (terminal_scroll_up 10 t) = term_lines t \<and> view_offset (terminal_scroll_down 10 t) = max (view_offset t - 10) 0"
  using scrolling_bounded [OF demo_screen_inv, of 10] by (simp add: Let_def)

end
