(* ===== verification/Logging.thy ===== *)
theory Logging
  imports Ring_Buffer
begin

text \<open>
  \<^verbatim>\<open>serial.c\<close>, \<^verbatim>\<open>logging.c\<close> and \<^verbatim>\<open>klog.c\<close>. What the kernel prints is a trace: the serial line is
  the string of characters sent so far, and an operation that takes a print function returns the
  list of strings it hands to it. The busy wait of \<open>serial_putc\<close> on the line status register is
  taken to end, as it does on a working UART; \<open>get_ticks()\<close> is an argument.
\<close>

section \<open>The serial line\<close>

definition serial_putc :: "char \<Rightarrow> string \<Rightarrow> string" where
  "serial_putc c out = out @ [c]"

fun serial_write :: "char list \<Rightarrow> string \<Rightarrow> string" where
  "serial_write [] out = out"
| "serial_write (c # cs) out =
     (if c = NUL then out
      else serial_write cs
        (serial_putc c (if c = newline then serial_putc (CHR 0x0D) out else out)))"

text \<open>The port writes of \<open>init_serial\<close>, in order.\<close>

definition COM1 :: u16 where
  "COM1 = 0x3F8"

definition init_serial :: "(u16 \<times> u8) list" where
  "init_serial = [(COM1 + 1, 0x00), (COM1 + 3, 0x80), (COM1 + 0, 0x03), (COM1 + 1, 0x00),
     (COM1 + 3, 0x03), (COM1 + 2, 0xC7), (COM1 + 4, 0x0B)]"

definition is_transmit_empty :: "u8 \<Rightarrow> bool" where
  "is_transmit_empty lsr \<longleftrightarrow> lsr AND 0x20 \<noteq> 0"

definition crlf :: "string \<Rightarrow> string" where
  "crlf s = concat (map (\<lambda>c. if c = newline then [CHR 0x0D, c] else [c]) s)"

lemma serial_write_eq: "serial_write s out = out @ crlf (cstr s)"
  by (induction s out rule: serial_write.induct) (simp_all add: serial_putc_def crlf_def)

section \<open>Levels\<close>

datatype log_level = LOG_DEBUG | LOG_INFO | LOG_WARN | LOG_ERROR | LOG_CRITICAL

fun level_num :: "log_level \<Rightarrow> nat" where
  "level_num LOG_DEBUG = 0"
| "level_num LOG_INFO = 1"
| "level_num LOG_WARN = 2"
| "level_num LOG_ERROR = 3"
| "level_num LOG_CRITICAL = 4"

text \<open>The levels are compared as the integers of the enumeration.\<close>

instantiation log_level :: linorder
begin

definition less_eq_log_level :: "log_level \<Rightarrow> log_level \<Rightarrow> bool" where
  "less_eq_log_level a b \<longleftrightarrow> level_num a \<le> level_num b"

definition less_log_level :: "log_level \<Rightarrow> log_level \<Rightarrow> bool" where
  "less_log_level a b \<longleftrightarrow> level_num a < level_num b"

instance
proof
  fix a b :: log_level
  show "a \<le> b \<Longrightarrow> b \<le> a \<Longrightarrow> a = b"
    by (cases a; cases b) (simp_all add: less_eq_log_level_def)
qed (auto simp: less_eq_log_level_def less_log_level_def)

end

fun level_to_string :: "log_level \<Rightarrow> string" where
  "level_to_string LOG_DEBUG = ''[DEBUG]''"
| "level_to_string LOG_INFO = ''[INFO]''"
| "level_to_string LOG_WARN = ''[WARN]''"
| "level_to_string LOG_ERROR = ''[ERROR]''"
| "level_to_string LOG_CRITICAL = ''[CRIT]''"

section \<open>The system log\<close>

definition LOG_ENTRY_MAX :: nat where
  "LOG_ENTRY_MAX = 64"

definition LOG_ENTRIES :: nat where
  "LOG_ENTRIES = 32"

record log_entry =
  le_message :: "char list"
  le_level :: log_level
  le_timestamp :: u32

record logging =
  log_buffer :: "log_entry list"
  log_head :: nat
  log_count :: nat
  current_level :: log_level
  serial_line :: string

definition safe_strcpy :: "char list \<Rightarrow> char list \<Rightarrow> nat \<Rightarrow> char list" where
  "safe_strcpy dest src mx = blit dest (str_prefix (mx - 1) src @ [NUL])"

definition clear_entry :: "log_entry \<Rightarrow> log_entry" where
  "clear_entry e = e\<lparr>le_message := (le_message e)[0 := NUL], le_level := LOG_DEBUG, le_timestamp := 0\<rparr>"

definition log_init :: "logging \<Rightarrow> logging" where
  "log_init l = l\<lparr>log_head := 0, log_count := 0, current_level := LOG_DEBUG,
     log_buffer := map clear_entry (log_buffer l)\<rparr>"

definition log_set_level :: "log_level \<Rightarrow> logging \<Rightarrow> logging" where
  "log_set_level level l = l\<lparr>current_level := level\<rparr>"

definition log_get_level :: "logging \<Rightarrow> log_level" where
  "log_get_level l = current_level l"

text \<open>
  The text of one line. \<open>tick_str\<close> is the digit loop and the in-place reversal, \<open>push_str\<close> and
  \<open>push_char\<close> are the bounded appends to the local buffer, whose contents so far are \<open>b\<close>.
\<close>

definition tick_str :: "u32 \<Rightarrow> string" where
  "tick_str ticks =
     (if ticks = 0 then ''0'' else reverse_in_place (dec_loop 15 (unat ticks)))"

definition push_char :: "char \<Rightarrow> string \<Rightarrow> string" where
  "push_char c b = (if length b < LOG_ENTRY_MAX - 1 then b @ [c] else b)"

fun push_str :: "char list \<Rightarrow> string \<Rightarrow> string" where
  "push_str [] b = b"
| "push_str (c # cs) b =
     (if c \<noteq> NUL \<and> length b < LOG_ENTRY_MAX - 1 then push_str cs (b @ [c]) else b)"

definition log_line :: "log_level \<Rightarrow> u32 \<Rightarrow> char list \<Rightarrow> string" where
  "log_line level ticks format =
     (let b = push_str (level_to_string level) [];
          b = push_char (CHR '' '') b;
          b = push_char (CHR ''@'') b;
          b = push_str (tick_str ticks) b;
          b = push_char (CHR '':'') b;
          b = push_char (CHR '' '') b
      in push_str format b)"

definition log_msg :: "u32 \<Rightarrow> log_level \<Rightarrow> char list \<Rightarrow> logging \<Rightarrow> logging" where
  "log_msg ticks level format l =
     (if level < current_level l then l
      else
        let buffer = log_line level ticks format;
            e = (log_buffer l ! log_head l)\<lparr>le_level := level, le_timestamp := ticks\<rparr>;
            e = e\<lparr>le_message := safe_strcpy (le_message e) buffer LOG_ENTRY_MAX\<rparr>
        in l\<lparr>log_buffer := (log_buffer l)[log_head l := e],
             log_head := (log_head l + 1) mod LOG_ENTRIES,
             log_count := (if log_count l < LOG_ENTRIES then log_count l + 1 else log_count l),
             serial_line := serial_write [newline] (serial_write buffer (serial_line l))\<rparr>)"

definition log_dump :: "logging \<Rightarrow> string list" where
  "log_dump l = (newline # ''=== System Log Dump ==='' @ [newline]) #
     (if log_count l = 0 then [''(vide)'' @ [newline]]
      else
        let start_idx = (if log_count l < LOG_ENTRIES then 0 else log_head l)
        in concat (map (\<lambda>i. [cstr (le_message (log_buffer l ! ((start_idx + i) mod LOG_ENTRIES))), [newline]])
             [0..<log_count l]))"

definition log_clear :: "logging \<Rightarrow> logging" where
  "log_clear l = l\<lparr>log_head := 0, log_count := 0, log_buffer := map clear_entry (log_buffer l)\<rparr>"

section \<open>One log line\<close>

lemma push_str_eq: "push_str s b = b @ take (LOG_ENTRY_MAX - 1 - length b) (cstr s)"
proof (induction s b rule: push_str.induct)
  case (2 c cs b)
  show ?case
  proof (cases "c \<noteq> NUL \<and> length b < LOG_ENTRY_MAX - 1")
    case True
    then have "LOG_ENTRY_MAX - 1 - length b = Suc (LOG_ENTRY_MAX - 1 - length (b @ [c]))" by (auto simp: Suc_diff_Suc)
    with True 2 show ?thesis by simp
  qed auto
qed simp

lemma push_char_eq: "push_char c b = b @ take (LOG_ENTRY_MAX - 1 - length b) [c]"
  by (auto simp: push_char_def take_Cons')

lemma push_take: "take (LOG_ENTRY_MAX - 1) b @ take (LOG_ENTRY_MAX - 1 - length (take (LOG_ENTRY_MAX - 1) b)) s
    = take (LOG_ENTRY_MAX - 1) (b @ s)"
  by (auto simp: min_def)

lemma tick_str_dec: "tick_str ticks = dec_string (unat ticks)"
proof (cases "ticks = 0")
  case True
  then show ?thesis by (simp add: tick_str_def dec_string.simps digit_char_0)
next
  case False
  have "unat ticks < 10 ^ 15"
    using unat_u32 [of ticks] by simp
  moreover have "0 < unat ticks" using False by (simp add: unat_gt_0)
  ultimately show ?thesis
    using False by (simp add: tick_str_def reverse_in_place_rev dec_loop_rev)
qed

lemma level_string_plain: "cstr (level_to_string level) = level_to_string level"
  by (cases level) simp_all

lemma log_line_eq:
  "log_line level ticks format = take (LOG_ENTRY_MAX - 1)
     (level_to_string level @ '' @'' @ dec_string (unat ticks) @ '': '' @ cstr format)"
proof -
  let ?t = "take (LOG_ENTRY_MAX - 1)"
  have s: "push_str s (?t b) = ?t (b @ cstr s)" for s b
    by (simp only: push_str_eq push_take)
  have c: "push_char c (?t b) = ?t (b @ [c])" for c b
    by (simp only: push_char_eq push_take)
  have l: "push_str (level_to_string level) [] = ?t (level_to_string level)"
    using s [of "level_to_string level" "[]"] by (simp add: level_string_plain)
  have d: "cstr (dec_string n) = dec_string n" for n
    by (simp add: cstr_id dec_string_no_NUL)
  show ?thesis
    by (simp only: log_line_def Let_def l s c tick_str_dec d append_assoc append_Cons append_Nil)
qed

lemma length_log_line: "length (log_line level ticks format) \<le> LOG_ENTRY_MAX - 1"
  by (simp add: log_line_eq)

lemma log_line_no_NUL: "NUL \<notin> set (log_line level ticks format)"
proof -
  have "NUL \<notin> set (level_to_string level)"
    by (cases level) simp_all
  then show ?thesis
    unfolding log_line_eq by (intro take_no_NUL) (simp add: dec_string_no_NUL)
qed

section \<open>The log keeps the last entries\<close>

definition log_inv :: "logging \<Rightarrow> bool" where
  "log_inv l \<longleftrightarrow> length (log_buffer l) = LOG_ENTRIES \<and>
     list_all (\<lambda>e. length (le_message e) = LOG_ENTRY_MAX) (log_buffer l) \<and>
     log_indices_ok LOG_ENTRIES (log_count l) (log_head l)"

definition entry_view :: "log_entry \<Rightarrow> log_level \<times> u32 \<times> string" where
  "entry_view e = (le_level e, le_timestamp e, cstr (le_message e))"

definition log_entries :: "logging \<Rightarrow> (log_level \<times> u32 \<times> string) list" where
  "log_entries l = map entry_view
     (rb_list (log_buffer l) (log_start LOG_ENTRIES (log_count l) (log_head l)) (log_count l))"

definition stored_entry :: "log_entry \<Rightarrow> log_level \<Rightarrow> u32 \<Rightarrow> char list \<Rightarrow> log_entry" where
  "stored_entry e level ticks format = e\<lparr>le_level := level, le_timestamp := ticks,
     le_message := safe_strcpy (le_message e) (log_line level ticks format) LOG_ENTRY_MAX\<rparr>"

lemma log_line_copied:
  "safe_strcpy dest (log_line level ticks format) LOG_ENTRY_MAX =
    blit dest (log_line level ticks format @ [NUL])"
  using length_log_line [of level ticks format]
  by (simp add: safe_strcpy_def str_prefix_eq cstr_id log_line_no_NUL)

lemma stored_entry_view: "entry_view (stored_entry e level ticks format) =
    (level, ticks, log_line level ticks format)"
  by (simp add: entry_view_def stored_entry_def log_line_copied cstr_blit log_line_no_NUL)

lemma stored_entry_length: "length (le_message e) = LOG_ENTRY_MAX \<Longrightarrow>
    length (le_message (stored_entry e level ticks format)) = LOG_ENTRY_MAX"
  using length_log_line [of level ticks format]
  by (simp add: stored_entry_def log_line_copied blit_def) (simp add: LOG_ENTRY_MAX_def)

lemma map_last_n: "map f (last_n n xs) = last_n n (map f xs)"
  by (simp add: last_n_def drop_map)

lemma log_msg_accepted:
  assumes inv: "log_inv l" and lev: "current_level l \<le> level"
  shows "log_entries (log_msg ticks level format l) =
      last_n LOG_ENTRIES (log_entries l @ [(level, ticks, log_line level ticks format)]) \<and>
    log_inv (log_msg ticks level format l)"
proof -
  let ?n = "LOG_ENTRIES" and ?e = "stored_entry (log_buffer l ! log_head l) level ticks format"
  have len: "length (log_buffer l) = ?n" and ok: "log_indices_ok ?n (log_count l) (log_head l)"
    using inv by (simp_all add: log_inv_def)
  have buf: "log_buffer (log_msg ticks level format l) = (log_buffer l)[log_head l := ?e]"
    and cnt: "log_count (log_msg ticks level format l) = (if log_count l < ?n then Suc (log_count l) else log_count l)"
    and head: "log_head (log_msg ticks level format l) = (log_head l + 1) mod ?n"
    using leD [OF lev] by (simp_all add: log_msg_def Let_def stored_entry_def)
  note ring = log_ring_append [OF ok [folded len] refl refl, of ?e, unfolded len]
  have "length (le_message (log_buffer l ! log_head l)) = LOG_ENTRY_MAX"
    using inv ok len by (auto simp: log_inv_def log_indices_ok_def list_all_length)
  then have "list_all (\<lambda>e. length (le_message e) = LOG_ENTRY_MAX) ((log_buffer l)[log_head l := ?e])"
    using inv by (auto simp: log_inv_def list_all_iff stored_entry_length
        dest!: set_update_subset_insert [THEN subsetD])
  with ring len show ?thesis
    by (simp add: log_inv_def log_entries_def buf cnt head map_last_n stored_entry_view)
qed

lemma log_msg_filtered: "level < current_level l \<Longrightarrow> log_msg ticks level format l = l"
  by (simp add: log_msg_def)

lemma log_msg_level [simp]: "current_level (log_msg ticks level format l) = current_level l"
  by (simp add: log_msg_def Let_def)

lemma log_entries_length: "log_inv l \<Longrightarrow> length (log_entries l) \<le> LOG_ENTRIES"
  by (simp add: log_entries_def log_inv_def log_indices_ok_def)

interpretation syslog: bounded_log LOG_ENTRIES log_entries log_inv
  "\<lambda>(ticks, level, format) l. current_level l \<le> level"
  "\<lambda>(ticks, level, format). (level, ticks, log_line level ticks format)"
  "\<lambda>(ticks, level, format). log_msg ticks level format"
  by unfold_locales
    (auto simp: log_msg_accepted not_le log_msg_filtered log_entries_length split: prod.splits)

lemma log_inv_init [kinv]: "length (log_buffer l) = LOG_ENTRIES \<Longrightarrow>
    list_all (\<lambda>e. length (le_message e) = LOG_ENTRY_MAX) (log_buffer l) \<Longrightarrow> log_inv (log_init l)"
  by (auto simp: log_inv_def log_init_def log_indices_ok_def LOG_ENTRIES_def list_all_iff clear_entry_def)

lemma log_inv_clear [kinv]: "log_inv l \<Longrightarrow> log_inv (log_clear l)"
  by (auto simp: log_inv_def log_clear_def log_indices_ok_def LOG_ENTRIES_def list_all_iff clear_entry_def)

lemma log_inv_msg [kinv]: "log_inv l \<Longrightarrow> log_inv (log_msg ticks level format l)"
  using log_msg_accepted [of l level] by (cases "current_level l \<le> level") (auto simp: not_le log_msg_filtered)

text \<open>What \<open>log_dump\<close> prints, in terms of the entries.\<close>

lemma log_dump_entries:
  assumes "log_inv l" and "log_entries l \<noteq> []"
  shows "tl (log_dump l) = concat (map (\<lambda>(level, ticks, msg). [msg, [newline]]) (log_entries l))"
proof -
  have "length (log_buffer l) = LOG_ENTRIES" and "log_count l \<noteq> 0"
    using assms by (auto simp: log_inv_def log_entries_def)
  then show ?thesis
    by (simp add: log_dump_def log_entries_def rb_list_def log_start_def entry_view_def comp_def)
qed

text \<open>
  The text of a log line: the level tag, a blank and \<open>@\<close>, the tick count in decimal, a colon and
  a blank, then the message, cut at 63 characters so that the terminator always fits.
\<close>

theorem log_line_format:
  "log_line level ticks format = take 63
     (level_to_string level @ '' @'' @ dec_string (unat ticks) @ '': '' @ cstr format)"
  by (simp add: log_line_eq LOG_ENTRY_MAX_def)


definition blank_log :: logging where
  "blank_log = \<lparr>log_buffer = replicate LOG_ENTRIES \<lparr>le_message = replicate LOG_ENTRY_MAX NUL,
     le_level = LOG_DEBUG, le_timestamp = 0\<rparr>, log_head = 0, log_count = 0,
     current_level = LOG_WARN, serial_line = []\<rparr>"


section \<open>The boot log\<close>

definition KLOG_LINES :: nat where
  "KLOG_LINES = 16"

definition KLOG_LINE_LEN :: nat where
  "KLOG_LINE_LEN = 64"

record klog_state =
  klog_buf :: "char list list"
  klog_count :: nat
  klog_head :: nat
  klog_serial :: string

fun k_strlen :: "char list \<Rightarrow> nat" where
  "k_strlen [] = 0"
| "k_strlen (c # cs) = (if c = NUL then 0 else Suc (k_strlen cs))"

definition klog_init :: "klog_state \<Rightarrow> klog_state" where
  "klog_init k = k\<lparr>klog_count := 0, klog_head := 0\<rparr>"

definition klog :: "char list \<Rightarrow> klog_state \<Rightarrow> klog_state" where
  "klog msg k =
     (let slot = klog_buf k ! klog_head k;
          len = k_strlen msg;
          len = (if len \<ge> KLOG_LINE_LEN then KLOG_LINE_LEN - 1 else len);
          slot = blit slot (take len msg @ [NUL])
      in k\<lparr>klog_serial := serial_write [newline] (serial_write msg (klog_serial k)),
           klog_buf := (klog_buf k)[klog_head k := slot],
           klog_head := (klog_head k + 1) mod KLOG_LINES,
           klog_count := (if klog_count k < KLOG_LINES then klog_count k + 1 else klog_count k)\<rparr>)"

definition klog_dump :: "klog_state \<Rightarrow> string list" where
  "klog_dump k =
     (let start = (if klog_count k < KLOG_LINES then 0 else klog_head k)
      in concat (map (\<lambda>i. [cstr (klog_buf k ! ((start + i) mod KLOG_LINES)), [newline]])
           [0..<klog_count k]))"

definition klog_inv :: "klog_state \<Rightarrow> bool" where
  "klog_inv k \<longleftrightarrow> length (klog_buf k) = KLOG_LINES \<and>
     log_indices_ok KLOG_LINES (klog_count k) (klog_head k)"

definition klog_entries :: "klog_state \<Rightarrow> string list" where
  "klog_entries k = map cstr
     (rb_list (klog_buf k) (log_start KLOG_LINES (klog_count k) (klog_head k)) (klog_count k))"

lemma k_strlen_eq: "k_strlen s = length (cstr s)"
  by (induction s rule: k_strlen.induct) simp_all

lemma take_cstr: "n \<le> length (cstr s) \<Longrightarrow> take n s = take n (cstr s)"
  by (induction s arbitrary: n) (auto simp: take_Cons' split: if_splits)

lemma klog_slot:
  "cstr (blit slot (take (if k_strlen msg \<ge> KLOG_LINE_LEN then KLOG_LINE_LEN - 1 else k_strlen msg) msg
     @ [NUL])) = take (KLOG_LINE_LEN - 1) (cstr msg)"
  using take_cstr [of "KLOG_LINE_LEN - 1" msg] take_cstr [of "length (cstr msg)" msg]
  by (auto simp: k_strlen_eq cstr_blit take_no_NUL)

lemma klog_append:
  assumes "klog_inv k"
  shows "klog_entries (klog msg k) = last_n KLOG_LINES (klog_entries k @ [take (KLOG_LINE_LEN - 1) (cstr msg)])
    \<and> klog_inv (klog msg k)"
proof -
  have len: "length (klog_buf k) = KLOG_LINES"
    and ok: "log_indices_ok KLOG_LINES (klog_count k) (klog_head k)"
    using assms by (simp_all add: klog_inv_def)
  note ring = log_ring_append [OF ok [folded len] refl refl, unfolded len]
  define slot where "slot = blit (klog_buf k ! klog_head k)
    (take (if k_strlen msg \<ge> KLOG_LINE_LEN then KLOG_LINE_LEN - 1 else k_strlen msg) msg @ [NUL])"
  have buf: "klog_buf (klog msg k) = (klog_buf k)[klog_head k := slot]"
    and cnt: "klog_count (klog msg k) = (if klog_count k < KLOG_LINES then Suc (klog_count k) else klog_count k)"
    and head: "klog_head (klog msg k) = (klog_head k + 1) mod KLOG_LINES"
    by (simp_all add: klog_def Let_def slot_def)
  have "cstr slot = take (KLOG_LINE_LEN - 1) (cstr msg)"
    unfolding slot_def by (rule klog_slot)
  with ring [of slot] len show ?thesis
    by (simp add: klog_entries_def klog_inv_def buf cnt head map_last_n)
qed

interpretation bootlog: bounded_log KLOG_LINES klog_entries klog_inv "\<lambda>_ _. True"
  "\<lambda>msg. take (KLOG_LINE_LEN - 1) (cstr msg)" klog
proof
  show "length (klog_entries k) \<le> KLOG_LINES" if "klog_inv k" for k
    using that by (simp add: klog_entries_def klog_inv_def log_indices_ok_def)
qed (simp_all add: klog_append)

lemma klog_dump_eq:
  "klog_inv k \<Longrightarrow> klog_dump k = concat (map (\<lambda>msg. [msg, [newline]]) (klog_entries k))"
  by (simp add: klog_dump_def klog_entries_def klog_inv_def rb_list_def log_start_def comp_def)

end
