(* ===== verification/Interrupts.thy ===== *)
theory Interrupts
  imports Task Timer Terminal Logging
begin

text \<open>
  \<^verbatim>\<open>idt.c\<close> and \<^verbatim>\<open>panic.c\<close>: the gates of the interrupt descriptor table, the table of handlers, the routines the
  assembly stubs call, and the panic screen. The record \<open>machine\<close> holds what they share with the timer and the
  scheduler; later theories extend it. The handlers the kernel registers are named by the constructors of \<open>isr_t\<close>;
  the two that belong to other files are arguments of \<open>call_isr\<close>.
\<close>

section \<open>Model: the tables\<close>

record idt_entry =
  gate_base_low :: u16
  gate_sel :: u16
  gate_always0 :: u8
  gate_flags :: u8
  gate_base_high :: u16

record registers =
  r_ds :: u32
  r_edi :: u32
  r_esi :: u32
  r_ebp :: u32
  r_esp :: u32
  r_ebx :: u32
  r_edx :: u32
  r_ecx :: u32
  r_eax :: u32
  r_int_no :: u32
  r_err_code :: u32
  r_eip :: u32
  r_cs :: u32
  r_eflags :: u32
  r_useresp :: u32
  r_ss :: u32

datatype isr_t = ISR_NONE | ISR_EXCEPTION | ISR_TIMER | ISR_KEYBOARD

record machine =
  idt_entries :: "idt_entry list"
  idt_limit :: u16
  idt_base :: u32
  idtr :: "u16 \<times> u32"
  interrupt_handlers :: "isr_t list"
  out_ports :: "(u16 \<times> u8) list"
  m_timer :: timer
  m_tasking :: tasking

definition outb :: "u16 \<Rightarrow> u8 \<Rightarrow> 'a machine_scheme \<Rightarrow> 'a machine_scheme" where
  "outb port val s = s\<lparr>out_ports := out_ports s @ [(port, val)]\<rparr>"

definition idt_set_gate :: "u8 \<Rightarrow> u32 \<Rightarrow> u16 \<Rightarrow> u8 \<Rightarrow> 'a machine_scheme \<Rightarrow> 'a machine_scheme" where
  "idt_set_gate num base sel flags s =
     s\<lparr>idt_entries := (idt_entries s)[unat num := (idt_entries s ! unat num)
       \<lparr>gate_base_low := ucast (base AND 0xFFFF), gate_base_high := ucast (drop_bit 16 base AND 0xFFFF),
        gate_sel := sel, gate_always0 := 0, gate_flags := flags\<rparr>]\<rparr>"

definition pic_remap :: "'a machine_scheme \<Rightarrow> 'a machine_scheme" where
  "pic_remap s = fold (\<lambda>(port, val). outb port val)
     [(0x20, 0x11), (0xA0, 0x11), (0x21, 0x20), (0xA1, 0x28), (0x21, 0x04), (0xA1, 0x02), (0x21, 0x01), (0xA1, 0x01),
      (0x21, 0x00), (0xA1, 0x00)] s"

definition register_interrupt_handler :: "u8 \<Rightarrow> isr_t \<Rightarrow> 'a machine_scheme \<Rightarrow> 'a machine_scheme" where
  "register_interrupt_handler n handler s = s\<lparr>interrupt_handlers := (interrupt_handlers s)[unat n := handler]\<rparr>"

text \<open>\<open>isr\<close> and \<open>irq\<close> are the addresses of the stubs in \<^verbatim>\<open>interrupts.s\<close>, \<open>table_at\<close> that of the table.\<close>

definition init_idt :: "(nat \<Rightarrow> u32) \<Rightarrow> (nat \<Rightarrow> u32) \<Rightarrow> u32 \<Rightarrow> 'a machine_scheme \<Rightarrow> 'a machine_scheme" where
  "init_idt isr irq table_at s =
     (let s = s\<lparr>idt_limit := of_nat (8 * 256 - 1), idt_base := table_at\<rparr>;
          s = s\<lparr>interrupt_handlers := map (\<lambda>_. ISR_NONE) (interrupt_handlers s)\<rparr>;
          s = pic_remap s;
          s = fold (\<lambda>i. idt_set_gate (of_nat i) (isr i) 0x08 0x8E) [0..<32] s;
          s = idt_set_gate 32 (irq 0) 0x08 0x8E s;
          s = idt_set_gate 33 (irq 1) 0x08 0x8E s;
          s = idt_set_gate 0x80 (isr 128) 0x08 0xEE s
      in s\<lparr>idtr := (idt_limit s, idt_base s)\<rparr>)"

definition init_timer :: "u32 \<Rightarrow> 'a machine_scheme \<Rightarrow> 'a machine_scheme option" where
  "init_timer frequency s = do {
     let s = s\<lparr>m_timer := reset_timer frequency (m_timer s)\<rparr>;
     let s = register_interrupt_handler 32 ISR_TIMER s;
     bytes \<leftarrow> pit_setup frequency;
     Some (fold (\<lambda>(port, val). outb port val) bytes s)
   }"

definition init_panic_handlers :: "'a machine_scheme \<Rightarrow> 'a machine_scheme" where
  "init_panic_handlers s = fold (\<lambda>i. register_interrupt_handler (of_nat i) ISR_EXCEPTION) [0..<32] s"

section \<open>Model: the panic screen\<close>

definition exception_names :: "string list" where
  "exception_names =
     [''Division By Zero'', ''Debug'', ''Non Maskable Interrupt'', ''Breakpoint'',
      ''Overflow'', ''Out of Bounds'', ''Invalid Opcode'', ''No Coprocessor'',
      ''Double Fault'', ''Coprocessor Segment Overrun'', ''Bad TSS'', ''Segment Not Present'',
      ''Stack Fault'', ''General Protection Fault'', ''Page Fault'', ''Unknown Interrupt'',
      ''Coprocessor Fault'', ''Alignment Check'', ''Machine Check'', ''Reserved'',
      ''Reserved'', ''Reserved'', ''Reserved'', ''Reserved'',
      ''Reserved'', ''Reserved'', ''Reserved'', ''Reserved'',
      ''Reserved'', ''Reserved'', ''Reserved'', ''Reserved'']"

text \<open>The two places the panic code prints to: the screen and the serial line.\<close>

type_synonym console = "terminal \<times> string"

definition panic_print_str :: "char list \<Rightarrow> console \<Rightarrow> console" where
  "panic_print_str s = fold (\<lambda>c (t, line). (terminal_putchar c t, serial_putc c line)) (cstr s)"

definition nibble_char :: "u8 \<Rightarrow> char" where
  "nibble_char nibble = (if nibble < 10 then char_of (48 + unat nibble) else char_of (65 + unat nibble - 10))"

definition hex_buffer :: "u32 \<Rightarrow> char list" where
  "hex_buffer n = fst (fold (\<lambda>i (buf, n). (buf[i := nibble_char (ucast (n AND 0xF))], drop_bit 4 n))
     [9, 8, 7, 6, 5, 4, 3, 2] (''0x00000000'' @ [NUL], n))"

definition panic_print_hex :: "u32 \<Rightarrow> console \<Rightarrow> console" where
  "panic_print_hex n = panic_print_str (hex_buffer n)"

text \<open>\<open>panic\<close> and \<open>panic_msg\<close> never return: these are the screen and the serial line when the machine halts.\<close>

definition panic :: "char list \<Rightarrow> registers option \<Rightarrow> console \<Rightarrow> console" where
  "panic message regs c =
     (let c = panic_print_str ([newline, newline] @ ''*** KERNEL PANIC ***'' @ [newline]) c;
          c = panic_print_str message c;
          c = (case regs of None \<Rightarrow> c
             | Some r \<Rightarrow> fold (\<lambda>(label, v) c. panic_print_hex v (panic_print_str label c))
                 [(newline # ''EIP: '', r_eip r), (''  INT: '', r_int_no r), (''  ERR: '', r_err_code r),
                  (newline # ''EAX: '', r_eax r), (''  EBX: '', r_ebx r), (''  ECX: '', r_ecx r), (''  EDX: '', r_edx r)] c)
      in panic_print_str (newline # ''System halted.'' @ [newline]) c)"

definition panic_msg :: "char list \<Rightarrow> u32 \<Rightarrow> console \<Rightarrow> console" where
  "panic_msg message code c =
     (let c = panic_print_str ([newline, newline] @ ''*** KERNEL PANIC ***'' @ [newline]) c;
          c = panic_print_str message c;
          c = panic_print_str '' (code: '' c;
          c = panic_print_hex code c
      in panic_print_str ('')'' @ [newline] @ ''System halted.'' @ [newline]) c)"

definition exception_handler :: "registers \<Rightarrow> console \<Rightarrow> console" where
  "exception_handler regs c =
     panic (if r_int_no regs < 32 then exception_names ! unat (r_int_no regs) else ''Unknown'') (Some regs) c"

section \<open>Model: the dispatch\<close>

text \<open>
  Calling a registered handler: \<open>callbacks\<close> are the functions in the timer's table, \<open>keyboard\<close> is
  \<open>keyboard_callback\<close>. The exception handler does not return.
\<close>

definition call_isr :: "(u32 \<Rightarrow> 'a machine_scheme \<Rightarrow> 'a machine_scheme option) \<Rightarrow> ('a machine_scheme \<Rightarrow> 'a machine_scheme option) \<Rightarrow>
    isr_t \<Rightarrow> registers \<Rightarrow> 'a machine_scheme \<Rightarrow> 'a machine_scheme option" where
  "call_isr callback keyboard h regs s =
     (case h of
        ISR_NONE \<Rightarrow> Some s
      | ISR_EXCEPTION \<Rightarrow> None
      | ISR_TIMER \<Rightarrow> timer_irq_callback m_timer (\<lambda>t s. s\<lparr>m_timer := t\<rparr>) callback s
      | ISR_KEYBOARD \<Rightarrow> keyboard s)"

definition isr_handler :: "(u32 \<Rightarrow> 'a machine_scheme \<Rightarrow> 'a machine_scheme option) \<Rightarrow> ('a machine_scheme \<Rightarrow> 'a machine_scheme option) \<Rightarrow>
    registers \<Rightarrow> 'a machine_scheme \<Rightarrow> 'a machine_scheme option" where
  "isr_handler callback keyboard regs s =
     (if unat (r_int_no regs) \<ge> 256 then None
      else if interrupt_handlers s ! unat (r_int_no regs) \<noteq> ISR_NONE
      then call_isr callback keyboard (interrupt_handlers s ! unat (r_int_no regs)) regs s
      else Some s)"

text \<open>The argument of \<open>irq_handler\<close> is the stack pointer \<open>esp\<close>, where the registers \<open>regs\<close> lie.\<close>

definition irq_handler :: "(u32 \<Rightarrow> 'a machine_scheme \<Rightarrow> 'a machine_scheme option) \<Rightarrow> ('a machine_scheme \<Rightarrow> 'a machine_scheme option) \<Rightarrow>
    u32 \<Rightarrow> registers \<Rightarrow> 'a machine_scheme \<Rightarrow> (u32 \<times> 'a machine_scheme) option" where
  "irq_handler callback keyboard esp regs s = do {
     let s = (if r_int_no regs \<ge> 40 then outb 0xA0 0x20 s else s);
     let s = outb 0x20 0x20 s;
     s \<leftarrow> isr_handler callback keyboard regs s;
     if r_int_no regs = 32 then do {
       (e, t) \<leftarrow> schedule esp (m_tasking s);
       Some (e, s\<lparr>m_tasking := t\<rparr>)
     }
     else Some (esp, s)
   }"

text \<open>The voluntary entries of \<^verbatim>\<open>task.c\<close>, which raise the timer's interrupt themselves.\<close>

definition yield_interrupt :: "(u32 \<Rightarrow> 'a machine_scheme \<Rightarrow> 'a machine_scheme option) \<Rightarrow> ('a machine_scheme \<Rightarrow> 'a machine_scheme option) \<Rightarrow>
    u32 \<Rightarrow> registers \<Rightarrow> 'a machine_scheme \<Rightarrow> (u32 \<times> 'a machine_scheme) option" where
  "yield_interrupt callback keyboard esp regs s = irq_handler callback keyboard esp (regs\<lparr>r_int_no := 32\<rparr>) s"

section \<open>The descriptor table\<close>

definition gate_target :: "idt_entry \<Rightarrow> u32" where
  "gate_target e = ucast (gate_base_low e) OR push_bit 16 (ucast (gate_base_high e))"

abbreviation gate_present :: "idt_entry \<Rightarrow> bool" where
  "gate_present e \<equiv> bit (gate_flags e) 7"

definition gate_dpl :: "idt_entry \<Rightarrow> u8" where
  "gate_dpl e = drop_bit 5 (gate_flags e) AND 3"

text \<open>A gate of the kernel: it leads to \<open>target\<close> in the kernel's code segment and may be called from \<open>ring\<close>.\<close>

definition kernel_gate :: "u32 \<Rightarrow> u8 \<Rightarrow> idt_entry \<Rightarrow> bool" where
  "kernel_gate target ring e \<longleftrightarrow> gate_present e \<and> gate_target e = target \<and> gate_dpl e = ring \<and> gate_sel e = 0x08 \<and> gate_always0 e = 0"

lemma gate_target_halves:
  "ucast (ucast (base AND 0xFFFF) :: u16) OR push_bit 16 (ucast (ucast (drop_bit 16 base AND 0xFFFF) :: u16)) = (base :: u32)"
  unfolding byte_masks
  apply (rule bit_eqI)
  subgoal for n by (cases "n < 16") (auto simp: bit_simps simp del: mask_numeral)
  done

lemma set_gate_entry:
  assumes "unat num < length (idt_entries s)"
  shows "idt_entries (idt_set_gate num base sel flags s) ! i = (if i = unat num then
      \<lparr>gate_base_low = ucast (base AND 0xFFFF), gate_sel = sel, gate_always0 = 0, gate_flags = flags,
       gate_base_high = ucast (drop_bit 16 base AND 0xFFFF)\<rparr> else idt_entries s ! i)"
  using assms by (cases "i = unat num") (simp_all add: idt_set_gate_def)

lemma set_gate_frame [simp]:
  "length (idt_entries (idt_set_gate num base sel flags s)) = length (idt_entries s)"
  "interrupt_handlers (idt_set_gate num base sel flags s) = interrupt_handlers s"
  "idt_limit (idt_set_gate num base sel flags s) = idt_limit s" "idt_base (idt_set_gate num base sel flags s) = idt_base s"
  "out_ports (idt_set_gate num base sel flags s) = out_ports s" "m_timer (idt_set_gate num base sel flags s) = m_timer s"
  "m_tasking (idt_set_gate num base sel flags s) = m_tasking s"
  by (simp_all add: idt_set_gate_def)

lemma kernel_gateI:
  "kernel_gate base 0 \<lparr>gate_base_low = ucast (base AND 0xFFFF), gate_sel = 0x08, gate_always0 = 0, gate_flags = 0x8E,
     gate_base_high = ucast (drop_bit 16 base AND 0xFFFF)\<rparr>"
  "kernel_gate base 3 \<lparr>gate_base_low = ucast (base AND 0xFFFF), gate_sel = 0x08, gate_always0 = 0, gate_flags = 0xEE,
     gate_base_high = ucast (drop_bit 16 base AND 0xFFFF)\<rparr>"
  by (simp_all add: kernel_gate_def gate_target_def gate_target_halves gate_dpl_def bit_iff_odd_drop_bit)

lemma fold_set_gates:
  fixes s :: "'a machine_scheme" and isr :: "nat \<Rightarrow> u32"
  assumes "length (idt_entries s) = 256" and "n \<le> 32"
  defines "s' \<equiv> fold (\<lambda>i. idt_set_gate (of_nat i) (isr i) 0x08 0x8E) [0..<n] s"
  shows "length (idt_entries s') = 256 \<and> interrupt_handlers s' = interrupt_handlers s \<and>
    idt_limit s' = idt_limit s \<and> idt_base s' = idt_base s \<and>
    (\<forall>v. if v < n then kernel_gate (isr v) 0 (idt_entries s' ! v) else idt_entries s' ! v = idt_entries s ! v)"
  unfolding s'_def using assms(2)
proof (induction n)
  case 0
  then show ?case using assms(1) by simp
next
  case (Suc n)
  have u: "unat (of_nat n :: u8) = n" using Suc.prems by (simp add: unat_of_nat)
  have "unat (of_nat n :: u8) < length (idt_entries (fold (\<lambda>i. idt_set_gate (of_nat i) (isr i) 0x08 0x8E) [0..<n] s))"
    using Suc u by simp
  from set_gate_entry [OF this, of "isr n" "0x08" "0x8E"] show ?case
    using Suc u by (auto simp: kernel_gateI less_Suc_eq)
qed

lemma pic_remap_frame [simp]:
  "idt_entries (pic_remap s) = idt_entries s" "interrupt_handlers (pic_remap s) = interrupt_handlers s"
  "idt_limit (pic_remap s) = idt_limit s" "idt_base (pic_remap s) = idt_base s"
  by (simp_all add: pic_remap_def outb_def)

section \<open>The interrupt controllers\<close>

text \<open>
  What the two 8259 controllers make of the bytes written to them, after their data sheet: a command with bit 4 begins the
  initialisation, in which the data port takes the vector base, the wiring and the mode; afterwards it takes the mask.
  \<open>line_vector\<close> is the vector at which request line \<open>n\<close> arrives; lines from 8 on also need line 2 of the first controller.
\<close>

record pic =
  pic_icw :: nat
  pic_base :: u8
  pic_mask :: u8

definition pic_write :: "u16 \<Rightarrow> u16 \<times> u8 \<Rightarrow> pic \<Rightarrow> pic" where
  "pic_write command = (\<lambda>(port, val) p.
     if port = command then if bit val 4 then p\<lparr>pic_icw := 2, pic_mask := 0\<rparr> else p
     else if port = command + 1 then
       if pic_icw p = 2 then p\<lparr>pic_icw := 3, pic_base := val AND 0xF8\<rparr>
       else if pic_icw p = 3 then p\<lparr>pic_icw := 4\<rparr>
       else if pic_icw p = 4 then p\<lparr>pic_icw := 0\<rparr>
       else p\<lparr>pic_mask := val\<rparr>
     else p)"

definition pic_after :: "u16 \<Rightarrow> (u16 \<times> u8) list \<Rightarrow> pic" where
  "pic_after command trace = fold (pic_write command) trace \<lparr>pic_icw = 0, pic_base = 0, pic_mask = 0xFF\<rparr>"

definition line_vector :: "(u16 \<times> u8) list \<Rightarrow> nat \<Rightarrow> nat option" where
  "line_vector trace n =
     (let master = pic_after 0x20 trace; slave = pic_after 0xA0 trace in
      if n < 8 then if bit (pic_mask master) n then None else Some (unat (pic_base master) + n)
      else if bit (pic_mask master) 2 \<or> bit (pic_mask slave) (n - 8) then None else Some (unat (pic_base slave) + (n - 8)))"

lemma pic_remap_ports: "out_ports (pic_remap s) = out_ports s @
    [(0x20, 0x11), (0xA0, 0x11), (0x21, 0x20), (0xA1, 0x28), (0x21, 0x04), (0xA1, 0x02), (0x21, 0x01), (0xA1, 0x01), (0x21, 0x00), (0xA1, 0x00)]"
  by (simp add: pic_remap_def outb_def)

lemma pic_remap_lines: "line_vector (out_ports (pic_remap s)) n = Some (32 + n)"
proof -
  have "bit (0x11 :: u8) 4" by code_simp
  then have "pic_after 0x20 (out_ports (pic_remap s)) = \<lparr>pic_icw = 0, pic_base = 0x20, pic_mask = 0\<rparr>"
    "pic_after 0xA0 (out_ports (pic_remap s)) = \<lparr>pic_icw = 0, pic_base = 0x28, pic_mask = 0\<rparr>"
    by (simp_all add: pic_remap_ports pic_after_def pic_write_def)
  then show ?thesis by (simp add: line_vector_def Let_def)
qed

lemma fold_set_gates_ports: "out_ports (fold (\<lambda>i. idt_set_gate (of_nat i) (isr i) 0x08 0x8E) is s) = out_ports s"
  by (induction "is" arbitrary: s) simp_all

text \<open>
  C36. The vectors at work after \<open>init_idt\<close>: the 32 exceptions enter their stubs, vectors 32 and 33 those of the
  timer and the keyboard, and 0x80 the system call stub, the only gate that user mode may call. All lead into the
  kernel's code segment; no handler is registered yet; the other vectors are untouched; the processor is given the
  address and the size of the table. The interrupt controllers, whatever was written to them before, deliver request line \<open>n\<close>
  at vector \<open>32 + n\<close>, so the timer (0) and the keyboard (1) at the vectors of their stubs. They deliver the other lines too,
  for which there is no gate.
\<close>

theorem idt_vectors:
  assumes "length (idt_entries s) = 256"
  shows "let s' = init_idt isr irq table_at s in
    (\<forall>v<256. if v < 32 then kernel_gate (isr v) 0 (idt_entries s' ! v)
       else if v \<in> {32, 33} then kernel_gate (irq (v - 32)) 0 (idt_entries s' ! v)
       else if v = 128 then kernel_gate (isr 128) 3 (idt_entries s' ! v)
       else idt_entries s' ! v = idt_entries s ! v) \<and>
    set (interrupt_handlers s') \<subseteq> {ISR_NONE} \<and> idtr s' = (2047, table_at) \<and> (\<forall>n<16. line_vector (out_ports s') n = Some (32 + n))"
proof -
  define s0 where "s0 = pic_remap ((s\<lparr>idt_limit := of_nat (8 * 256 - 1), idt_base := table_at\<rparr>)
    \<lparr>interrupt_handlers := map (\<lambda>_. ISR_NONE) (interrupt_handlers s)\<rparr>)"
  define s1 where "s1 = fold (\<lambda>i. idt_set_gate (of_nat i) (isr i) 0x08 0x8E) [0..<32] s0"
  define s2 where "s2 = idt_set_gate 0x80 (isr 128) 0x08 0xEE (idt_set_gate 33 (irq 1) 0x08 0x8E (idt_set_gate 32 (irq 0) 0x08 0x8E s1))"
  have run: "init_idt isr irq table_at s = s2\<lparr>idtr := (idt_limit s2, idt_base s2)\<rparr>"
    unfolding s2_def s1_def s0_def init_idt_def Let_def by simp
  have s0: "length (idt_entries s0) = 256" "idt_entries s0 = idt_entries s" "idt_limit s0 = 2047" "idt_base s0 = table_at"
    "interrupt_handlers s0 = map (\<lambda>_. ISR_NONE) (interrupt_handlers s)"
    using assms by (simp_all add: s0_def)
  have s1: "length (idt_entries s1) = 256" "interrupt_handlers s1 = interrupt_handlers s0" "idt_limit s1 = 2047" "idt_base s1 = table_at"
    "\<And>v. if v < 32 then kernel_gate (isr v) 0 (idt_entries s1 ! v) else idt_entries s1 ! v = idt_entries s ! v"
    using fold_set_gates [OF s0(1), of 32 isr] s0 unfolding s1_def by auto
  have e: "idt_entries s2 ! v = (if v = 128 then \<lparr>gate_base_low = ucast (isr 128 AND 0xFFFF), gate_sel = 0x08, gate_always0 = 0,
        gate_flags = 0xEE, gate_base_high = ucast (drop_bit 16 (isr 128) AND 0xFFFF)\<rparr>
      else if v = 33 then \<lparr>gate_base_low = ucast (irq 1 AND 0xFFFF), gate_sel = 0x08, gate_always0 = 0, gate_flags = 0x8E,
        gate_base_high = ucast (drop_bit 16 (irq 1) AND 0xFFFF)\<rparr>
      else if v = 32 then \<lparr>gate_base_low = ucast (irq 0 AND 0xFFFF), gate_sel = 0x08, gate_always0 = 0, gate_flags = 0x8E,
        gate_base_high = ucast (drop_bit 16 (irq 0) AND 0xFFFF)\<rparr>
      else idt_entries s1 ! v)" for v
    using s1(1) by (simp add: s2_def set_gate_entry)
  have "out_ports s1 = out_ports s0" unfolding s1_def by (intro fold_set_gates_ports)
  then have "line_vector (out_ports s2) n = Some (32 + n)" for n by (simp add: s2_def s0_def pic_remap_lines)
  then show ?thesis
    unfolding run Let_def using s1(2-5) s0(5) e by (auto simp: kernel_gateI s2_def)
qed

definition raw_machine :: machine where
  "raw_machine = \<lparr>idt_entries = replicate 256 \<lparr>gate_base_low = 1, gate_sel = 2, gate_always0 = 3, gate_flags = 4, gate_base_high = 5\<rparr>,
     idt_limit = 0, idt_base = 0, idtr = (0, 0), interrupt_handlers = replicate 256 ISR_NONE, out_ports = [],
     m_timer = \<lparr>timer_ticks = 0, timer_freq_hz = 100, callbacks = replicate 8 0, cb_count = 0\<rparr>, m_tasking = raw_tasking\<rparr>"

theorem idt_vectors_witness:
  "kernel_gate 0x100800 3 (idt_entries (init_idt (\<lambda>v. 0x100000 + 16 * of_nat v) (\<lambda>v. 0x101000) 0x106000 raw_machine) ! 128)"
proof -
  have "length (idt_entries raw_machine) = 256" by (simp add: raw_machine_def)
  from idt_vectors [OF this, of "\<lambda>v. 0x100000 + 16 * of_nat v" "\<lambda>v. 0x101000" "0x106000"] show ?thesis
    by (simp add: Let_def) (drule conjunct1, drule spec [of _ 128], simp)
qed

section \<open>The panic screen\<close>

abbreviation hex_digits :: string where
  "hex_digits \<equiv> ''0123456789ABCDEF''"

lemma nibble_value: "unat (ucast (drop_bit k n AND 0xF :: u32) :: u8) = unat n div 2 ^ k mod 16"
proof -
  have "drop_bit k n AND 0xF = take_bit 4 (drop_bit k n)" unfolding byte_masks by (simp only: take_bit_eq_mask)
  then have "unat (ucast (drop_bit k n AND 0xF :: u32) :: u8) = take_bit 8 (take_bit 4 (drop_bit k (unat n)))"
    by (simp only: unsigned_ucast_eq unsigned_take_bit_eq unat_drop_bit_eq) simp
  then show ?thesis by (simp add: take_bit_eq_mod drop_bit_eq_div)
qed

lemma nibble_digit:
  assumes "unat b < 16"
  shows "nibble_char b = hex_digits ! unat b"
proof -
  obtain m where m: "m = unat b" by blast
  have "m < 16" using assms m by simp
  then have "m \<in> {0, 1, 2, 3, 4, 5, 6, 7, 8, 9, 10, 11, 12, 13, 14, 15}" by simp presburger
  moreover have "nibble_char b = (if m < 10 then char_of (48 + m) else char_of (65 + m - 10))"
    by (simp add: nibble_char_def word_less_nat_alt m)
  ultimately show ?thesis unfolding m [symmetric] by (elim insertE emptyE) (simp_all add: char_of_def bit_0)
qed

definition hex_text :: "u32 \<Rightarrow> string" where
  "hex_text n = ''0x'' @ map (\<lambda>i. hex_digits ! (unat n div 16 ^ i mod 16)) [7, 6, 5, 4, 3, 2, 1, 0]"

lemma hex_digit_plain: "v < 16 \<Longrightarrow> hex_digits ! v \<noteq> NUL"
proof -
  assume "v < 16"
  then have "hex_digits ! v \<in> set hex_digits" by (intro nth_mem) simp
  then show ?thesis by auto
qed

lemma hex_text_no_NUL: "NUL \<notin> set (hex_text n)"
proof -
  have "hex_digits ! (m mod 16) \<noteq> NUL" for m by (rule hex_digit_plain) simp
  then show ?thesis unfolding hex_text_def by (simp del: nth_Cons_numeral nth_Cons_0 nth_Cons_Suc) metis
qed

lemma hex_buffer_text: "cstr (hex_buffer n) = hex_text n"
proof -
  let ?d = "\<lambda>i. nibble_char (ucast (drop_bit (4 * i) n AND 0xF))"
  have d: "?d i = hex_digits ! (unat n div 16 ^ i mod 16)" for i
    using nibble_digit [of "ucast (drop_bit (4 * i) n AND 0xF)"] nibble_value [of "4 * i" n] by (simp add: power_mult)
  have "hex_buffer n = ''0x'' @ map ?d [7, 6, 5, 4, 3, 2, 1, 0] @ [NUL]"
    by (simp add: hex_buffer_def)
  also have "\<dots> = hex_text n @ [NUL]" unfolding d hex_text_def by simp
  finally show ?thesis using cstr_terminated [OF hex_text_no_NUL, of n "[]"] by simp
qed

lemma panic_print_str_eq: "panic_print_str s (t, line) = (fold terminal_putchar (cstr s) t, line @ cstr s)"
proof -
  have "fold (\<lambda>c (t, line). (terminal_putchar c t, serial_putc c line)) cs (t, line) = (fold terminal_putchar cs t, line @ cs)" for cs
    by (induction cs arbitrary: t line) (simp_all add: serial_putc_def)
  then show ?thesis by (simp add: panic_print_str_def)
qed

lemma panic_print_hex_eq: "panic_print_hex n (t, line) = (fold terminal_putchar (hex_text n) t, line @ hex_text n)"
  by (simp add: panic_print_hex_def panic_print_str_eq hex_buffer_text)

text \<open>The text of a panic screen.\<close>

definition register_text :: "registers \<Rightarrow> string" where
  "register_text r =
     newline # ''EIP: '' @ hex_text (r_eip r) @ ''  INT: '' @ hex_text (r_int_no r) @ ''  ERR: '' @ hex_text (r_err_code r) @
     newline # ''EAX: '' @ hex_text (r_eax r) @ ''  EBX: '' @ hex_text (r_ebx r) @ ''  ECX: '' @ hex_text (r_ecx r) @
     ''  EDX: '' @ hex_text (r_edx r)"

definition panic_text :: "string \<Rightarrow> registers option \<Rightarrow> string" where
  "panic_text message regs =
     [newline, newline] @ ''*** KERNEL PANIC ***'' @ [newline] @ cstr message @
     (case regs of None \<Rightarrow> [] | Some r \<Rightarrow> register_text r) @ newline # ''System halted.'' @ [newline]"

lemma panic_prints:
  "panic message regs (t, line) = (fold terminal_putchar (panic_text message regs) t, line @ panic_text message regs)"
  by (cases regs) (simp_all add: panic_def panic_text_def register_text_def panic_print_str_eq panic_print_hex_eq Let_def)

lemma panic_text_no_NUL: "NUL \<notin> set (panic_text message regs)"
  using hex_text_no_NUL by (cases regs) (simp_all add: panic_text_def register_text_def)

text \<open>
  An exception ends in a panic screen that tells the truth: below what was on the screen appear the name of the
  exception and the instruction pointer, vector, error code and general registers saved at the fault, each as eight
  hexadecimal digits, and the same text, with nothing missing, goes to the serial line.
\<close>

theorem exception_report:
  assumes "term_inv t"
  shows "let text = panic_text (if r_int_no regs < 32 then exception_names ! unat (r_int_no regs) else ''Unknown'') (Some regs) in
    case exception_handler regs (t, line) of (t', line') \<Rightarrow>
      line' = line @ text \<and> term_lines t' = fold spec_putc text (term_lines t) \<and> term_inv t'"
  using screen.print_refines [OF assms panic_text_no_NUL]
  by (simp only: exception_handler_def panic_prints Let_def prod.case)

definition fault_regs :: registers where
  "fault_regs = \<lparr>r_ds = 16, r_edi = 0, r_esi = 0, r_ebp = 0, r_esp = 0, r_ebx = 0, r_edx = 0, r_ecx = 0, r_eax = 0xCAFE,
     r_int_no = 14, r_err_code = 2, r_eip = 0x00101234, r_cs = 8, r_eflags = 0x202, r_useresp = 0, r_ss = 0\<rparr>"

lemma screen_cleared_inv: "term_inv (terminal_clear blank_screen)"
  by (rule terminal_clear_text(1) [OF blank_screen_vga])

theorem exception_report_witness:
  "snd (exception_handler fault_regs (terminal_clear blank_screen, [])) =
    [newline, newline] @ ''*** KERNEL PANIC ***'' @ [newline] @ ''Page Fault'' @ [newline] @ ''EIP: 0x00101234  INT: 0x0000000E  ERR: 0x00000002'' @
    [newline] @ ''EAX: 0x0000CAFE  EBX: 0x00000000  ECX: 0x00000000  EDX: 0x00000000'' @ [newline] @ ''System halted.'' @ [newline]"
proof -
  obtain t' line' where run: "exception_handler fault_regs (terminal_clear blank_screen, []) = (t', line')" by fastforce
  from exception_report [OF screen_cleared_inv, of fault_regs "[]"] run have
    "line' = panic_text (exception_names ! 14) (Some fault_regs)" by (simp add: Let_def fault_regs_def)
  then show ?thesis
    using run by (simp add: panic_text_def register_text_def fault_regs_def exception_names_def hex_text_def)
qed

end
