(* ===== verification/Errors.thy ===== *)
theory Errors
  imports Kernel_Prelude
begin

text \<open>
  \<^verbatim>\<open>error.h\<close> and \<^verbatim>\<open>error.c\<close>: the error codes every subsystem returns and their messages. A C
  enumeration may hold any integer, so \<open>error_to_string\<close> takes the number and has the default
  branch of the source; messages are UTF-8, with the accented letters written as their bytes.
\<close>

datatype error_t =
    E_OK | E_NOMEM | E_INVAL | E_BUSY | E_TIMEOUT | E_PERM | E_NOENT | E_EXIST | E_BADF
  | E_NOSPACE | E_DEADLK | E_UNKNOWN

fun error_code :: "error_t \<Rightarrow> u32" where
  "error_code E_OK = 0"
| "error_code E_NOMEM = 1"
| "error_code E_INVAL = 2"
| "error_code E_BUSY = 3"
| "error_code E_TIMEOUT = 4"
| "error_code E_PERM = 5"
| "error_code E_NOENT = 6"
| "error_code E_EXIST = 7"
| "error_code E_BADF = 8"
| "error_code E_NOSPACE = 9"
| "error_code E_DEADLK = 10"
| "error_code E_UNKNOWN = 11"

abbreviation e_grave :: string where
  "e_grave \<equiv> [CHR 0xC3, CHR 0xA8]"

abbreviation e_acute :: string where
  "e_acute \<equiv> [CHR 0xC3, CHR 0xA9]"

definition error_to_string :: "u32 \<Rightarrow> string" where
  "error_to_string err =
     (if err = 0 then ''OK (succ'' @ e_grave @ ''s)''
      else if err = 1 then ''NOMEM (pas de m'' @ e_acute @ ''moire)''
      else if err = 2 then ''INVAL (argument invalide)''
      else if err = 3 then ''BUSY (ressource occup'' @ e_acute @ ''e)''
      else if err = 4 then ''TIMEOUT (d'' @ e_acute @ ''lai expir'' @ e_acute @ '')''
      else if err = 5 then ''PERM (permission refus'' @ e_acute @ ''e)''
      else if err = 6 then ''NOENT (non trouv'' @ e_acute @ '')''
      else if err = 7 then ''EXIST (existe d'' @ e_acute @ ''j'' @ [CHR 0xC3, CHR 0xA0] @ '')''
      else if err = 8 then ''BADF (mauvais descripteur)''
      else if err = 9 then ''NOSPACE (espace insuffisant)''
      else if err = 10 then ''DEADLK (deadlock d'' @ e_acute @ ''tect'' @ e_acute @ '')''
      else if err = 11 then ''UNKNOWN (erreur inconnue)''
      else ''? (erreur non d'' @ e_acute @ ''finie)'')"

lemma error_code_inj: "error_code e = error_code e' \<longleftrightarrow> e = e'"
  by (cases e; cases e'; simp)

text \<open>The code alone tells which message is shown: the first word of each is different.\<close>

definition error_name :: "string \<Rightarrow> string" where
  "error_name msg = takeWhile (\<lambda>c. c \<noteq> CHR '' '') msg"

lemma error_name_inj:
  "error_name (error_to_string (error_code e)) = error_name (error_to_string (error_code e'))
    \<longleftrightarrow> e = e'"
  by (cases e; cases e'; simp add: error_to_string_def error_name_def)

end
