(* ===== verification/Privilege.thy ===== *)
theory Privilege
  imports Errors Logging
begin

text \<open>
  \<^verbatim>\<open>gdt.c\<close> and \<^verbatim>\<open>ring.c\<close>: the segment descriptors, the task state segment and the change to user mode. The
  descriptor table register and the task register are part of the state; the addresses of the tables are
  arguments.
\<close>

section \<open>Model\<close>

definition GDT_ENTRIES :: nat where
  "GDT_ENTRIES = 6"

record gdt_entry =
  limit_low :: u16
  base_low :: u16
  base_middle :: u8
  access :: u8
  granularity :: u8
  base_high :: u8

record tss =
  ts_prev :: u32
  ts_esp0 :: u32
  ts_ss0 :: u32
  ts_esp1 :: u32
  ts_ss1 :: u32
  ts_esp2 :: u32
  ts_ss2 :: u32
  ts_cr3 :: u32
  ts_eip :: u32
  ts_eflags :: u32
  ts_regs :: "u32 list"
  ts_es :: u32
  ts_cs :: u32
  ts_ss :: u32
  ts_ds :: u32
  ts_fs :: u32
  ts_gs :: u32
  ts_ldt :: u32
  ts_trap :: u16
  ts_iomap_base :: u16
  ts_iomap :: "u8 list"

text \<open>\<open>ts_regs\<close> are the eight registers eax, ecx, edx, ebx, esp, ebp, esi, edi. The packed size in bytes:\<close>

definition sizeof_tss :: u32 where
  "sizeof_tss = 4 * (10 + 8 + 7) + 2 + 2 + 8192"

record segments =
  gdt_entries :: "gdt_entry list"
  gdt_limit :: u16
  gdt_base :: u32
  gdtr :: "u16 \<times> u32"
  kernel_tss :: tss
  tss_selector :: u32
  task_register :: u16
  ring_log :: logging

definition gdt_set_gate :: "nat \<Rightarrow> u32 \<Rightarrow> u32 \<Rightarrow> u8 \<Rightarrow> u8 \<Rightarrow> segments \<Rightarrow> segments" where
  "gdt_set_gate num base limit acc gran s =
     (let e = (gdt_entries s ! num)\<lparr>base_low := ucast (base AND 0xFFFF),
            base_middle := ucast (drop_bit 16 base AND 0xFF), base_high := ucast (drop_bit 24 base AND 0xFF),
            limit_low := ucast (limit AND 0xFFFF), granularity := ucast (drop_bit 16 limit AND 0x0F)\<rparr>;
          e = e\<lparr>granularity := granularity e OR (gran AND 0xF0)\<rparr>;
          e = e\<lparr>access := acc\<rparr>
      in s\<lparr>gdt_entries := (gdt_entries s)[num := e]\<rparr>)"

definition gdt_flush :: "segments \<Rightarrow> segments" where
  "gdt_flush s = s\<lparr>gdtr := (gdt_limit s, gdt_base s)\<rparr>"

definition init_gdt :: "u32 \<Rightarrow> segments \<Rightarrow> segments" where
  "init_gdt table_at s =
     (let s = s\<lparr>gdt_limit := of_nat (8 * GDT_ENTRIES) - 1, gdt_base := table_at\<rparr>;
          s = gdt_set_gate 0 0 0 0 0 s;
          s = gdt_set_gate 1 0 0xFFFFFFFF 0x9A 0xCF s;
          s = gdt_set_gate 2 0 0xFFFFFFFF 0x92 0xCF s;
          s = gdt_set_gate 3 0 0xFFFFFFFF 0xFA 0xCF s;
          s = gdt_set_gate 4 0 0xFFFFFFFF 0xF2 0xCF s;
          s = gdt_set_gate 5 0 0 0 0 s
      in gdt_flush s)"

definition gdt_set_tss :: "u32 \<Rightarrow> u32 \<Rightarrow> segments \<Rightarrow> segments" where
  "gdt_set_tss base limit s = gdt_set_gate 5 base limit 0x89 0x00 s"

definition setup_tss :: "tss \<Rightarrow> tss" where
  "setup_tss t =
     (let t = \<lparr>ts_prev = 0, ts_esp0 = 0, ts_ss0 = 0, ts_esp1 = 0, ts_ss1 = 0, ts_esp2 = 0, ts_ss2 = 0, ts_cr3 = 0,
            ts_eip = 0, ts_eflags = 0, ts_regs = replicate 8 0, ts_es = 0, ts_cs = 0, ts_ss = 0, ts_ds = 0, ts_fs = 0,
            ts_gs = 0, ts_ldt = 0, ts_trap = 0, ts_iomap_base = 0, ts_iomap = map (\<lambda>_. 0) (ts_iomap t)\<rparr>;
          t = t\<lparr>ts_esp0 := 0x00400000, ts_ss0 := 0x10, ts_cr3 := 0, ts_eflags := 0x00000200\<rparr>;
          t = t\<lparr>ts_cs := 0x0B, ts_ss := 0x23, ts_ds := 0x23, ts_es := 0x23, ts_fs := 0x23, ts_gs := 0x23\<rparr>
      in t\<lparr>ts_iomap_base := ucast sizeof_tss, ts_trap := 0\<rparr>)"

abbreviation seg_msg :: "u32 \<Rightarrow> log_level \<Rightarrow> string \<Rightarrow> segments \<Rightarrow> segments" where
  "seg_msg ticks level msg s \<equiv> s\<lparr>ring_log := log_msg ticks level msg (ring_log s)\<rparr>"

definition ring_init :: "u32 \<Rightarrow> u32 \<Rightarrow> segments \<Rightarrow> error_t \<times> segments" where
  "ring_init tss_at ticks s =
     (let s = seg_msg ticks LOG_INFO ''Initialisation des anneaux x86'' s;
          s = s\<lparr>kernel_tss := setup_tss (kernel_tss s)\<rparr>;
          s = gdt_set_tss tss_at (sizeof_tss - 1) s;
          s = s\<lparr>tss_selector := 0x28\<rparr>;
          s = s\<lparr>task_register := ucast (tss_selector s)\<rparr>;
          s = seg_msg ticks LOG_INFO (''Anneaux x86 initialis'' @ e_acute @ ''s'') s
      in (E_OK, s))"

text \<open>
  The change to user mode: on the user stack the code stores the arguments and the entry point, and below them
  the image \<open>iret\<close> takes its registers from. The result is the state of the processor afterwards.
\<close>

record user_cpu =
  u_eip :: u32
  u_cs :: u32
  u_eflags :: u32
  u_esp :: u32
  u_ss :: u32

type_synonym stack_mem = "u32 \<Rightarrow> u32"

definition push :: "u32 \<Rightarrow> u32 \<times> stack_mem \<Rightarrow> u32 \<times> stack_mem" where
  "push v = (\<lambda>(sp, m). (sp - 4, m(sp - 4 := v)))"

definition iret :: "u32 \<times> stack_mem \<Rightarrow> user_cpu \<times> stack_mem" where
  "iret = (\<lambda>(sp, m). (\<lparr>u_eip = m sp, u_cs = m (sp + 4), u_eflags = m (sp + 8), u_esp = m (sp + 12), u_ss = m (sp + 16)\<rparr>, m))"

definition switch_to_ring3 :: "u32 \<Rightarrow> u32 \<Rightarrow> u32 \<Rightarrow> u32 \<Rightarrow> stack_mem \<Rightarrow> segments \<Rightarrow>
    (error_t + user_cpu \<times> stack_mem) \<times> segments" where
  "switch_to_ring3 ticks user_entry arg1 arg2 m s =
     (if user_entry = 0 then (Inl E_INVAL, s)
      else
        let s = seg_msg ticks LOG_DEBUG ''Basculement vers Ring 3 (User mode)'' s;
            esp3 = 0x10000000;
            stack = push user_entry (push arg1 (push arg2 (esp3, m)));
            image = push user_entry (push 0x1B (push 0x202 (push 0x10000000 (push 0x23 stack))))
        in (Inr (iret image), s))"

definition get_current_ring :: "u32 \<Rightarrow> u32" where
  "get_current_ring cs = cs AND 0x3"

definition is_user_accessible :: "u32 \<Rightarrow> u32 \<Rightarrow> bool" where
  "is_user_accessible addr len =
     (let user_base = 0x08000000; user_top = 0xC0000000 in
      if addr < user_base \<or> addr + len > user_top then False else True)"

section \<open>What the processor reads from a descriptor\<close>

definition seg_base :: "gdt_entry \<Rightarrow> u32" where
  "seg_base e = ucast (base_low e) OR push_bit 16 (ucast (base_middle e)) OR push_bit 24 (ucast (base_high e))"

text \<open>The limit is 20 bits, counted in pages when the granularity bit is set.\<close>

definition seg_limit :: "gdt_entry \<Rightarrow> u32" where
  "seg_limit e =
     (let lim = ucast (limit_low e) OR push_bit 16 (ucast (granularity e AND 0x0F)) in
      if bit (granularity e) 7 then push_bit 12 lim OR 0xFFF else lim)"

definition seg_dpl :: "gdt_entry \<Rightarrow> u8" where
  "seg_dpl e = drop_bit 5 (access e) AND 3"

abbreviation seg_present :: "gdt_entry \<Rightarrow> bool" where
  "seg_present e \<equiv> bit (access e) 7"

text \<open>Code and data segments, and the executable ones among them.\<close>

abbreviation seg_normal :: "gdt_entry \<Rightarrow> bool" where
  "seg_normal e \<equiv> bit (access e) 4"

abbreviation seg_code :: "gdt_entry \<Rightarrow> bool" where
  "seg_code e \<equiv> bit (access e) 3"

lemma seg_base_set:
  "num < length (gdt_entries s) \<Longrightarrow> seg_base (gdt_entries (gdt_set_gate num base limit acc gran s) ! num) = base"
  unfolding seg_base_def gdt_set_gate_def Let_def byte_masks
  apply (rule bit_eqI)
  subgoal for n by (cases "n < 24") (auto simp: bit_simps simp del: mask_numeral)
  done

lemma seg_limit_set:
  assumes "num < length (gdt_entries s)"
  shows "seg_limit (gdt_entries (gdt_set_gate num base limit acc gran s) ! num) =
    (if bit gran 7 then push_bit 12 (limit AND 0xFFFFF) OR 0xFFF else limit AND 0xFFFFF)"
proof -
  let ?e = "gdt_entries (gdt_set_gate num base limit acc gran s) ! num"
  have g: "granularity ?e = ucast (drop_bit 16 limit AND 0xF) OR (gran AND 0xF0)"
    and l: "limit_low ?e = ucast (limit AND 0xFFFF)" using assms by (simp_all add: gdt_set_gate_def)
  have "bit (granularity ?e) 7 = bit gran 7"
    unfolding g byte_masks by (auto simp: bit_simps simp del: mask_numeral)
  moreover have "ucast (limit_low ?e) OR push_bit 16 (ucast (granularity ?e AND 0xF)) = limit AND 0xFFFFF"
    unfolding g l byte_masks by (rule bit_eqI) (auto simp: bit_simps simp del: mask_numeral)
  ultimately show ?thesis by (simp add: seg_limit_def Let_def)
qed

lemma access_set:
  "num < length (gdt_entries s) \<Longrightarrow> access (gdt_entries (gdt_set_gate num base limit acc gran s) ! num) = acc"
  by (simp add: gdt_set_gate_def)

lemma set_gate_other [simp]:
  "i \<noteq> num \<Longrightarrow> gdt_entries (gdt_set_gate num base limit acc gran s) ! i = gdt_entries s ! i"
  "length (gdt_entries (gdt_set_gate num base limit acc gran s)) = length (gdt_entries s)"
  by (simp_all add: gdt_set_gate_def)

section \<open>Properties\<close>

text \<open>The segment a selector names, and the privilege it asks for.\<close>

definition selected :: "u32 \<Rightarrow> segments \<Rightarrow> gdt_entry" where
  "selected sel s = gdt_entries s ! unat (drop_bit 3 sel)"

definition flat_segment :: "bool \<Rightarrow> u8 \<Rightarrow> gdt_entry \<Rightarrow> bool" where
  "flat_segment code dpl e \<longleftrightarrow> seg_present e \<and> seg_normal e \<and> seg_code e = code \<and> seg_dpl e = dpl \<and>
     seg_base e = 0 \<and> seg_limit e = 0xFFFFFFFF"

lemma gate_flat:
  assumes "num < length (gdt_entries s)"
  shows "flat_segment True 0 (gdt_entries (gdt_set_gate num 0 0xFFFFFFFF 0x9A 0xCF s) ! num)"
    "flat_segment False 0 (gdt_entries (gdt_set_gate num 0 0xFFFFFFFF 0x92 0xCF s) ! num)"
    "flat_segment True 3 (gdt_entries (gdt_set_gate num 0 0xFFFFFFFF 0xFA 0xCF s) ! num)"
    "flat_segment False 3 (gdt_entries (gdt_set_gate num 0 0xFFFFFFFF 0xF2 0xCF s) ! num)"
proof -
  have b: "bit (0xCF :: u8) 7" "push_bit 12 (0xFFFFFFFF AND 0xFFFFF :: u32) OR 0xFFF = 0xFFFFFFFF"
    by (simp_all add: bit_iff_odd_drop_bit)
  show "flat_segment True 0 (gdt_entries (gdt_set_gate num 0 0xFFFFFFFF 0x9A 0xCF s) ! num)"
    "flat_segment False 0 (gdt_entries (gdt_set_gate num 0 0xFFFFFFFF 0x92 0xCF s) ! num)"
    "flat_segment True 3 (gdt_entries (gdt_set_gate num 0 0xFFFFFFFF 0xFA 0xCF s) ! num)"
    "flat_segment False 3 (gdt_entries (gdt_set_gate num 0 0xFFFFFFFF 0xF2 0xCF s) ! num)"
    unfolding flat_segment_def seg_dpl_def seg_base_set [OF assms] seg_limit_set [OF assms] access_set [OF assms]
    using b by (simp_all add: bit_iff_odd_drop_bit)
qed

text \<open>
  C34. The segments at work. After \<open>init_gdt\<close> and \<open>ring_init\<close> the selectors the kernel loads name what they should:
  0x08 and 0x10 flat 4 GB code and data of ring 0, 0x1B and 0x23 the same of ring 3, 0x28 (in the task register) the
  available 32-bit task state segment at the address of \<open>kernel_tss\<close> with exactly its size, whose ring 0 stack
  segment is the ring 0 data segment and whose I/O bitmap lies beyond the limit, so that ring 3 has no port.
\<close>

theorem segments_at_work:
  assumes "length (gdt_entries s) = 6"
  shows "let s' = snd (ring_init tss_at ticks (init_gdt table_at s)) in
    flat_segment True 0 (selected 0x08 s') \<and> flat_segment False 0 (selected 0x10 s') \<and>
    flat_segment True 3 (selected 0x1B s') \<and> flat_segment False 3 (selected 0x23 s') \<and>
    gdtr s' = (47, table_at) \<and> task_register s' = 0x28 \<and>
    seg_base (selected 0x28 s') = tss_at \<and> seg_limit (selected 0x28 s') = sizeof_tss - 1 \<and> access (selected 0x28 s') = 0x89 \<and>
    ts_ss0 (kernel_tss s') = 0x10 \<and> ts_esp0 (kernel_tss s') = 0x00400000 \<and>
    unat (ts_iomap_base (kernel_tss s')) > unat (seg_limit (selected 0x28 s'))"
proof -
  define s' where "s' = snd (ring_init tss_at ticks (init_gdt table_at s))"
  define s0 where "s0 = s\<lparr>gdt_limit := of_nat (8 * GDT_ENTRIES) - 1, gdt_base := table_at\<rparr>"
  define s1 where "s1 = gdt_set_gate 1 0 0xFFFFFFFF 0x9A 0xCF (gdt_set_gate 0 0 0 0 0 s0)"
  define s2 where "s2 = gdt_set_gate 2 0 0xFFFFFFFF 0x92 0xCF s1"
  define s3 where "s3 = gdt_set_gate 3 0 0xFFFFFFFF 0xFA 0xCF s2"
  define s4 where "s4 = gdt_set_gate 4 0 0xFFFFFFFF 0xF2 0xCF s3"
  define s5 where "s5 = gdt_set_gate 5 tss_at (sizeof_tss - 1) 0x89 0
    (seg_msg ticks LOG_INFO ''Initialisation des anneaux x86'' (gdt_flush (gdt_set_gate 5 0 0 0 0 s4)) \<lparr>kernel_tss := setup_tss (kernel_tss s)\<rparr>)"
  have len: "length (gdt_entries s0) = 6" "length (gdt_entries s1) = 6" "length (gdt_entries s2) = 6"
    "length (gdt_entries s3) = 6" "length (gdt_entries s4) = 6"
    using assms(1) by (simp_all add: s0_def s1_def s2_def s3_def s4_def)
  have s': "gdt_entries s' = gdt_entries s5" "gdtr s' = (47, table_at)" "task_register s' = 0x28"
    "kernel_tss s' = setup_tss (kernel_tss s)"
    unfolding s'_def ring_init_def init_gdt_def s5_def s4_def s3_def s2_def s1_def s0_def
    by (simp_all add: Let_def gdt_set_tss_def gdt_flush_def gdt_set_gate_def GDT_ENTRIES_def)
  have e: "gdt_entries s5 ! 1 = gdt_entries s1 ! 1" "gdt_entries s5 ! 2 = gdt_entries s2 ! 2"
    "gdt_entries s5 ! 3 = gdt_entries s3 ! 3" "gdt_entries s5 ! 4 = gdt_entries s4 ! 4"
    by (simp_all add: s5_def s4_def s3_def s2_def gdt_flush_def)
  have sel: "selected 0x08 s' = gdt_entries s5 ! 1" "selected 0x10 s' = gdt_entries s5 ! 2" "selected 0x1B s' = gdt_entries s5 ! 3"
    "selected 0x23 s' = gdt_entries s5 ! 4" "selected 0x28 s' = gdt_entries s5 ! 5"
    by (simp_all add: selected_def s')
  have tss: "seg_base (gdt_entries s5 ! 5) = tss_at" "access (gdt_entries s5 ! 5) = 0x89"
    "seg_limit (gdt_entries s5 ! 5) = sizeof_tss - 1"
    using len(5) by (simp_all add: s5_def seg_base_set access_set seg_limit_set gdt_flush_def sizeof_tss_def)
  have "flat_segment True 0 (gdt_entries s1 ! 1)" "flat_segment False 0 (gdt_entries s2 ! 2)"
    "flat_segment True 3 (gdt_entries s3 ! 3)" "flat_segment False 3 (gdt_entries s4 ! 4)"
    using len by (simp_all add: s1_def s2_def s3_def s4_def gate_flat)
  then show ?thesis
    unfolding s'_def [symmetric] Let_def sel e tss s' by (simp add: setup_tss_def sizeof_tss_def)
qed

definition raw_segments :: segments where
  "raw_segments = \<lparr>gdt_entries = replicate 6 \<lparr>limit_low = 7, base_low = 0, base_middle = 9, access = 0, granularity = 1, base_high = 3\<rparr>,
     gdt_limit = 0, gdt_base = 0, gdtr = (0, 0), kernel_tss = setup_tss \<lparr>ts_prev = 0, ts_esp0 = 0, ts_ss0 = 0, ts_esp1 = 0,
       ts_ss1 = 0, ts_esp2 = 0, ts_ss2 = 0, ts_cr3 = 0, ts_eip = 0, ts_eflags = 0, ts_regs = [], ts_es = 0, ts_cs = 0, ts_ss = 0,
       ts_ds = 0, ts_fs = 0, ts_gs = 0, ts_ldt = 0, ts_trap = 0, ts_iomap_base = 0, ts_iomap = []\<rparr>,
     tss_selector = 0, task_register = 0, ring_log = \<lparr>log_buffer = [], log_head = 0, log_count = 0, current_level = LOG_CRITICAL,
       serial_line = []\<rparr>\<rparr>"

theorem segments_at_work_witness:
  "let s' = snd (ring_init 0x105000 7 (init_gdt 0x104000 raw_segments)) in
    flat_segment True 3 (selected 0x1B s') \<and> seg_base (selected 0x28 s') = 0x105000"
proof -
  have "length (gdt_entries raw_segments) = 6" by (simp add: raw_segments_def)
  from segments_at_work [OF this, of "0x105000" 7 "0x104000"] show ?thesis by (simp add: Let_def)
qed

text \<open>
  C35. The check of user pointers. For a range that does not wrap, \<open>is_user_accessible\<close> holds exactly when the start
  and every byte lie in the user area 0x08000000 to 0xBFFFFFFF (or the range is empty and starts in the area or right
  behind it). A range whose end wraps round is accepted as soon as the wrapped end is small enough, although it covers
  kernel addresses.
\<close>

theorem user_pointer_check:
  "if unat addr + unat len < 2 ^ 32 then
     is_user_accessible addr len \<longleftrightarrow>
       (0x08000000 \<le> unat addr \<and> unat addr \<le> 0xC0000000 \<and> (\<forall>a\<in>{unat addr..<unat addr + unat len}. a \<le> 0xBFFFFFFF))
   else is_user_accessible addr len \<longleftrightarrow> 0x08000000 \<le> unat addr \<and> unat addr + unat len - 2 ^ 32 \<le> 0xC0000000"
proof -
  have acc: "is_user_accessible addr len \<longleftrightarrow> 0x08000000 \<le> unat addr \<and> unat (addr + len) \<le> 0xC0000000"
    by (auto simp: is_user_accessible_def word_less_nat_alt)
  have r: "unat addr < 2 ^ 32" "unat len < 2 ^ 32" by (rule unat_u32)+
  show ?thesis
  proof (cases "unat addr + unat len < 2 ^ 32")
    case True
    have "(\<forall>a\<in>{unat addr..<unat addr + unat len}. a \<le> 0xBFFFFFFF) \<longleftrightarrow> unat len = 0 \<or> unat addr + unat len \<le> 0xC0000000"
    proof (cases "unat len = 0")
      case False
      then have "unat addr + unat len - 1 \<in> {unat addr..<unat addr + unat len}" by auto
      with False show ?thesis by fastforce
    qed simp
    with True show ?thesis unfolding acc unat_u32_plus [OF True] by auto
  next
    case False
    then have "unat (addr + len) = unat addr + unat len - 2 ^ 32"
      using r by (simp add: unat_word_ariths mod_if)
    with False show ?thesis unfolding acc by simp
  qed
qed

theorem user_pointer_check_witness:
  "is_user_accessible 0x08000000 0x1000 \<and> \<not> is_user_accessible 0xBFFFFFFF 2 \<and> is_user_accessible 0xFFFFFFF0 0x20"
  using user_pointer_check [of "0x08000000" "0x1000"] user_pointer_check [of "0xBFFFFFFF" "2"]
    user_pointer_check [of "0xFFFFFFF0" "0x20"] by simp (rule bexI [of _ "3221225472"], simp_all)

text \<open>
  The change to user mode: a null entry point is refused; otherwise the processor goes on at the entry point in
  ring 3 code and stack segments, with interrupts enabled and the stack pointer at 0x10000000. The two arguments are
  stored below that stack pointer: where a C function looks for them the memory is as it was.
\<close>

theorem ring3_entry:
  "case switch_to_ring3 ticks user_entry arg1 arg2 m s of
     (Inl e, s') \<Rightarrow> user_entry = 0 \<and> e = E_INVAL \<and> s' = s
   | (Inr (cpu, m'), s') \<Rightarrow> user_entry \<noteq> 0 \<and> u_eip cpu = user_entry \<and> u_cs cpu = 0x1B \<and> get_current_ring (u_cs cpu) = 3 \<and>
       u_ss cpu = 0x23 \<and> bit (u_eflags cpu) 9 \<and> u_esp cpu = 0x10000000 \<and>
       m' (u_esp cpu - 4) = arg2 \<and> m' (u_esp cpu - 8) = arg1 \<and> m' (u_esp cpu + 4) = m (u_esp cpu + 4) \<and> m' (u_esp cpu + 8) = m (u_esp cpu + 8)"
  by (simp add: switch_to_ring3_def push_def iret_def get_current_ring_def bit_iff_odd_drop_bit)

end
