(* ===== verification/Queue.thy ===== *)
theory Queue
  imports Mutex Ring_Buffer
begin

text \<open>
  \<^verbatim>\<open>queue.c\<close>: the fixed-size message queue between the two demonstration tasks. Every operation
  takes the lock first; \<open>w\<close> is what the other tasks do while the caller waits for it and \<open>cur\<close>
  is the task that \<open>get_current_task()\<close> returns.
\<close>

section \<open>Model\<close>

definition QUEUE_SIZE :: nat where
  "QUEUE_SIZE = 8"

record queue =
  q_data :: "u32 list"
  q_head :: nat
  q_tail :: nat
  q_count :: nat
  q_lock :: mutex

abbreviation queue_lock :: "task_ptr \<Rightarrow> queue interference \<Rightarrow> queue \<Rightarrow> queue option" where
  "queue_lock \<equiv> mutex_lock q_lock (\<lambda>m q. q\<lparr>q_lock := m\<rparr>)"

abbreviation queue_unlock :: "task_ptr \<Rightarrow> queue \<Rightarrow> queue" where
  "queue_unlock cur q \<equiv> q\<lparr>q_lock := mutex_unlock cur (q_lock q)\<rparr>"

definition queue_init :: "queue \<Rightarrow> queue" where
  "queue_init q = q\<lparr>q_head := 0, q_tail := 0, q_count := 0, q_lock := mutex_init (q_lock q)\<rparr>"

definition queue_push ::
  "task_ptr \<Rightarrow> queue interference \<Rightarrow> u32 \<Rightarrow> queue \<Rightarrow> (bool \<times> queue) option" where
  "queue_push cur w val q = do {
     q \<leftarrow> queue_lock cur w q;
     if q_count q \<ge> QUEUE_SIZE then Some (False, queue_unlock cur q)
     else do {
       let q = q\<lparr>q_data := (q_data q)[q_tail q := val]\<rparr>;
       let q = q\<lparr>q_tail := (q_tail q + 1) mod QUEUE_SIZE\<rparr>;
       let q = q\<lparr>q_count := q_count q + 1\<rparr>;
       Some (True, queue_unlock cur q)
     }
   }"

text \<open>The result carries what is stored through the pointer \<open>val\<close>, when something is.\<close>

definition queue_pop ::
  "task_ptr \<Rightarrow> queue interference \<Rightarrow> queue \<Rightarrow> (u32 option \<times> queue) option" where
  "queue_pop cur w q = do {
     q \<leftarrow> queue_lock cur w q;
     if q_count q = 0 then Some (None, queue_unlock cur q)
     else do {
       let val = q_data q ! q_head q;
       let q = q\<lparr>q_head := (q_head q + 1) mod QUEUE_SIZE\<rparr>;
       let q = q\<lparr>q_count := q_count q - 1\<rparr>;
       Some (Some val, queue_unlock cur q)
     }
   }"

section \<open>Invariant and abstraction\<close>

definition queue_inv :: "queue \<Rightarrow> bool" where
  "queue_inv q \<longleftrightarrow> length (q_data q) = QUEUE_SIZE \<and> q_head q < QUEUE_SIZE \<and>
     q_count q \<le> QUEUE_SIZE \<and> q_tail q = (q_head q + q_count q) mod QUEUE_SIZE \<and>
     mutex_free (q_lock q)"

definition queue_list :: "queue \<Rightarrow> u32 list" where
  "queue_list q = rb_list (q_data q) (q_head q) (q_count q)"

interpretation qlock: mutex_guarded q_lock "\<lambda>m q. q\<lparr>q_lock := m\<rparr>"
  by unfold_locales simp_all

lemma queue_init_inv [kinv]: "length (q_data q) = QUEUE_SIZE \<Longrightarrow> queue_inv (queue_init q)"
  by (simp add: queue_inv_def queue_init_def QUEUE_SIZE_def)

lemma queue_init_empty: "queue_list (queue_init q) = []"
  by (simp add: queue_list_def queue_init_def)

lemma queue_push_room:
  assumes "queue_inv q" and "q_count q < QUEUE_SIZE"
  shows "queue_push cur w v q = Some (True,
    q\<lparr>q_data := (q_data q)[q_tail q := v], q_tail := (q_tail q + 1) mod QUEUE_SIZE,
      q_count := q_count q + 1\<rparr>)"
  using assms qlock.lock_free [of q cur w]
  by (simp add: queue_push_def queue_inv_def mutex_unlock_def mutex_free_eq)

lemma queue_push_full:
  assumes "queue_inv q" and "q_count q = QUEUE_SIZE"
  shows "queue_push cur w v q = Some (False, q)"
  using assms qlock.lock_free [of q cur w]
  by (simp add: queue_push_def queue_inv_def mutex_unlock_def mutex_free_eq)

lemma queue_pop_some:
  assumes "queue_inv q" and "0 < q_count q"
  shows "queue_pop cur w q = Some (Some (q_data q ! q_head q),
    q\<lparr>q_head := (q_head q + 1) mod QUEUE_SIZE, q_count := q_count q - 1\<rparr>)"
  using assms qlock.lock_free [of q cur w]
  by (simp add: queue_pop_def queue_inv_def mutex_unlock_def mutex_free_eq)

lemma queue_pop_empty:
  assumes "queue_inv q" and "q_count q = 0"
  shows "queue_pop cur w q = Some (None, q)"
  using assms qlock.lock_free [of q cur w]
  by (simp add: queue_pop_def queue_inv_def mutex_unlock_def mutex_free_eq)

lemma queue_list_push:
  assumes "queue_inv q" and "q_count q < QUEUE_SIZE"
  shows "queue_list (q\<lparr>q_data := (q_data q)[q_tail q := v], q_tail := (q_tail q + 1) mod QUEUE_SIZE,
      q_count := q_count q + 1\<rparr>) = queue_list q @ [v]"
  using assms rb_list_push [of "q_count q" "q_data q" "q_head q" v]
  by (simp add: queue_list_def queue_inv_def)

lemma queue_inv_push [kinv]:
  assumes "queue_inv q" and "q_count q < QUEUE_SIZE"
  shows "queue_inv (q\<lparr>q_data := (q_data q)[q_tail q := v], q_tail := (q_tail q + 1) mod QUEUE_SIZE,
      q_count := q_count q + 1\<rparr>)"
  using assms by (simp add: queue_inv_def mod_Suc_eq)

lemma queue_list_pop:
  assumes "queue_inv q" and "0 < q_count q"
  shows "queue_list q = q_data q ! q_head q #
    queue_list (q\<lparr>q_head := (q_head q + 1) mod QUEUE_SIZE, q_count := q_count q - 1\<rparr>)"
  using assms rb_list_pop [of "q_count q" "q_head q" "q_data q"]
  by (simp add: queue_list_def queue_inv_def)

lemma queue_inv_pop [kinv]:
  assumes "queue_inv q" and "0 < q_count q"
  shows "queue_inv (q\<lparr>q_head := (q_head q + 1) mod QUEUE_SIZE, q_count := q_count q - 1\<rparr>)"
  using assms rb_end_pop [of "q_count q" "q_head q" QUEUE_SIZE]
  by (auto simp: queue_inv_def intro!: mod_less_divisor)

section \<open>The queue is a bounded queue\<close>

text \<open>The two operations in the shape of the interface: a refusal is \<open>None\<close>.\<close>

definition queue_put :: "task_ptr \<Rightarrow> queue interference \<Rightarrow> u32 \<Rightarrow> queue \<Rightarrow> queue option" where
  "queue_put cur w v q = (case queue_push cur w v q of Some (True, q') \<Rightarrow> Some q' | _ \<Rightarrow> None)"

definition queue_take :: "task_ptr \<Rightarrow> queue interference \<Rightarrow> queue \<Rightarrow> (u32 \<times> queue) option" where
  "queue_take cur w q = (case queue_pop cur w q of Some (Some v, q') \<Rightarrow> Some (v, q') | _ \<Rightarrow> None)"

interpretation qfifo: bounded_fifo QUEUE_SIZE queue_list queue_inv "queue_put cur w" "queue_take cur w"
proof
  fix s :: queue and x :: u32 and xs
  assume inv: "queue_inv s"
  show "length (queue_list s) \<le> QUEUE_SIZE"
    using inv by (simp add: queue_list_def queue_inv_def)
  show "\<exists>s'. queue_put cur w x s = Some s' \<and> queue_inv s' \<and> queue_list s' = queue_list s @ [x]"
    if "length (queue_list s) < QUEUE_SIZE"
  proof -
    from that have "q_count s < QUEUE_SIZE" by (simp add: queue_list_def)
    with inv show ?thesis
      by (auto simp: queue_put_def queue_push_room queue_list_push [simplified]
          intro: queue_inv_push [simplified])
  qed
  show "queue_put cur w x s = None" if "length (queue_list s) = QUEUE_SIZE"
    using that inv by (simp add: queue_put_def queue_push_full queue_list_def)
  show "\<exists>s'. queue_take cur w s = Some (x, s') \<and> queue_inv s' \<and> queue_list s' = xs"
    if "queue_list s = x # xs"
  proof -
    from that have "0 < q_count s" by (cases "q_count s") (auto simp: queue_list_def)
    with inv that show ?thesis
      using queue_list_pop [of s] queue_inv_pop [of s] by (auto simp: queue_take_def queue_pop_some)
  qed
  show "queue_take cur w s = None" if "queue_list s = []"
  proof -
    from that have "q_count s = 0" by (metis length_rb_list list.size(3) queue_list_def)
    with inv show ?thesis by (simp add: queue_take_def queue_pop_empty)
  qed
qed

text \<open>
  \<open>queue_push\<close> always returns on a well-formed queue, whatever the other tasks do: it stores the
  value at the end when fewer than \<open>QUEUE_SIZE\<close> values are stored, refuses and changes nothing
  otherwise, and keeps the queue well-formed.
\<close>

lemma queue_push_correct:
  assumes "queue_inv q"
  shows "\<exists>ok q'. queue_push cur w v q = Some (ok, q') \<and> queue_inv q' \<and>
     ok = (length (queue_list q) < QUEUE_SIZE) \<and>
     queue_list q' = (if ok then queue_list q @ [v] else queue_list q)"
proof (cases "q_count q < QUEUE_SIZE")
  case True
  with assms show ?thesis
    using queue_push_room [of q cur w v] queue_list_push [of q v] queue_inv_push [of q v]
    by (auto simp: queue_list_def)
next
  case False
  with assms have "q_count q = QUEUE_SIZE" by (simp add: queue_inv_def)
  with assms show ?thesis
    using queue_push_full [of q cur w v] by (auto simp: queue_list_def)
qed

text \<open>\<open>queue_pop\<close> always returns too, with the oldest value when there is one.\<close>

lemma queue_pop_correct:
  assumes "queue_inv q"
  shows "\<exists>q'. queue_pop cur w q = Some (case queue_list q of [] \<Rightarrow> None | v # vs \<Rightarrow> Some v, q') \<and> queue_inv q' \<and>
     queue_list q' = tl (queue_list q)"
proof (cases "q_count q = 0")
  case True
  then have "queue_list q = []" by (simp add: queue_list_def)
  with True assms show ?thesis by (simp add: queue_pop_empty)
next
  case False
  with assms show ?thesis using queue_pop_some [of q cur w] queue_list_pop [of q] queue_inv_pop [of q] by simp
qed

definition empty_queue :: queue where
  "empty_queue = queue_init \<lparr>q_data = replicate QUEUE_SIZE 0, q_head = 3, q_tail = 5, q_count = 9,
     q_lock = \<lparr>locked = 1, owner = 4\<rparr>\<rparr>"

lemma empty_queue_inv: "queue_inv empty_queue"
  by (simp add: empty_queue_def kinv)

lemma queue_push_example:
  "\<exists>ok q'. queue_push 1 [] 42 empty_queue = Some (ok, q') \<and> queue_inv q' \<and>
     ok = (length (queue_list empty_queue) < QUEUE_SIZE) \<and>
     queue_list q' = (if ok then queue_list empty_queue @ [42] else queue_list empty_queue)"
  by (rule queue_push_correct [OF empty_queue_inv])



end
