(* ===== verification/Heap_Blocks.thy ===== *)
theory Heap_Blocks
  imports Kernel_Prelude
begin

text \<open>
  The abstract specification of the kernel heap: a sequence of blocks that tile a region of memory.
  A block is its payload size and whether it is free; its header takes \<open>HDR\<close> bytes in front of the
  payload, so the address of each block follows from the sizes before it. First-fit allocation with
  splitting, and freeing with coalescing, are list functions here; \<^verbatim>\<open>heap.c\<close>, which works on linked
  headers in memory, is shown to implement them in theory \<open>Heap\<close>.
\<close>

definition HDR :: nat where
  "HDR = 12"

type_synonym block = "nat \<times> bool"

fun extent :: "block list \<Rightarrow> nat" where
  "extent [] = 0"
| "extent ((n, f) # bs) = HDR + n + extent bs"

text \<open>The payloads in use, as address and length.\<close>

fun in_use :: "nat \<Rightarrow> block list \<Rightarrow> (nat \<times> nat) set" where
  "in_use a [] = {}"
| "in_use a ((n, f) # bs) = (if f then {} else {(a + HDR, n)}) \<union> in_use (a + HDR + n) bs"

fun used_bytes :: "block list \<Rightarrow> nat" where
  "used_bytes [] = 0"
| "used_bytes ((n, f) # bs) = (if f then 0 else n + HDR) + used_bytes bs"

fun coalesced :: "block list \<Rightarrow> bool" where
  "coalesced ((n, f) # (m, g) # bs) = (\<not> (f \<and> g) \<and> coalesced ((m, g) # bs))"
| "coalesced _ = True"

fun first_fit :: "nat \<Rightarrow> nat \<Rightarrow> block list \<Rightarrow> nat option \<times> block list" where
  "first_fit sz a [] = (None, [])"
| "first_fit sz a ((n, f) # bs) =
     (if f \<and> sz \<le> n
      then (Some (a + HDR),
            if sz + HDR + 16 \<le> n then (sz, False) # (n - sz - HDR, True) # bs
            else (n, False) # bs)
      else (let (r, bs') = first_fit sz (a + HDR + n) bs in (r, (n, f) # bs')))"

fun mark_free :: "nat \<Rightarrow> nat \<Rightarrow> block list \<Rightarrow> block list" where
  "mark_free p a [] = []"
| "mark_free p a ((n, f) # bs) =
     (if a + HDR = p then (n, True) # bs else (n, f) # mark_free p (a + HDR + n) bs)"

fun merge_free :: "block list \<Rightarrow> block list" where
  "merge_free ((n, f) # (m, g) # bs) =
     (if f \<and> g then merge_free ((n + HDR + m, True) # bs) else (n, f) # merge_free ((m, g) # bs))"
| "merge_free bs = bs"

section \<open>Regions\<close>

lemma in_use_above: "(p, n) \<in> in_use a bs \<Longrightarrow> a + HDR \<le> p \<and> p + n \<le> a + extent bs"
  by (induction a bs rule: in_use.induct) (auto split: if_splits)

text \<open>Two payloads in use do not overlap.\<close>

lemma in_use_disjoint:
  "(p, n) \<in> in_use a bs \<Longrightarrow> (q, m) \<in> in_use a bs \<Longrightarrow> (p, n) \<noteq> (q, m) \<Longrightarrow> p + n \<le> q \<or> q + m \<le> p"
proof (induction a bs rule: in_use.induct)
  case (2 a k f bs)
  show ?case
  proof (cases "(p, n) = (a + HDR, k) \<or> (q, m) = (a + HDR, k)")
    case True
    with 2 show ?thesis
      using in_use_above [of p n "a + HDR + k" bs] in_use_above [of q m "a + HDR + k" bs]
      by (auto split: if_splits)
  next
    case False
    with 2 show ?thesis by (auto split: if_splits)
  qed
qed simp

lemma in_use_start_unique:
  assumes "(p, n) \<in> in_use a bs" and "(p, m) \<in> in_use a bs"
  shows "n = m"
  using assms
proof (induction a bs rule: in_use.induct)
  case (2 a k f bs)
  then show ?case
    using in_use_above [of p n "a + HDR + k" bs] in_use_above [of p m "a + HDR + k" bs]
    by (auto split: if_splits simp: HDR_def)
qed simp

lemma in_use_behind: "(a + HDR, k) \<notin> in_use (a + HDR + n) bs"
  using in_use_above [of "a + HDR" k "a + HDR + n" bs] by (auto simp: HDR_def)

section \<open>Allocation\<close>

lemma first_fit_None:
  "fst (first_fit sz a bs) = None \<longleftrightarrow> (\<forall>(n, f)\<in>set bs. \<not> (f \<and> sz \<le> n))"
  by (induction sz a bs rule: first_fit.induct) (auto simp: Let_def split: prod.splits)

lemma first_fit_None_same: "first_fit sz a bs = (None, bs') \<Longrightarrow> bs' = bs"
  by (induction sz a bs arbitrary: bs' rule: first_fit.induct)
    (auto simp: Let_def split: prod.splits if_splits)

lemma first_fit_Nil [simp]: "snd (first_fit sz a bs) = [] \<longleftrightarrow> bs = []"
  by (induction sz a bs rule: first_fit.induct) (auto simp: Let_def split: prod.splits)

lemma first_fit_extent: "extent (snd (first_fit sz a bs)) = extent bs"
  by (induction sz a bs rule: first_fit.induct) (auto simp: Let_def split: prod.splits)

lemma first_fit_in_use:
  "first_fit sz a bs = (Some p, bs') \<Longrightarrow>
    \<exists>n. sz \<le> n \<and> n < sz + HDR + 16 \<and> in_use a bs' = insert (p, n) (in_use a bs) \<and>
      (p, n) \<notin> in_use a bs"
proof (induction sz a bs arbitrary: bs' rule: first_fit.induct)
  case (2 sz a n f bs)
  show ?case
  proof (cases "f \<and> sz \<le> n")
    case True
    then have p: "p = a + HDR" using 2(2) by simp
    show ?thesis
    proof (cases "sz + HDR + 16 \<le> n")
      case split: True
      then have "bs' = (sz, False) # (n - sz - HDR, True) # bs" using 2(2) True by simp
      moreover have "a + HDR + sz + HDR + (n - sz - HDR) = a + HDR + n" using split by simp
      ultimately have "in_use a bs' = insert (p, sz) (in_use a ((n, f) # bs))"
        using True p by (simp add: add.assoc)
      with True p in_use_behind show ?thesis by (intro exI [of _ sz]) (simp add: HDR_def)
    next
      case False
      then have "bs' = (n, False) # bs" using 2(2) True by simp
      with True False p in_use_behind show ?thesis by (intro exI [of _ n]) simp
    qed
  next
    case False
    then obtain bs1 where b: "first_fit sz (a + HDR + n) bs = (Some p, bs1)" "bs' = (n, f) # bs1"
      using 2(2) by (auto simp: Let_def split: prod.splits)
    from 2(1) [OF False b(1)] obtain k where k: "sz \<le> k" "k < sz + HDR + 16"
      "in_use (a + HDR + n) bs1 = insert (p, k) (in_use (a + HDR + n) bs)"
      "(p, k) \<notin> in_use (a + HDR + n) bs" by blast
    have "(p, k) \<in> in_use (a + HDR + n) bs1" using k by simp
    then have "p \<noteq> a + HDR" using in_use_above [of p k "a + HDR + n" bs1] by (auto simp: HDR_def)
    with k b(2) show ?thesis by (intro exI [of _ k]) auto
  qed
qed simp

lemma first_fit_coalesced: "coalesced bs \<Longrightarrow> coalesced (snd (first_fit sz a bs))"
proof (induction sz a bs rule: first_fit.induct)
  case (2 sz a n f bs)
  show ?case
  proof (cases "f \<and> sz \<le> n")
    case True
    with 2(2) show ?thesis by (cases bs rule: coalesced.cases) auto
  next
    case False
    then show ?thesis
    proof (cases bs)
      case Nil
      with False show ?thesis by (auto simp: Let_def)
    next
      case (Cons b bs1)
      obtain m g where b: "b = (m, g)" by (cases b)
      have "coalesced (snd (first_fit sz (a + HDR + n) bs))"
        using 2 False Cons b by simp
      with 2(2) False Cons b show ?thesis
        by (auto simp: Let_def split: prod.splits if_splits)
    qed
  qed
qed simp

section \<open>Freeing\<close>

lemma mark_free_extent [simp]: "extent (mark_free p a bs) = extent bs"
  by (induction p a bs rule: mark_free.induct) auto

lemma mark_free_Nil [simp]: "mark_free p a bs = [] \<longleftrightarrow> bs = []"
  by (cases "(p, a, bs)" rule: mark_free.cases) auto

lemma mark_free_in_use: "in_use a (mark_free p a bs) = {r \<in> in_use a bs. fst r \<noteq> p}"
proof (induction p a bs rule: mark_free.induct)
  case (2 p a n f bs)
  show ?case
  proof (cases "a + HDR = p")
    case True
    have rest: "{r \<in> in_use (a + HDR + n) bs. fst r \<noteq> a + HDR} = in_use (a + HDR + n) bs"
      using in_use_behind by fastforce
    have "{r \<in> in_use a ((n, f) # bs). fst r \<noteq> a + HDR} =
        {r \<in> in_use (a + HDR + n) bs. fst r \<noteq> a + HDR}"
      by auto
    also have "\<dots> = in_use a (mark_free (a + HDR) a ((n, f) # bs))"
      by (simp add: rest)
    finally show ?thesis unfolding True by (rule sym)
  next
    case False
    have "{r \<in> insert (a + HDR, n) R. fst r \<noteq> p} = insert (a + HDR, n) {r \<in> R. fst r \<noteq> p}" for R
      using False by auto
    with 2 [OF False] False show ?thesis by (cases f) simp_all
  qed
qed simp

lemma merge_free_extent [simp]: "extent (merge_free bs) = extent bs"
  by (induction bs rule: merge_free.induct) auto

lemma merge_free_in_use [simp]: "in_use a (merge_free bs) = in_use a bs"
  by (induction bs arbitrary: a rule: merge_free.induct) (auto simp: add.assoc)

lemma merge_free_Nil [simp]: "merge_free bs = [] \<longleftrightarrow> bs = []"
  by (induction bs rule: merge_free.induct) auto

lemma merge_free_hd: "bs \<noteq> [] \<Longrightarrow> snd (hd (merge_free bs)) = snd (hd bs)"
  by (induction bs rule: merge_free.induct) auto

lemma merge_free_coalesced [simp]: "coalesced (merge_free bs)"
proof (induction bs rule: merge_free.induct)
  case (1 n f m g bs)
  show ?case
  proof (cases "f \<and> g")
    case True
    with 1 show ?thesis by simp
  next
    case False
    obtain k h cs where c: "merge_free ((m, g) # bs) = (k, h) # cs"
      using merge_free_Nil [of "(m, g) # bs"] by (metis list.exhaust list.distinct(1) surj_pair)
    then have "h = g" using merge_free_hd [of "(m, g) # bs"] by simp
    with 1 False c show ?thesis by auto
  qed
qed auto

lemma merge_free_id: "coalesced bs \<Longrightarrow> merge_free bs = bs"
  by (induction bs rule: merge_free.induct) auto

text \<open>
  Freeing what was just allocated gives the block sequence back: the split is undone because a
  coalesced sequence has no free neighbour in front of the block.
\<close>

lemma merge_free_used_tail:
  "xs \<noteq> [] \<Longrightarrow> \<not> snd (hd xs) \<Longrightarrow> merge_free ((n, f) # xs) = (n, f) # merge_free xs"
  by (cases xs) auto

lemma merge_free_used_head: "merge_free ((n, False) # xs) = (n, False) # merge_free xs"
  by (cases xs) auto

lemma free_after_alloc:
  "coalesced bs \<Longrightarrow> first_fit sz a bs = (Some p, bs') \<Longrightarrow> merge_free (mark_free p a bs') = bs"
proof (induction sz a bs arbitrary: bs' rule: first_fit.induct)
  case (2 sz a n f bs)
  show ?case
  proof (cases "f \<and> sz \<le> n")
    case True
    have "merge_free ((n, True) # bs) = (n, True) # bs"
      using 2(2) True by (intro merge_free_id) simp
    with 2(3) True show ?thesis
      by (auto split: if_splits)
  next
    case False
    obtain bs1 where b: "first_fit sz (a + HDR + n) bs = (Some p, bs1)" "bs' = (n, f) # bs1"
      using 2(3) False by (auto simp: Let_def split: prod.splits)
    have ne: "bs \<noteq> []" using b(1) by (cases bs) auto
    then obtain m g cs where bs: "bs = (m, g) # cs" by (cases bs) auto
    have "p \<in> fst ` in_use (a + HDR + n) bs1"
      using first_fit_in_use [OF b(1)] by force
    then have p: "a + HDR + n + HDR \<le> p"
      using in_use_above [of p _ "a + HDR + n" bs1] by force
    have IH: "merge_free (mark_free p (a + HDR + n) bs1) = bs"
      using 2(1) [OF False _ b(1)] 2(2) bs by simp
    show ?thesis
    proof (cases f)
      case True
      then have g: "\<not> g" using 2(2) bs by simp
      then obtain cs1 where "bs1 = (m, g) # cs1"
        using b(1) bs by (auto simp: Let_def split: prod.splits)
      then have "merge_free ((n, f) # mark_free p (a + HDR + n) bs1) =
          (n, f) # merge_free (mark_free p (a + HDR + n) bs1)"
        using g IH bs merge_free_hd [of "mark_free p (a + HDR + n) bs1"]
        by (intro merge_free_used_tail) auto
      with IH b(2) p show ?thesis by (simp add: HDR_def)
    next
      case False
      with IH b(2) p show ?thesis by (simp add: HDR_def merge_free_used_head)
    qed
  qed
qed simp

section \<open>Accounting\<close>

lemma used_bytes_le: "used_bytes bs \<le> extent bs"
  by (induction bs rule: used_bytes.induct) auto

section \<open>Alignment\<close>

definition aligned :: "block list \<Rightarrow> bool" where
  "aligned bs \<longleftrightarrow> list_all (\<lambda>(n, f). 4 dvd n) bs"

lemma aligned_simps [simp]:
  "aligned []" "aligned ((n, f) # bs) \<longleftrightarrow> 4 dvd n \<and> aligned bs"
  by (simp_all add: aligned_def)

lemma HDR_dvd: "4 dvd HDR"
  by (simp add: HDR_def)

lemma first_fit_aligned: "aligned bs \<Longrightarrow> 4 dvd sz \<Longrightarrow> aligned (snd (first_fit sz a bs))"
proof (induction sz a bs rule: first_fit.induct)
  case (2 sz a n f bs)
  have "sz + HDR + 16 \<le> n \<Longrightarrow> 4 dvd n \<Longrightarrow> 4 dvd n - sz - HDR"
    using 2(3) by (intro dvd_diff_nat) (simp_all add: HDR_dvd)
  with 2 show ?case by (auto simp: Let_def split: prod.splits)
qed simp

lemma mark_free_aligned: "aligned bs \<Longrightarrow> aligned (mark_free p a bs)"
  by (induction p a bs rule: mark_free.induct) auto

lemma merge_free_aligned: "aligned bs \<Longrightarrow> aligned (merge_free bs)"
  by (induction bs rule: merge_free.induct) (auto simp: HDR_dvd)

lemma in_use_aligned: "aligned bs \<Longrightarrow> 4 dvd a \<Longrightarrow> (p, n) \<in> in_use a bs \<Longrightarrow> 4 dvd p \<and> 4 dvd n"
  by (induction a bs rule: in_use.induct) (auto simp: HDR_dvd split: if_splits)

end
