(* ===== verification/Heap.thy ===== *)
theory Heap
  imports Heap_Blocks Mutex
begin

text \<open>
  \<^verbatim>\<open>heap.c\<close>: the kernel allocator. Memory is a total map from 32-bit addresses to the header found
  there (on i686 a header is three 4-byte words, 12 bytes), so the linked list is walked by
  following addresses as the C code does, and arithmetic on sizes and addresses wraps at 32 bits.
  A walk over a list that never ends does not return (\<open>None\<close>). Clients are taken not to write
  outside the payloads they were given.
\<close>

section \<open>Model\<close>

definition HEAP_START :: u32 where
  "HEAP_START = 0x01000000"

definition HEAP_SIZE :: u32 where
  "HEAP_SIZE = 1024 * 1024 * 4"

text \<open>\<open>sizeof(header_t)\<close>.\<close>

abbreviation HSIZE :: u32 where
  "HSIZE \<equiv> 12"

record header =
  h_size :: u32
  h_is_free :: u32
  h_next :: u32

type_synonym memory = "u32 \<Rightarrow> header"

record heap =
  h_mem :: memory
  heap_mutex :: mutex

abbreviation heap_lock :: "task_ptr \<Rightarrow> heap interference \<Rightarrow> heap \<Rightarrow> heap option" where
  "heap_lock \<equiv> mutex_lock heap_mutex (\<lambda>m h. h\<lparr>heap_mutex := m\<rparr>)"

abbreviation heap_unlock :: "task_ptr \<Rightarrow> heap \<Rightarrow> heap" where
  "heap_unlock cur h \<equiv> h\<lparr>heap_mutex := mutex_unlock cur (heap_mutex h)\<rparr>"

definition init_heap :: "heap \<Rightarrow> heap" where
  "init_heap h = h\<lparr>h_mem := (h_mem h)(HEAP_START :=
       \<lparr>h_size = HEAP_SIZE - HSIZE, h_is_free = 1, h_next = 0\<rparr>),
     heap_mutex := mutex_init (heap_mutex h)\<rparr>"

text \<open>The block at \<open>ptr\<close> is taken: split when the rest can hold a header and 16 bytes.\<close>

definition take_block :: "u32 \<Rightarrow> u32 \<Rightarrow> memory \<Rightarrow> memory" where
  "take_block sz ptr mem =
     (let mem' =
        (if h_size (mem ptr) \<ge> sz + HSIZE + 16 then
           let next_block = ptr + HSIZE + sz;
               m1 = mem(next_block := \<lparr>h_size = h_size (mem ptr) - sz - HSIZE, h_is_free = 1,
                                      h_next = h_next (mem ptr)\<rparr>)
           in m1(ptr := (m1 ptr)\<lparr>h_size := sz, h_next := next_block\<rparr>)
         else mem)
      in mem'(ptr := (mem' ptr)\<lparr>h_is_free := 0\<rparr>))"

partial_function (option) kmalloc_scan :: "u32 \<Rightarrow> u32 \<Rightarrow> memory \<Rightarrow> (u32 \<times> memory) option" where
  "kmalloc_scan sz ptr mem =
     (if ptr = 0 then Some (0, mem)
      else if h_is_free (mem ptr) \<noteq> 0 \<and> h_size (mem ptr) \<ge> sz
      then Some (ptr + HSIZE, take_block sz ptr mem)
      else kmalloc_scan sz (h_next (mem ptr)) mem)"

definition align4 :: "u32 \<Rightarrow> u32" where
  "align4 sz = (if sz mod 4 \<noteq> 0 then sz + (4 - sz mod 4) else sz)"

definition kmalloc :: "task_ptr \<Rightarrow> heap interference \<Rightarrow> u32 \<Rightarrow> heap \<Rightarrow> (u32 \<times> heap) option" where
  "kmalloc cur w sz h =
     (if sz = 0 then Some (0, h)
      else do {
        let sz = align4 sz;
        h \<leftarrow> heap_lock cur w h;
        (r, mem) \<leftarrow> kmalloc_scan sz HEAP_START (h_mem h);
        Some (r, heap_unlock cur (h\<lparr>h_mem := mem\<rparr>))
      })"

partial_function (option) coalesce :: "u32 \<Rightarrow> memory \<Rightarrow> memory option" where
  "coalesce ptr mem =
     (if ptr \<noteq> 0 \<and> h_next (mem ptr) \<noteq> 0 then
        let nx = h_next (mem ptr) in
        if h_is_free (mem ptr) \<noteq> 0 \<and> h_is_free (mem nx) \<noteq> 0
        then coalesce ptr (mem(ptr := (mem ptr)\<lparr>h_size := h_size (mem ptr) + (HSIZE + h_size (mem nx)),
                                                 h_next := h_next (mem nx)\<rparr>))
        else coalesce nx mem
      else Some mem)"

definition kfree :: "task_ptr \<Rightarrow> heap interference \<Rightarrow> u32 \<Rightarrow> heap \<Rightarrow> heap option" where
  "kfree cur w ptr h =
     (if ptr = 0 then Some h
      else do {
        h \<leftarrow> heap_lock cur w h;
        let hdr = ptr - HSIZE;
        let mem = (h_mem h)(hdr := (h_mem h hdr)\<lparr>h_is_free := 1\<rparr>);
        mem \<leftarrow> coalesce HEAP_START mem;
        Some (heap_unlock cur (h\<lparr>h_mem := mem\<rparr>))
      })"

partial_function (option) used_scan :: "u32 \<Rightarrow> u32 \<Rightarrow> memory \<Rightarrow> u32 option" where
  "used_scan used ptr mem =
     (if ptr = 0 then Some used
      else used_scan (if h_is_free (mem ptr) = 0 then used + (h_size (mem ptr) + HSIZE) else used)
             (h_next (mem ptr)) mem)"

definition heap_get_used :: "task_ptr \<Rightarrow> heap interference \<Rightarrow> heap \<Rightarrow> (u32 \<times> heap) option" where
  "heap_get_used cur w h = do {
     h \<leftarrow> heap_lock cur w h;
     used \<leftarrow> used_scan 0 HEAP_START (h_mem h);
     Some (used, heap_unlock cur h)
   }"

definition heap_get_free :: "task_ptr \<Rightarrow> heap interference \<Rightarrow> heap \<Rightarrow> (u32 \<times> heap) option" where
  "heap_get_free cur w h = do {
     (used, h) \<leftarrow> heap_get_used cur w h;
     Some (HEAP_SIZE - used, h)
   }"

section \<open>The header list as a block sequence\<close>

text \<open>Addresses as numbers. Everything the heap does happens below \<open>TOP\<close>, so no address wraps.\<close>

definition addr :: "nat \<Rightarrow> u32" where
  "addr a = of_nat a"

definition TOP :: nat where
  "TOP = 2 ^ 31"

lemma unat_addr: "a < 2 ^ 32 \<Longrightarrow> unat (addr a) = a"
  unfolding addr_def by (rule unat_of_nat_u32)

lemma addr_inj: "a < 2 ^ 32 \<Longrightarrow> b < 2 ^ 32 \<Longrightarrow> addr a = addr b \<longleftrightarrow> a = b"
  unfolding addr_def by (rule of_nat_u32_inj)

lemma addr_0: "a < 2 ^ 32 \<Longrightarrow> addr a = 0 \<longleftrightarrow> a = 0"
  unfolding addr_def by (rule of_nat_u32_0)

lemma addr_hdr: "addr a + HSIZE = addr (a + HDR)"
  by (simp add: addr_def HDR_def)

text \<open>
  \<open>blocks_at mem a bs\<close>: from address \<open>a\<close> on, memory holds the headers of the blocks \<open>bs\<close>, one behind
  the other, linked in that order and ended by NULL.
\<close>

abbreviation link :: "nat \<Rightarrow> block list \<Rightarrow> u32" where
  "link a bs \<equiv> (if bs = [] then 0 else addr a)"

fun blocks_at :: "memory \<Rightarrow> nat \<Rightarrow> block list \<Rightarrow> bool" where
  "blocks_at mem a [] \<longleftrightarrow> True"
| "blocks_at mem a ((n, f) # bs) \<longleftrightarrow>
     unat (h_size (mem (addr a))) = n \<and> (h_is_free (mem (addr a)) \<noteq> 0) = f \<and>
     h_next (mem (addr a)) = link (a + HDR + n) bs \<and> blocks_at mem (a + HDR + n) bs"

definition START :: nat where
  "START = 0x01000000"

definition SIZE :: nat where
  "SIZE = 0x00400000"

definition heap_rep :: "heap \<Rightarrow> block list \<Rightarrow> bool" where
  "heap_rep h bs \<longleftrightarrow> blocks_at (h_mem h) START bs \<and> bs \<noteq> [] \<and> extent bs = SIZE \<and>
     aligned bs \<and> coalesced bs \<and> mutex_free (heap_mutex h)"

lemma blocks_at_cong:
  assumes "\<And>x. a \<le> unat x \<Longrightarrow> mem' x = mem x" and "a + extent bs \<le> TOP"
  shows "blocks_at mem' a bs = blocks_at mem a bs"
  using assms
proof (induction bs arbitrary: a)
  case (Cons b bs)
  obtain n f where b: "b = (n, f)" by (cases b)
  have "mem' (addr a) = mem (addr a)"
    using Cons.prems(2) b by (intro Cons.prems(1)) (simp add: unat_addr TOP_def HDR_def)
  moreover have "blocks_at mem' (a + HDR + n) bs = blocks_at mem (a + HDR + n) bs"
    using Cons.prems b by (intro Cons.IH) auto
  ultimately show ?case using b by simp
qed simp

text \<open>Memory that differs only at addresses from \<open>a\<close> up to, not including, \<open>b\<close>.\<close>

definition only_in :: "nat \<Rightarrow> nat \<Rightarrow> memory \<Rightarrow> memory \<Rightarrow> bool" where
  "only_in a b mem mem' \<longleftrightarrow> (\<forall>x. unat x < a \<or> b \<le> unat x \<longrightarrow> mem' x = mem x)"

lemma only_in_blocks:
  "only_in a b mem mem' \<Longrightarrow> b \<le> c \<Longrightarrow> c + extent bs \<le> TOP \<Longrightarrow> blocks_at mem c bs \<Longrightarrow>
    blocks_at mem' c bs"
  using blocks_at_cong [of c mem' mem bs] by (auto simp: only_in_def)

lemma only_in_upd: "x < b \<Longrightarrow> a \<le> x \<Longrightarrow> x < 2 ^ 32 \<Longrightarrow> only_in a b mem (mem(addr x := v))"
  by (auto simp: only_in_def unat_addr)

lemma only_in_trans: "only_in a b m1 m2 \<Longrightarrow> only_in a b m2 m3 \<Longrightarrow> only_in a b m1 m3"
  by (simp add: only_in_def)

lemma fits_iff:
  assumes "unat sz \<le> n" and "n < TOP" and "unat (h_size hdr) = n"
  shows "h_size hdr \<ge> sz + HSIZE + 16 \<longleftrightarrow> unat sz + HDR + 16 \<le> n"
proof -
  have "unat (sz + HSIZE + 16) = unat sz + HDR + 16"
    using assms by (simp add: unat_u32_plus HDR_def TOP_def)
  with assms(3) show ?thesis by (simp only: word_le_nat_alt)
qed

lemma take_block_split:
  assumes blk: "blocks_at mem a ((n, True) # bs)" and top: "a + extent ((n, True) # bs) \<le> TOP"
    and fit: "unat sz + HDR + 16 \<le> n"
  shows "blocks_at (take_block sz (addr a) mem) a ((unat sz, False) # (n - unat sz - HDR, True) # bs) \<and>
    only_in a (a + HDR + n) mem (take_block sz (addr a) mem)"
proof -
  let ?nb = "a + HDR + unat sz" and ?m = "take_block sz (addr a) mem"
  have n: "unat (h_size (mem (addr a))) = n" and nx: "h_next (mem (addr a)) = link (a + HDR + n) bs"
    and rest: "blocks_at mem (a + HDR + n) bs" using blk by simp_all
  have lt: "a < 2 ^ 32" "?nb < 2 ^ 32" using top fit by (simp_all add: TOP_def HDR_def)
  have split: "h_size (mem (addr a)) \<ge> sz + HSIZE + 16"
    using fits_iff [OF _ _ n, of sz] fit top by (simp add: HDR_def)
  have rem: "unat (h_size (mem (addr a)) - sz - HSIZE) = n - unat sz - HDR"
    using fit n by (simp add: unat_u32_minus HDR_def)
  have nb: "addr a + HSIZE + sz = addr ?nb" by (simp add: addr_def HDR_def)
  have ne: "addr ?nb \<noteq> addr a" using lt by (simp add: addr_inj HDR_def)
  have m: "?m = mem(addr ?nb := \<lparr>h_size = h_size (mem (addr a)) - sz - HSIZE, h_is_free = 1,
      h_next = h_next (mem (addr a))\<rparr>,
      addr a := (mem (addr a))\<lparr>h_size := sz, h_next := addr ?nb, h_is_free := 0\<rparr>)"
    unfolding take_block_def Let_def nb if_P [OF split] using ne by simp
  have frame: "only_in a (a + HDR + n) mem ?m"
    unfolding m using lt fit by (intro only_in_trans [OF only_in_upd only_in_upd]) (simp_all add: HDR_def)
  have "blocks_at ?m (a + HDR + n) bs"
    using only_in_blocks [OF frame _ _ rest] top by simp
  moreover have "?nb + HDR + (n - unat sz - HDR) = a + HDR + n" using fit by simp
  ultimately show ?thesis
    using frame ne rem nx by (cases "bs = []") (simp_all add: m add.assoc)
qed

lemma take_block_whole:
  assumes blk: "blocks_at mem a ((n, True) # bs)" and top: "a + extent ((n, True) # bs) \<le> TOP"
    and fit: "unat sz \<le> n" "\<not> unat sz + HDR + 16 \<le> n"
  shows "blocks_at (take_block sz (addr a) mem) a ((n, False) # bs) \<and>
    only_in a (a + HDR + n) mem (take_block sz (addr a) mem)"
proof -
  let ?m = "take_block sz (addr a) mem"
  have n: "unat (h_size (mem (addr a))) = n" and rest: "blocks_at mem (a + HDR + n) bs"
    using blk by simp_all
  have "\<not> h_size (mem (addr a)) \<ge> sz + HSIZE + 16"
    using fits_iff [OF fit(1) _ n] fit(2) top by (simp add: HDR_def)
  then have m: "?m = mem(addr a := (mem (addr a))\<lparr>h_is_free := 0\<rparr>)"
    unfolding take_block_def Let_def by (simp only: if_False)
  have frame: "only_in a (a + HDR + n) mem ?m"
    unfolding m using top by (intro only_in_upd) (simp_all add: HDR_def TOP_def)
  have "blocks_at ?m (a + HDR + n) bs"
    using only_in_blocks [OF frame _ _ rest] top by simp
  with blk frame show ?thesis by (simp add: m)
qed

section \<open>The loops implement the list functions\<close>

lemma kmalloc_scan_unfold:
  assumes "blocks_at mem a ((n, f) # bs)" and "0 < a" and "a < 2 ^ 32"
  shows "kmalloc_scan sz (addr a) mem =
    (if f \<and> unat sz \<le> n then Some (addr (a + HDR), take_block sz (addr a) mem)
     else kmalloc_scan sz (link (a + HDR + n) bs) mem)"
proof -
  have "addr a \<noteq> 0" using assms(2,3) by (simp add: addr_0)
  with assms(1) show ?thesis
    by (subst kmalloc_scan.simps) (simp add: word_le_nat_alt addr_hdr)
qed

lemma kmalloc_scan_refines:
  assumes "blocks_at mem a bs" and "0 < a" and "a + extent bs \<le> TOP"
  shows "\<exists>mem'. kmalloc_scan sz (link a bs) mem =
      Some (case fst (first_fit (unat sz) a bs) of None \<Rightarrow> 0 | Some p \<Rightarrow> addr p, mem') \<and>
    blocks_at mem' a (snd (first_fit (unat sz) a bs)) \<and> only_in a TOP mem mem'"
  using assms
proof (induction bs arbitrary: a)
  case Nil
  then show ?case by (simp add: kmalloc_scan.simps only_in_def)
next
  case (Cons b bs)
  obtain n f where b: "b = (n, f)" by (cases b)
  have blk: "blocks_at mem a ((n, f) # bs)" and top: "a + extent ((n, f) # bs) \<le> TOP"
    using Cons.prems b by simp_all
  then have lt: "a < 2 ^ 32" "a + HDR + n \<le> TOP" by (simp_all add: TOP_def HDR_def)
  note unf = kmalloc_scan_unfold [OF blk Cons.prems(2) lt(1), of sz]
  show ?case
  proof (cases "f \<and> unat sz \<le> n")
    case True
    let ?m = "take_block sz (addr a) mem"
    have "blocks_at ?m a (snd (first_fit (unat sz) a (b # bs))) \<and> only_in a (a + HDR + n) mem ?m"
      using take_block_split [of mem a n bs sz] take_block_whole [of mem a n bs sz] blk top True b
      by (cases "unat sz + HDR + 16 \<le> n") simp_all
    moreover from this have "only_in a TOP mem ?m" using lt(2) by (auto simp: only_in_def)
    ultimately show ?thesis using True unf b by simp
  next
    case False
    obtain mem' where mem': "kmalloc_scan sz (link (a + HDR + n) bs) mem =
        Some (case fst (first_fit (unat sz) (a + HDR + n) bs) of None \<Rightarrow> 0 | Some p \<Rightarrow> addr p, mem')"
      "blocks_at mem' (a + HDR + n) (snd (first_fit (unat sz) (a + HDR + n) bs))"
      "only_in (a + HDR + n) TOP mem mem'"
      using Cons.IH [of "a + HDR + n"] blk top Cons.prems(2) by (auto simp: add.assoc)
    have "mem' (addr a) = mem (addr a)"
      using mem'(3) lt(1) by (simp add: only_in_def unat_addr HDR_def)
    moreover have "only_in a TOP mem mem'" using mem'(3) by (simp add: only_in_def)
    ultimately show ?thesis
      using False mem' blk unf b
      by (intro exI [of _ mem']) (auto simp: Let_def case_prod_unfold)
  qed
qed

text \<open>One merge: the header in front takes over the second block.\<close>

lemma merge_step:
  fixes mem :: "u32 \<Rightarrow> header" and a n m :: nat
  assumes bs: "blocks_at mem a ((n, True) # (m, True) # bs)" and "0 < a" and top: "a + extent ((n, True) # (m, True) # bs) \<le> TOP"
  defines "B \<equiv> mem (addr (a + HDR + n))"
  defines "mem1 \<equiv> mem(addr a := (mem (addr a))\<lparr>h_size := h_size (mem (addr a)) + (HSIZE + h_size B), h_next := h_next B\<rparr>)"
  shows "coalesce (addr a) mem = coalesce (addr a) mem1" "blocks_at mem1 a ((n + HDR + m, True) # bs)" "only_in a TOP mem mem1"
proof -
  let ?b = "a + HDR + n"
  have lt: "a < 2 ^ 32" "?b < 2 ^ 32" "?b + HDR + m + extent bs \<le> TOP" using top by (simp_all add: TOP_def HDR_def)
  have AB: "addr a \<noteq> 0" "addr ?b \<noteq> 0" using lt assms(2) by (simp_all add: addr_0)
  show "coalesce (addr a) mem = coalesce (addr a) mem1"
    using AB bs by (subst coalesce.simps) (simp add: mem1_def B_def)
  have frame: "only_in a (a + HDR) mem mem1"
    unfolding mem1_def using lt by (intro only_in_upd) (simp_all add: HDR_def)
  then show "only_in a TOP mem mem1" using top by (auto simp: only_in_def)
  have "unat (h_size (mem (addr a)) + (HSIZE + h_size B)) = n + HDR + m"
    using bs top by (simp add: B_def unat_u32_plus TOP_def HDR_def)
  moreover have "blocks_at mem1 (?b + HDR + m) bs" using bs by (intro only_in_blocks [OF frame _ lt(3)]) simp_all
  ultimately show "blocks_at mem1 a ((n + HDR + m, True) # bs)" using bs by (simp add: add.assoc mem1_def B_def)
qed

lemma coalesce_refines:
  assumes "blocks_at mem a bs" and "0 < a" and "a + extent bs \<le> TOP"
  shows "\<exists>mem'. coalesce (link a bs) mem = Some mem' \<and> blocks_at mem' a (merge_free bs) \<and>
    only_in a TOP mem mem'"
  using assms
proof (induction bs arbitrary: a mem rule: merge_free.induct)
  case (1 n f m g bs)
  let ?b = "a + HDR + n"
  have top: "a + extent ((n, f) # (m, g) # bs) \<le> TOP" by fact
  show ?case
  proof (cases "f \<and> g")
    case True
    then obtain mem1 where mem1: "coalesce (addr a) mem = coalesce (addr a) mem1" "blocks_at mem1 a ((n + HDR + m, True) # bs)"
      "only_in a TOP mem mem1" using merge_step [of mem a n m bs] "1.prems" by auto
    then obtain mem' where mem': "coalesce (addr a) mem1 = Some mem'"
      "blocks_at mem' a (merge_free ((n + HDR + m, True) # bs))" "only_in a TOP mem1 mem'"
      using "1.IH"(1) [OF True, of mem1 a] "1.prems"(2) top by auto
    moreover have "only_in a TOP mem mem'" using mem1(3) mem'(3) by (auto simp: only_in_def)
    ultimately show ?thesis using True mem1(1) by auto
  next
    case False
    have lt: "a < 2 ^ 32" "?b < 2 ^ 32" "a < TOP" using top by (simp_all add: TOP_def HDR_def)
    have AB: "addr a \<noteq> 0" "addr ?b \<noteq> 0" using lt "1.prems"(2) by (simp_all add: addr_0)
    have step: "coalesce (addr a) mem = coalesce (addr ?b) mem"
      using False AB "1.prems"(1) by (subst coalesce.simps) (auto simp: Let_def)
    obtain mem' where mem': "coalesce (addr ?b) mem = Some mem'"
      "blocks_at mem' ?b (merge_free ((m, g) # bs))" "only_in ?b TOP mem mem'"
      using "1.IH"(2) [OF False, of mem ?b] "1.prems" by auto
    have "mem' (addr a) = mem (addr a)" and "only_in a TOP mem mem'"
      using mem'(3) lt by (simp_all add: only_in_def unat_addr HDR_def)
    with False step mem' "1.prems"(1) show ?thesis by auto
  qed
qed (auto simp: coalesce.simps only_in_def)

lemma used_scan_refines:
  assumes "blocks_at mem a bs" and "0 < a" and "a + extent bs \<le> TOP"
  shows "used_scan u (link a bs) mem = Some (u + of_nat (used_bytes bs))"
  using assms
proof (induction bs arbitrary: a u)
  case Nil
  then show ?case by (simp add: used_scan.simps)
next
  case (Cons b bs)
  obtain n f where b: "b = (n, f)" by (cases b)
  have "addr a \<noteq> 0"
    using Cons.prems(2,3) b by (simp add: addr_0 TOP_def HDR_def)
  moreover have "h_size (mem (addr a)) = of_nat n"
    using Cons.prems(1) b by auto
  moreover have "used_scan v (link (a + HDR + n) bs) mem = Some (v + of_nat (used_bytes bs))" for v
    using Cons.prems b by (intro Cons.IH) auto
  ultimately show ?case
    using Cons.prems(1) b by (subst used_scan.simps) (cases f; simp add: HDR_def add_ac)
qed

lemma mark_free_refines:
  assumes "blocks_at mem a bs" and "(p, n) \<in> in_use a bs" and "a + extent bs \<le> TOP"
  shows "blocks_at (mem(addr (p - HDR) := (mem (addr (p - HDR)))\<lparr>h_is_free := 1\<rparr>)) a (mark_free p a bs)"
  using assms
proof (induction bs arbitrary: a)
  case (Cons b bs)
  obtain k f where b: "b = (k, f)" by (cases b)
  let ?m = "mem(addr (p - HDR) := (mem (addr (p - HDR)))\<lparr>h_is_free := 1\<rparr>)"
  have lt: "a < 2 ^ 32" "a + HDR + k + extent bs \<le> TOP"
    using Cons.prems(3) b by (simp_all add: TOP_def HDR_def)
  have p: "a + HDR \<le> p" "p \<le> TOP"
    using in_use_above [OF Cons.prems(2)] Cons.prems(3) by linarith+
  then have p': "p - HDR < 2 ^ 32" by (simp add: TOP_def)
  show ?case
  proof (cases "a + HDR = p")
    case True
    then have a: "p - HDR = a" by simp
    have "only_in a (a + HDR) mem ?m"
      unfolding a using lt(1) by (intro only_in_upd) (simp_all add: HDR_def)
    from only_in_blocks [OF this _ lt(2)] have "blocks_at ?m (a + HDR + k) bs"
      using Cons.prems(1) b by simp
    with True b Cons.prems(1) show ?thesis unfolding a by (simp del: fun_upd_apply) simp
  next
    case False
    then have "(p, n) \<in> in_use (a + HDR + k) bs"
      using Cons.prems(2) b by (auto split: if_splits)
    moreover have "addr (p - HDR) \<noteq> addr a"
      using False p p' lt(1) by (simp add: addr_inj)
    ultimately show ?thesis
      using False b Cons.prems(1) Cons.IH [of "a + HDR + k"] lt(2) by auto
  qed
qed simp

section \<open>The operations\<close>

interpretation hlock: mutex_guarded heap_mutex "\<lambda>m h. h\<lparr>heap_mutex := m\<rparr>"
  by unfold_locales simp_all

lemma START_word: "HEAP_START = addr START" "HEAP_SIZE = of_nat SIZE"
  by (simp_all add: HEAP_START_def HEAP_SIZE_def addr_def START_def SIZE_def)

lemma heap_bounds: "heap_rep h bs \<Longrightarrow> START + extent bs \<le> TOP"
  by (simp add: heap_rep_def START_def SIZE_def TOP_def)

lemma START_pos [simp]: "0 < START"
  by (simp add: START_def)

lemma heap_rep_link: "heap_rep h bs \<Longrightarrow> link START bs = HEAP_START"
  by (simp add: heap_rep_def START_word)

lemma heap_lock_free:
  "heap_rep h bs \<Longrightarrow> heap_lock cur w h = Some (h\<lparr>heap_mutex := \<lparr>locked = 1, owner = cur\<rparr>\<rparr>)"
  by (rule hlock.lock_free) (simp add: heap_rep_def)

lemma align4_unat:
  assumes "unat sz \<le> 2 ^ 32 - 4"
  shows "unat (align4 sz) = (unat sz + 3) div 4 * 4"
proof -
  have m: "unat (sz mod 4) = unat sz mod 4" by (simp add: unat_mod)
  show ?thesis
  proof (cases "sz mod 4 = 0")
    case True
    with m have "unat sz mod 4 = 0" by simp
    with True show ?thesis by (simp add: align4_def) presburger
  next
    case False
    have r: "0 < unat sz mod 4" using False m by (metis gr0I unat_eq_zero)
    have d: "unat (4 - sz mod 4) = 4 - unat sz mod 4"
      using m by (simp add: unat_u32_minus)
    have "unat sz + (4 - unat sz mod 4) = (unat sz + 3) div 4 * 4" using r by presburger
    moreover from this assms have "unat sz + (4 - unat sz mod 4) < 2 ^ 32" by simp
    ultimately show ?thesis using False d by (simp add: align4_def unat_u32_plus)
  qed
qed

text \<open>What \<open>kmalloc\<close> does, in terms of the block sequence.\<close>

definition rounded :: "u32 \<Rightarrow> nat" where
  "rounded sz = (unat sz + 3) div 4 * 4"

lemma rounded_props: "4 dvd rounded sz" "unat sz \<le> rounded sz" "rounded sz < unat sz + 4"
  unfolding rounded_def by presburger+

definition ptr_of :: "nat option \<Rightarrow> u32" where
  "ptr_of r = (case r of None \<Rightarrow> 0 | Some p \<Rightarrow> addr p)"

lemma kmalloc_runs:
  assumes rep: "heap_rep h bs" and sz: "sz \<noteq> 0" "4 dvd unat (align4 sz)"
    and ff: "first_fit (unat (align4 sz)) START bs = (r, bs')"
  shows "\<exists>h'. kmalloc cur w sz h = Some (ptr_of r, h') \<and> heap_rep h' bs'"
proof -
  let ?k = "unat (align4 sz)"
  obtain mem' where scan: "kmalloc_scan (align4 sz) HEAP_START (h_mem h) = Some (ptr_of r, mem')"
    and blk: "blocks_at mem' START bs'"
    using kmalloc_scan_refines [of "h_mem h" START bs "align4 sz"] rep heap_bounds [OF rep] ff
      heap_rep_link [OF rep]
    by (auto simp: heap_rep_def ptr_of_def)
  have "extent bs' = SIZE" "bs' \<noteq> []" "aligned bs'" "coalesced bs'"
    using rep ff sz(2) first_fit_extent [of ?k START bs] first_fit_Nil [of ?k START bs]
      first_fit_aligned [of bs ?k START] first_fit_coalesced [of bs ?k START]
    by (auto simp: heap_rep_def)
  then show ?thesis
    using sz(1) scan blk heap_lock_free [OF rep, of cur w]
    by (auto simp: kmalloc_def heap_rep_def mutex_unlock_def mutex_free_def)
qed

lemma kmalloc_refines:
  assumes "heap_rep h bs" and "0 < unat sz" and "unat sz \<le> 2 ^ 32 - 4"
    and "first_fit (rounded sz) START bs = (r, bs')"
  shows "\<exists>h'. kmalloc cur w sz h = Some (ptr_of r, h') \<and> heap_rep h' bs'"
  using assms rounded_props(1) [of sz] align4_unat [OF assms(3)]
  by (intro kmalloc_runs) (auto simp: rounded_def)

text \<open>\<open>kfree\<close> on a payload that is in use.\<close>

lemma kfree_refines:
  assumes rep: "heap_rep h bs" and p: "(p, n) \<in> in_use START bs"
  shows "\<exists>h'. kfree cur w (addr p) h = Some h' \<and> heap_rep h' (merge_free (mark_free p START bs))"
proof -
  let ?bs = "merge_free (mark_free p START bs)"
  let ?mem = "(h_mem h)(addr (p - HDR) := (h_mem h (addr (p - HDR)))\<lparr>h_is_free := 1\<rparr>)"
  have pb: "START + HDR \<le> p" "p \<le> TOP"
    using in_use_above [OF p] heap_bounds [OF rep] by linarith+
  have "addr p = addr (p - HDR) + HSIZE"
    using pb by (simp add: addr_hdr)
  then have hdr: "addr p - HSIZE = addr (p - HDR)" by simp
  have ne: "addr p \<noteq> 0" using pb by (simp add: addr_0 TOP_def HDR_def)
  have "blocks_at ?mem START (mark_free p START bs)"
    using rep p heap_bounds [OF rep] by (intro mark_free_refines) (simp_all add: heap_rep_def)
  then obtain mem' where mem': "coalesce HEAP_START ?mem = Some mem'" "blocks_at mem' START ?bs"
    using coalesce_refines [of ?mem START "mark_free p START bs"] rep heap_bounds [OF rep]
    by (auto simp: heap_rep_def START_word)
  have "extent ?bs = SIZE" "?bs \<noteq> []" "aligned ?bs" "coalesced ?bs"
    using rep by (simp_all add: heap_rep_def merge_free_aligned mark_free_aligned)
  with mem' ne hdr heap_lock_free [OF rep, of cur w] show ?thesis
    by (auto simp: kfree_def heap_rep_def mutex_unlock_def mutex_free_def)
qed

lemma heap_get_used_refines:
  assumes rep: "heap_rep h bs"
  shows "heap_get_used cur w h = Some (of_nat (used_bytes bs), h)"
proof -
  have "used_scan 0 HEAP_START (h_mem h) = Some (of_nat (used_bytes bs))"
    using used_scan_refines [of "h_mem h" START bs 0] heap_bounds [OF rep] rep
    by (simp add: heap_rep_def START_word)
  moreover have "heap_unlock cur (h\<lparr>heap_mutex := \<lparr>locked = 1, owner = cur\<rparr>\<rparr>) = h"
    using hlock.unlock_restores [of h cur] rep by (simp add: heap_rep_def)
  ultimately show ?thesis
    using heap_lock_free [OF rep, of cur w] by (simp add: heap_get_used_def)
qed

lemma init_heap_rep: "heap_rep (init_heap h) [(SIZE - HDR, True)]"
  by (simp add: heap_rep_def init_heap_def START_word [symmetric] HEAP_SIZE_def SIZE_def HDR_def)

lemma START_aligned: "4 dvd START"
  by (simp add: START_def)

lemma in_use_addr:
  assumes "heap_rep h bs" and "(p, n) \<in> in_use START bs"
  shows "unat (addr p) = p" "addr p \<noteq> 0" "START + HDR \<le> p" "p + n \<le> START + SIZE" "4 dvd p"
proof -
  show b: "START + HDR \<le> p" "p + n \<le> START + SIZE"
    using in_use_above [OF assms(2)] assms(1) by (simp_all add: heap_rep_def)
  then have "p < 2 ^ 32" "0 < p" by (simp_all add: START_def SIZE_def)
  then show "unat (addr p) = p" "addr p \<noteq> 0" by (simp_all add: unat_addr addr_0)
  show "4 dvd p"
    using in_use_aligned [OF _ START_aligned assms(2)] assms(1) by (simp add: heap_rep_def)
qed

section \<open>Properties\<close>

text \<open>
  C7. Allocation. On a well-formed heap every request of a representable size returns. It answers NULL
  only when no free block is large enough, and then nothing changed. Otherwise the pointer is the
  start of a payload at least as long as requested, 4-aligned, inside the heap region, that
  overlaps no payload already in use; the payloads in use grow by exactly that one and the heap
  stays well-formed.
\<close>

theorem kmalloc_correct:
  assumes "heap_rep h bs" and "0 < unat sz" and "unat sz \<le> 2 ^ 32 - 4"
  shows "\<exists>p h' bs'. kmalloc cur w sz h = Some (p, h') \<and> heap_rep h' bs' \<and>
    (if p = 0 then bs' = bs \<and> (\<forall>(n, f)\<in>set bs. f \<longrightarrow> n < rounded sz)
     else \<exists>n. in_use START bs' = insert (unat p, n) (in_use START bs) \<and> unat sz \<le> n \<and>
       4 dvd unat p \<and> START + HDR \<le> unat p \<and> unat p + n \<le> START + SIZE \<and>
       (\<forall>(q, m)\<in>in_use START bs. unat p + n \<le> q \<or> q + m \<le> unat p))"
proof -
  obtain r bs' where ff: "first_fit (rounded sz) START bs = (r, bs')" by fastforce
  from kmalloc_refines [OF assms ff] obtain h' where
    h': "kmalloc cur w sz h = Some (ptr_of r, h')" "heap_rep h' bs'" by blast
  show ?thesis
  proof (cases r)
    case None
    then have "bs' = bs" and "\<forall>(n, f)\<in>set bs. f \<longrightarrow> n < rounded sz"
      using ff first_fit_None_same [of "rounded sz" START bs bs'] first_fit_None [of "rounded sz" START bs]
      by auto
    with h' None show ?thesis by (auto simp: ptr_of_def)
  next
    case (Some p)
    obtain n where n: "rounded sz \<le> n" "in_use START bs' = insert (p, n) (in_use START bs)"
      "(p, n) \<notin> in_use START bs"
      using first_fit_in_use ff Some by blast
    then have "(p, n) \<in> in_use START bs'" by simp
    note facts = in_use_addr [OF h'(2) this]
    have "\<forall>(q, m)\<in>in_use START bs. p + n \<le> q \<or> q + m \<le> p"
      using n in_use_disjoint [of p n START bs'] by auto
    with n facts h' Some rounded_props(2) [of sz] show ?thesis
      by (intro exI [of _ "ptr_of r"] exI [of _ h'] exI [of _ bs'])
        (auto simp: ptr_of_def intro!: exI [of _ n])
  qed
qed

definition raw_heap :: heap where
  "raw_heap = \<lparr>h_mem = (\<lambda>_. \<lparr>h_size = 0, h_is_free = 0, h_next = 0\<rparr>),
     heap_mutex = \<lparr>locked = 0, owner = 0\<rparr>\<rparr>"

theorem kmalloc_correct_witness:
  "\<exists>p h' bs'. kmalloc 1 [] 100 (init_heap raw_heap) = Some (p, h') \<and> heap_rep h' bs' \<and>
    (if p = 0 then bs' = [(SIZE - HDR, True)] \<and> (\<forall>(n, f)\<in>set [(SIZE - HDR, True)]. f \<longrightarrow> n < rounded 100)
     else \<exists>n. in_use START bs' = insert (unat p, n) (in_use START [(SIZE - HDR, True)]) \<and>
       unat (100 :: u32) \<le> n \<and>
       4 dvd unat p \<and> START + HDR \<le> unat p \<and> unat p + n \<le> START + SIZE \<and>
       (\<forall>(q, m)\<in>in_use START [(SIZE - HDR, True)]. unat p + n \<le> q \<or> q + m \<le> unat p))"
  by (rule kmalloc_correct [OF init_heap_rep]) simp_all

text \<open>
  C8. Freeing. \<open>kfree\<close> of a pointer to a payload in use returns, takes exactly that payload out of
  use and leaves a well-formed heap in which no two free blocks are neighbours.
\<close>

theorem kfree_correct:
  assumes "heap_rep h bs" and "(unat p, n) \<in> in_use START bs"
  shows "\<exists>h' bs'. kfree cur w p h = Some h' \<and> heap_rep h' bs' \<and> coalesced bs' \<and>
    in_use START bs' = in_use START bs - {(unat p, n)}"
proof -
  have p: "addr (unat p) = p" by (simp add: addr_def)
  have "{r \<in> in_use START bs. fst r \<noteq> unat p} = in_use START bs - {(unat p, n)}"
  proof (intro set_eqI iffI)
    fix r assume r: "r \<in> in_use START bs - {(unat p, n)}"
    obtain q m where q: "r = (q, m)" by (cases r)
    with r in_use_start_unique [OF assms(2), of m] show "r \<in> {r \<in> in_use START bs. fst r \<noteq> unat p}"
      by (cases "q = unat p") simp_all
  qed force
  then have "in_use START (merge_free (mark_free (unat p) START bs)) = in_use START bs - {(unat p, n)}"
    by (simp add: mark_free_in_use)
  with kfree_refines [OF assms, of cur w] p merge_free_coalesced show ?thesis by metis
qed

definition one_block :: heap where
  "one_block = (case kmalloc 1 [] 100 (init_heap raw_heap) of Some (p, h) \<Rightarrow> h | None \<Rightarrow> raw_heap)"

lemma one_block_rep: "heap_rep one_block [(100, False), (SIZE - HDR - 100 - HDR, True)]"
proof -
  have "first_fit (rounded 100) START [(SIZE - HDR, True)] =
      (Some (START + HDR), [(100, False), (SIZE - HDR - 100 - HDR, True)])"
    by (simp add: rounded_def SIZE_def HDR_def)
  from kmalloc_refines [OF init_heap_rep [of raw_heap] _ _ this, of 1 "[]"] show ?thesis
    by (auto simp: one_block_def)
qed

theorem kfree_correct_witness:
  "\<exists>h' bs'. kfree 1 [] 0x0100000C one_block = Some h' \<and> heap_rep h' bs' \<and> coalesced bs' \<and>
    in_use START bs' = in_use START [(100, False), (SIZE - HDR - 100 - HDR, True)] -
      {(unat (0x0100000C :: u32), 100)}"
proof (rule kfree_correct [OF one_block_rep])
  have "START + HDR = unat (0x0100000C :: u32)" by (simp add: START_def HDR_def)
  then show "(unat (0x0100000C :: u32), 100) \<in> in_use START [(100, False), (SIZE - HDR - 100 - HDR, True)]"
    by simp
qed

text \<open>
  C19. Allocate, then free: the heap is back to the block sequence it had before, whatever was
  allocated, so repeated use of this pair does not fragment the heap.
\<close>

theorem kmalloc_kfree_roundtrip:
  assumes "heap_rep h bs" and "0 < unat sz" and "unat sz \<le> 2 ^ 32 - 4"
    and "kmalloc cur w sz h = Some (p, h')"
  shows "\<exists>h''. kfree cur w' p h' = Some h'' \<and> heap_rep h'' bs"
proof -
  obtain r bs' where ff: "first_fit (rounded sz) START bs = (r, bs')" by fastforce
  from kmalloc_refines [OF assms(1-3) ff, of cur w] assms(4)
  have p: "p = ptr_of r" and rep: "heap_rep h' bs'" by auto
  show ?thesis
  proof (cases r)
    case None
    then show ?thesis
      using p rep ff first_fit_None_same [of "rounded sz" START bs bs'] by (simp add: kfree_def ptr_of_def)
  next
    case (Some q)
    obtain n where "(q, n) \<in> in_use START bs'"
      using first_fit_in_use [of "rounded sz" START bs q bs'] ff Some by auto
    from kfree_refines [OF rep this, of cur w'] show ?thesis
      using free_after_alloc [of bs "rounded sz" START q bs'] assms(1) ff Some p
      by (auto simp: ptr_of_def heap_rep_def [of h])
  qed
qed

theorem kmalloc_kfree_roundtrip_witness:
  "\<exists>h''. kfree 1 [] (fst (the (kmalloc 1 [] 9 one_block))) (snd (the (kmalloc 1 [] 9 one_block))) = Some h'' \<and>
     heap_rep h'' [(100, False), (SIZE - HDR - 100 - HDR, True)]"
proof (rule kmalloc_kfree_roundtrip [OF one_block_rep])
  obtain r bs' where ff: "first_fit (rounded 9) START [(100, False), (SIZE - HDR - 100 - HDR, True)] = (r, bs')"
    by fastforce
  show "kmalloc 1 [] 9 one_block =
      Some (fst (the (kmalloc 1 [] 9 one_block)), snd (the (kmalloc 1 [] 9 one_block)))"
    using kmalloc_refines [OF one_block_rep _ _ ff, of 1 "[]"] by auto
qed simp_all

text \<open>
  The statistics: \<open>heap_get_used\<close> is the number of bytes taken by payloads in use and their
  headers, \<open>heap_get_free\<close> the rest of the region; neither changes the heap.
\<close>

theorem heap_accounting:
  assumes "heap_rep h bs"
  shows "\<exists>u f. heap_get_used cur w h = Some (u, h) \<and> heap_get_free cur w h = Some (f, h) \<and>
    unat u = used_bytes bs \<and> unat u + unat f = SIZE"
proof -
  have le: "used_bytes bs \<le> SIZE" using used_bytes_le [of bs] assms by (simp add: heap_rep_def)
  then have u: "unat (of_nat (used_bytes bs) :: u32) = used_bytes bs"
    by (intro unat_of_nat_u32) (simp add: SIZE_def)
  have S: "unat HEAP_SIZE = SIZE" by (simp add: HEAP_SIZE_def SIZE_def)
  with le u have "unat (HEAP_SIZE - of_nat (used_bytes bs)) = SIZE - used_bytes bs"
    by (simp only: unat_u32_minus)
  with u le show ?thesis
    using heap_get_used_refines [OF assms, of cur w] by (simp add: heap_get_free_def)
qed

theorem heap_accounting_witness:
  "\<exists>u f. heap_get_used 1 [] one_block = Some (u, one_block) \<and> heap_get_free 1 [] one_block = Some (f, one_block) \<and>
    unat u = used_bytes [(100, False), (SIZE - HDR - 100 - HDR, True)] \<and> unat u + unat f = SIZE"
  by (rule heap_accounting [OF one_block_rep])

text \<open>
  A request of one of the three largest sizes, \<open>0xFFFFFFFD\<close> to \<open>0xFFFFFFFF\<close>, wraps to zero when it is rounded
  up: on a fresh heap it is granted, with a payload of no bytes at all.
\<close>

theorem kmalloc_wrap:
  assumes "sz \<in> {0xFFFFFFFD, 0xFFFFFFFE, 0xFFFFFFFF}"
  shows "\<exists>h'. kmalloc cur w sz (init_heap h) = Some (0x0100000C, h') \<and>
      heap_rep h' [(0, False), (SIZE - HDR - HDR, True)]"
proof -
  have "align4 0xFFFFFFFD = 0" "align4 0xFFFFFFFE = 0" "align4 0xFFFFFFFF = 0"
    by code_simp+
  then have "align4 sz = 0 \<and> sz \<noteq> 0" using assms by auto
  moreover have "first_fit 0 START [(SIZE - HDR, True)] =
      (Some (START + HDR), [(0, False), (SIZE - HDR - HDR, True)])"
    by (simp add: SIZE_def HDR_def)
  moreover have "ptr_of (Some (START + HDR)) = 0x0100000C"
    by (simp add: ptr_of_def addr_def START_def HDR_def)
  ultimately show ?thesis
    using kmalloc_runs [OF init_heap_rep, of sz "Some (START + HDR)" _ cur w h] by simp
qed

theorem kmalloc_wrap_witness:
  "\<exists>h'. kmalloc 1 [] 0xFFFFFFFF (init_heap raw_heap) = Some (0x0100000C, h') \<and>
      heap_rep h' [(0, False), (SIZE - HDR - HDR, True)]"
  by (rule kmalloc_wrap) simp

end
