(* ===== verification/Process.thy ===== *)
theory Process
  imports Scheduling
begin

text \<open>
  \<^verbatim>\<open>process.c\<close>: the table of processes the shell and the signals work on, with a scheduler of its
  own. A pointer is 0 for NULL and \<open>slot i\<close> for \<open>&proc_pool[i]\<close>; the value of \<open>get_ticks()\<close> is the
  argument \<open>now\<close>.
\<close>

section \<open>Model\<close>

definition MAX_PROCESSES :: nat where
  "MAX_PROCESSES = 16"

definition MAX_PROC_NAME :: nat where
  "MAX_PROC_NAME = 32"

datatype proc_state = PROC_UNUSED | PROC_READY | PROC_RUNNING | PROC_SLEEPING | PROC_BLOCKED | PROC_ZOMBIE

type_synonym proc_ptr = nat

record process =
  p_pid :: u32
  p_ppid :: u32
  p_name :: "char list"
  p_state :: proc_state
  p_priority :: u32
  p_esp :: u32
  p_sleep_ticks :: u32
  p_cpu_time :: u32
  p_wake_tick :: u32
  p_stack :: "u32 list"
  p_next :: proc_ptr

record proc_table =
  procs :: "proc_ptr \<Rightarrow> process"
  proc_list_head :: proc_ptr
  current_proc :: proc_ptr
  proc_next_pid :: u32

abbreviation (input) slot :: "nat \<Rightarrow> proc_ptr" where
  "slot i \<equiv> Suc i"

definition upd_proc :: "proc_ptr \<Rightarrow> (process \<Rightarrow> process) \<Rightarrow> proc_table \<Rightarrow> proc_table" where
  "upd_proc p f s = s\<lparr>procs := (procs s)(p := f (procs s p))\<rparr>"

abbreviation proc_links :: "proc_table \<Rightarrow> proc_ptr \<Rightarrow> proc_ptr" where
  "proc_links s p \<equiv> p_next (procs s p)"

fun state_str :: "proc_state \<Rightarrow> string" where
  "state_str PROC_UNUSED = ''UNUSED  ''"
| "state_str PROC_READY = ''READY   ''"
| "state_str PROC_RUNNING = ''RUNNING ''"
| "state_str PROC_SLEEPING = ''SLEEPING''"
| "state_str PROC_BLOCKED = ''BLOCKED ''"
| "state_str PROC_ZOMBIE = ''ZOMBIE  ''"

definition pstrcpy :: "char list \<Rightarrow> string \<Rightarrow> nat \<Rightarrow> char list" where
  "pstrcpy d s size_max = blit d (str_prefix (size_max - 1) s @ [NUL])"

text \<open>What the print function is called with.\<close>

definition print_uint :: "u32 \<Rightarrow> string list" where
  "print_uint n = (if n = 0 then [''0'']
     else let buf = dec_loop 16 (unat n); i = length buf in [map (\<lambda>j. buf ! (i - 1 - j)) [0..<i]])"

definition process_init :: "proc_table \<Rightarrow> proc_table" where
  "process_init s =
     (let s = fold (\<lambda>i. upd_proc (slot i) (\<lambda>p. p\<lparr>p_state := PROC_UNUSED, p_pid := 0\<rparr>)) [0..<MAX_PROCESSES] s;
          idle = slot 0;
          s = upd_proc idle (\<lambda>p. p\<lparr>p_pid := 0, p_ppid := 0, p_priority := 0, p_state := PROC_READY, p_esp := 0,
                p_sleep_ticks := 0, p_cpu_time := 0, p_wake_tick := 0, p_next := idle,
                p_name := pstrcpy (p_name p) ''idle'' MAX_PROC_NAME\<rparr>) s
      in s\<lparr>proc_list_head := idle, current_proc := idle, proc_next_pid := 1\<rparr>)"

text \<open>\<open>while (t->next != proc_list_head) t = t->next;\<close>\<close>

partial_function (option) find_last :: "proc_table \<Rightarrow> proc_ptr \<Rightarrow> proc_ptr option" where
  "find_last s t =
     (if proc_links s t \<noteq> proc_list_head s then find_last s (proc_links s t) else Some t)"

declare find_last.simps [code]

definition free_slot :: "proc_table \<Rightarrow> nat option" where
  "free_slot s = find (\<lambda>i. p_state (procs s (slot i)) = PROC_UNUSED) [1..<MAX_PROCESSES]"

text \<open>
  The fields \<open>process_create\<close> fills in, and the first stack; \<open>stack_at\<close> gives the address of each
  block's stack array, held as its 2048 words.
\<close>

definition fill_pcb :: "string \<Rightarrow> u32 \<Rightarrow> u32 \<Rightarrow> u32 \<Rightarrow> process \<Rightarrow> process" where
  "fill_pcb name priority ppid pid p = p\<lparr>p_pid := pid, p_ppid := ppid, p_priority := priority,
     p_state := PROC_READY, p_sleep_ticks := 0, p_cpu_time := 0, p_wake_tick := 0,
     p_name := pstrcpy (p_name p) name MAX_PROC_NAME\<rparr>"

definition build_stack :: "u32 \<Rightarrow> u32 \<Rightarrow> process \<Rightarrow> process" where
  "build_stack base entry p =
     (let (sp, st) = initial_frame entry (2048, p_stack p)
      in p\<lparr>p_stack := st, p_esp := base + of_nat (4 * sp)\<rparr>)"

text \<open>The insertion at the end of the circular list.\<close>

definition link_last :: "proc_ptr \<Rightarrow> proc_table \<Rightarrow> proc_table option" where
  "link_last np s = do {
     t \<leftarrow> find_last s (proc_list_head s);
     let s = upd_proc t (\<lambda>p. p\<lparr>p_next := np\<rparr>) s;
     Some (upd_proc np (\<lambda>p. p\<lparr>p_next := proc_list_head s\<rparr>) s)
   }"

definition process_create ::
  "(proc_ptr \<Rightarrow> u32) \<Rightarrow> string \<Rightarrow> u32 \<Rightarrow> u32 \<Rightarrow> u32 \<Rightarrow> proc_table \<Rightarrow> (int \<times> proc_table) option" where
  "process_create stack_at name entry priority ppid s =
     (case free_slot s of
        None \<Rightarrow> Some (-1, s)
      | Some i \<Rightarrow> do {
          let np = slot i;
          let s = upd_proc np (fill_pcb name priority ppid (proc_next_pid s))
                    (s\<lparr>proc_next_pid := proc_next_pid s + 1\<rparr>);
          let s = upd_proc np (build_stack (stack_at np) entry) s;
          s \<leftarrow> link_last np s;
          Some (sint (p_pid (procs s np)), s)
        })"

definition process_exit :: "u32 \<Rightarrow> proc_table \<Rightarrow> proc_table" where
  "process_exit pid s =
     (case find (\<lambda>i. p_pid (procs s (slot i)) = pid \<and> p_state (procs s (slot i)) \<noteq> PROC_UNUSED) [0..<MAX_PROCESSES] of
        None \<Rightarrow> s
      | Some i \<Rightarrow> upd_proc (slot i) (\<lambda>p. p\<lparr>p_state := PROC_ZOMBIE\<rparr>) s)"

definition process_get :: "u32 \<Rightarrow> proc_table \<Rightarrow> proc_ptr" where
  "process_get pid s =
     (case find (\<lambda>i. p_state (procs s (slot i)) \<noteq> PROC_UNUSED \<and> p_pid (procs s (slot i)) = pid) [0..<MAX_PROCESSES] of
        None \<Rightarrow> 0
      | Some i \<Rightarrow> slot i)"

definition process_current :: "proc_table \<Rightarrow> proc_ptr" where
  "process_current s = current_proc s"

definition process_count :: "proc_table \<Rightarrow> u32" where
  "process_count s = fold (\<lambda>i cnt. if p_state (procs s (slot i)) \<noteq> PROC_UNUSED \<and>
       p_state (procs s (slot i)) \<noteq> PROC_ZOMBIE then cnt + 1 else cnt) [0..<MAX_PROCESSES] 0"

text \<open>The bodies of the two loops of \<open>process_schedule\<close>.\<close>

definition wake_reap :: "u32 \<Rightarrow> process \<Rightarrow> process" where
  "wake_reap now p =
     (let p = (if p_state p = PROC_SLEEPING \<and> now \<ge> p_wake_tick p then p\<lparr>p_state := PROC_READY\<rparr> else p);
          p = (if p_state p = PROC_ZOMBIE then p\<lparr>p_state := PROC_UNUSED\<rparr> else p)
      in p\<lparr>p_cpu_time := p_cpu_time p + 1\<rparr>)"

definition consider_proc :: "proc_table \<Rightarrow> proc_ptr \<Rightarrow> proc_ptr \<times> u32 \<Rightarrow> proc_ptr \<times> u32" where
  "consider_proc s t = (\<lambda>(best, best_pri).
     if p_state (procs s t) = PROC_READY \<and> p_priority (procs s t) \<ge> best_pri
     then (t, p_priority (procs s t)) else (best, best_pri))"

definition process_schedule :: "u32 \<Rightarrow> u32 \<Rightarrow> proc_table \<Rightarrow> (u32 \<times> proc_table) option" where
  "process_schedule now esp s =
     (if current_proc s = 0 then Some (esp, s)
      else do {
        let s = upd_proc (current_proc s) (\<lambda>p. p\<lparr>p_esp := esp\<rparr>) s;
        let s = (if p_state (procs s (current_proc s)) = PROC_RUNNING
                 then upd_proc (current_proc s) (\<lambda>p. p\<lparr>p_state := PROC_READY\<rparr>) s else s);
        s \<leftarrow> ring_walk (\<lambda>t. upd_proc t (wake_reap now)) proc_links (proc_list_head s) (proc_list_head s) s;
        let stop = proc_links s (current_proc s);
        (best, best_pri) \<leftarrow> ring_walk (consider_proc s) (\<lambda>_. proc_links s) stop stop (0, 0);
        let best = (if best = 0 then slot 0 else best);
        let s = s\<lparr>current_proc := best\<rparr>;
        let s = upd_proc (current_proc s) (\<lambda>p. p\<lparr>p_state := PROC_RUNNING\<rparr>) s;
        Some (p_esp (procs s (current_proc s)), s)
      })"

text \<open>The state when \<open>int $32\<close> is raised; the interrupt runs the scheduler of \<^verbatim>\<open>task.c\<close>, not this one.\<close>

definition process_sleep :: "u32 \<Rightarrow> u32 \<Rightarrow> proc_table \<Rightarrow> proc_table" where
  "process_sleep now ticks s =
     (if ticks = 0 then s
      else upd_proc (current_proc s) (\<lambda>p. p\<lparr>p_sleep_ticks := ticks, p_wake_tick := now + ticks,
             p_state := PROC_SLEEPING\<rparr>) s)"

definition process_row :: "process \<Rightarrow> string list" where
  "process_row p = ['' ''] @ print_uint (p_pid p) @ [''     ''] @ print_uint (p_ppid p) @ [''     ''] @
     print_uint (p_priority p) @ [''    ''] @ print_uint (p_cpu_time p) @ [''    ''] @
     [state_str (p_state p), ''  '', cstr (p_name p), [newline]]"

definition process_list :: "proc_table \<Rightarrow> string list" where
  "process_list s = ['' PID  PPID  PRI  CPU    STATE     NAME'' @ [newline],
       '' ---  ----  ---  -----  --------  --------'' @ [newline]] @
     concat (map (\<lambda>i. if p_state (procs s (slot i)) = PROC_UNUSED then []
                      else process_row (procs s (slot i))) [0..<MAX_PROCESSES])"

section \<open>Invariants\<close>

text \<open>
  \<open>proc_ring s xs\<close>: the list from \<open>proc_list_head\<close>, which is the idle process, is the circle \<open>xs\<close>
  of table slots. \<open>proc_inv\<close> adds what holds until a reaped slot is handed out again: exactly the slots in
  use are on the list, and the numbers are distinct and below the next one.
\<close>

definition proc_ring :: "proc_table \<Rightarrow> proc_ptr list \<Rightarrow> bool" where
  "proc_ring s xs \<longleftrightarrow> circle (proc_links s) xs \<and> hd xs = slot 0 \<and> proc_list_head s = slot 0 \<and>
     set xs \<subseteq> slot ` {..<MAX_PROCESSES}"

definition proc_inv :: "proc_table \<Rightarrow> proc_ptr list \<Rightarrow> bool" where
  "proc_inv s xs \<longleftrightarrow> proc_ring s xs \<and> current_proc s \<in> set xs \<and>
     (\<forall>i<MAX_PROCESSES. slot i \<in> set xs \<longleftrightarrow> p_state (procs s (slot i)) \<noteq> PROC_UNUSED) \<and>
     inj_on (\<lambda>p. p_pid (procs s p)) (set xs) \<and> (\<forall>p\<in>set xs. p_pid (procs s p) < proc_next_pid s) \<and>
     (\<forall>i<MAX_PROCESSES. length (p_name (procs s (slot i))) = MAX_PROC_NAME \<and>
        length (p_stack (procs s (slot i))) = 2048)"

lemma upd_proc_simps [simp]:
  "procs (upd_proc p f s) = (procs s)(p := f (procs s p))"
  "proc_list_head (upd_proc p f s) = proc_list_head s"
  "current_proc (upd_proc p f s) = current_proc s"
  "proc_next_pid (upd_proc p f s) = proc_next_pid s"
  by (simp_all add: upd_proc_def)

lemma proc_links_upd_same: "(\<And>p. p_next (f p) = p_next p) \<Longrightarrow> proc_links (upd_proc p f s) = proc_links s"
  by auto

lemma wake_reap_frame [simp]:
  "p_next (wake_reap now p) = p_next p" "p_pid (wake_reap now p) = p_pid p"
  "p_priority (wake_reap now p) = p_priority p" "p_esp (wake_reap now p) = p_esp p"
  by (simp_all add: wake_reap_def Let_def)

interpretation pwake: link_preserving proc_links "\<lambda>t. upd_proc t (wake_reap now)" for now
  by unfold_locales (rule proc_links_upd_same, simp)

interpretation psel: link_preserving "\<lambda>_. proc_links s" "consider_proc s" for s
  by unfold_locales simp

interpretation pbest: last_choice "\<lambda>t. p_state (procs s t) = PROC_READY"
    "\<lambda>t. p_priority (procs s t)" "consider_proc s" for s
  by unfold_locales (simp add: consider_proc_def)

lemma length_pstrcpy [simp]: "0 < n \<Longrightarrow> n \<le> length d \<Longrightarrow> length (pstrcpy d s n) = length d"
  unfolding pstrcpy_def by (subst length_blit) (auto simp: str_prefix_eq)

lemma cstr_pstrcpy: "cstr (pstrcpy d s n) = take (n - 1) (cstr s)"
  by (simp add: pstrcpy_def str_prefix_eq cstr_blit take_no_NUL)

lemma print_uint_dec: "print_uint n = [dec_string (unat n)]"
proof (cases "n = 0")
  case True
  then show ?thesis by (simp add: print_uint_def dec_string.simps [of 0] digit_char_0)
next
  case False
  have "map (\<lambda>j. buf ! (length buf - 1 - j)) [0..<length buf] = rev buf" for buf :: string
    by (rule nth_equalityI) (auto simp: rev_nth)
  moreover have "rev (dec_loop 16 (unat n)) = dec_string (unat n)"
    using False unat_u32 [of n] by (intro dec_loop_rev) (auto simp: unat_gt_0)
  ultimately show ?thesis using False by (simp add: print_uint_def Let_def)
qed

section \<open>The list and the table\<close>

lemma find_last_linked:
  "linked (proc_links s) (y # ys) (proc_list_head s) \<Longrightarrow> proc_list_head s \<notin> set ys \<Longrightarrow>
    find_last s y = Some (last (y # ys))"
proof (induction ys arbitrary: y)
  case Nil
  then show ?case by (subst find_last.simps) simp
next
  case (Cons z ys)
  then have "find_last s z = Some (last (z # ys))" by simp
  with Cons.prems show ?case by (subst find_last.simps) simp
qed

lemma find_last_circle:
  "circle (proc_links s) (h # xs) \<Longrightarrow> proc_list_head s = h \<Longrightarrow> find_last s h = Some (last (h # xs))"
  by (rule find_last_linked) (auto simp: circle_def)

lemma free_slot_None: "free_slot s = None \<longleftrightarrow> (\<forall>i. 1 \<le> i \<and> i < MAX_PROCESSES \<longrightarrow> p_state (procs s (slot i)) \<noteq> PROC_UNUSED)"
  unfolding free_slot_def by (rule find_index_None)

text \<open>The new control block, and the table around it.\<close>

lemma pcb_frame [simp]:
  "p_next (fill_pcb name priority ppid pid p) = p_next p" "p_stack (fill_pcb name priority ppid pid p) = p_stack p"
  "p_next (build_stack base entry p) = p_next p" "p_pid (build_stack base entry p) = p_pid p"
  "p_state (build_stack base entry p) = p_state p" "p_name (build_stack base entry p) = p_name p"
  "p_pid (fill_pcb name priority ppid pid p) = pid" "p_state (fill_pcb name priority ppid pid p) = PROC_READY"
  "p_name (fill_pcb name priority ppid pid p) = pstrcpy (p_name p) name MAX_PROC_NAME"
  "length (p_stack (build_stack base entry p)) = length (p_stack p)"
  by (simp_all add: fill_pcb_def build_stack_def case_prod_unfold Let_def)

definition new_proc :: "(proc_ptr \<Rightarrow> u32) \<Rightarrow> string \<Rightarrow> u32 \<Rightarrow> u32 \<Rightarrow> u32 \<Rightarrow> proc_ptr \<Rightarrow> proc_table \<Rightarrow> process" where
  "new_proc stack_at name entry priority ppid np s = (build_stack (stack_at np) entry
     (fill_pcb name priority ppid (proc_next_pid s) (procs s np)))\<lparr>p_next := proc_list_head s\<rparr>"

definition after_create :: "proc_ptr \<Rightarrow> process \<Rightarrow> proc_ptr \<Rightarrow> proc_table \<Rightarrow> proc_table" where
  "after_create np pcb l s = s\<lparr>proc_next_pid := proc_next_pid s + 1,
     procs := (procs s)(l := (procs s l)\<lparr>p_next := np\<rparr>, np := pcb)\<rparr>"

lemma link_last_runs:
  assumes "circle (proc_links s) (h # xs)" and "proc_list_head s = h"
  shows "link_last np s = Some (upd_proc np (\<lambda>p. p\<lparr>p_next := h\<rparr>) (upd_proc (last (h # xs)) (\<lambda>p. p\<lparr>p_next := np\<rparr>) s))"
  using find_last_circle [OF assms] assms(2) by (simp add: link_last_def)

lemma relink:
  "upd_proc np (\<lambda>p. p\<lparr>p_next := h\<rparr>) (upd_proc l (\<lambda>p. p\<lparr>p_next := np\<rparr>)
      (upd_proc np f (upd_proc np g (s\<lparr>proc_next_pid := k\<rparr>)))) =
    s\<lparr>proc_next_pid := k, procs := (procs s)(l := (procs s l)\<lparr>p_next := np\<rparr>, np := (f (g (procs s np)))\<lparr>p_next := h\<rparr>)\<rparr>"
proof (cases "np = l")
  case True
  then show ?thesis by (simp add: upd_proc_def)
next
  case False
  then have "(procs s)(np := a, l := b, np := c) = (procs s)(l := b, np := c)" for a b c
    by (simp add: fun_eq_iff)
  with False show ?thesis by (simp add: upd_proc_def)
qed

lemma process_create_runs:
  assumes free: "free_slot s = Some i" and circ: "circle (proc_links s) (h # xs)" and h: "proc_list_head s = h"
  shows "process_create stack_at name entry priority ppid s = Some (sint (proc_next_pid s),
    after_create (slot i) (new_proc stack_at name entry priority ppid (slot i) s) (last (h # xs)) s)"
proof -
  let ?np = "slot i"
  let ?s1 = "upd_proc ?np (build_stack (stack_at ?np) entry)
     (upd_proc ?np (fill_pcb name priority ppid (proc_next_pid s)) (s\<lparr>proc_next_pid := proc_next_pid s + 1\<rparr>))"
  let ?s2 = "upd_proc ?np (\<lambda>p. p\<lparr>p_next := h\<rparr>) (upd_proc (last (h # xs)) (\<lambda>p. p\<lparr>p_next := ?np\<rparr>) ?s1)"
  have "proc_links ?s1 = proc_links s" by auto
  then have "link_last ?np ?s1 = Some ?s2"
    using circ h by (intro link_last_runs) simp_all
  then have "process_create stack_at name entry priority ppid s = Some (sint (p_pid (procs ?s2 ?np)), ?s2)"
    using free unfolding process_create_def Let_def by simp
  moreover have "p_pid (procs ?s2 ?np) = proc_next_pid s" by simp
  moreover have "?s2 = after_create ?np (new_proc stack_at name entry priority ppid ?np s) (last (h # xs)) s"
    unfolding relink new_proc_def after_create_def h ..
  ultimately show ?thesis by (simp only:)
qed

lemma after_create_simps [simp]:
  "current_proc (after_create np pcb l s) = current_proc s" "proc_list_head (after_create np pcb l s) = proc_list_head s"
  "proc_next_pid (after_create np pcb l s) = proc_next_pid s + 1"
  "procs (after_create np pcb l s) np = pcb"
  "p_state (procs (after_create np pcb l s) p) = (if p = np then p_state pcb else p_state (procs s p))"
  "p_pid (procs (after_create np pcb l s) p) = (if p = np then p_pid pcb else p_pid (procs s p))"
  "p_name (procs (after_create np pcb l s) p) = (if p = np then p_name pcb else p_name (procs s p))"
  "p_stack (procs (after_create np pcb l s) p) = (if p = np then p_stack pcb else p_stack (procs s p))"
  "proc_links (after_create np pcb l s) = (proc_links s)(l := np, np := p_next pcb)"
  by (auto simp: after_create_def)

lemma new_proc_simps [simp]:
  "p_pid (new_proc stack_at name entry priority ppid np s) = proc_next_pid s"
  "p_state (new_proc stack_at name entry priority ppid np s) = PROC_READY"
  "p_name (new_proc stack_at name entry priority ppid np s) = pstrcpy (p_name (procs s np)) name MAX_PROC_NAME"
  "p_next (new_proc stack_at name entry priority ppid np s) = proc_list_head s"
  "length (p_stack (new_proc stack_at name entry priority ppid np s)) = length (p_stack (procs s np))"
  by (simp_all add: new_proc_def)

lemma new_stack_resumes:
  assumes "length (p_stack p) = 2048"
  shows "irq_return 2034 (p_stack (build_stack base entry p)) = \<lparr>ds = 0x10, general = replicate 8 0,
    eip = entry, cs = 0x08, eflags = 0x0202, resume_sp = 2048\<rparr>"
proof -
  obtain sp st where f: "initial_frame entry (2048, p_stack p) = (sp, st)" by fastforce
  then show ?thesis
    using initial_frame_resumes [OF _ _ f] assms by (auto simp: build_stack_def)
qed

lemma proc_ring_Cons: "proc_ring s xs \<Longrightarrow> \<exists>ys. xs = slot 0 # ys"
  by (cases xs) (auto simp: proc_ring_def circle_def)

lemma proc_inv_slots:
  assumes "proc_inv s xs"
  shows "set xs = {slot i |i. i < MAX_PROCESSES \<and> p_state (procs s (slot i)) \<noteq> PROC_UNUSED}" and "slot 0 \<in> set xs"
proof -
  have sub: "set xs \<subseteq> slot ` {..<MAX_PROCESSES}" and iff: "\<forall>i<MAX_PROCESSES. slot i \<in> set xs \<longleftrightarrow> p_state (procs s (slot i)) \<noteq> PROC_UNUSED"
    using assms by (simp_all add: proc_inv_def proc_ring_def)
  then show "set xs = {slot i |i. i < MAX_PROCESSES \<and> p_state (procs s (slot i)) \<noteq> PROC_UNUSED}" by blast
  show "slot 0 \<in> set xs" using assms proc_ring_Cons [of s xs] unfolding proc_inv_def by auto
qed

lemma full_iff_no_free_slot:
  assumes "proc_inv s xs"
  shows "free_slot s = None \<longleftrightarrow> length xs = MAX_PROCESSES"
proof -
  have len: "length xs = card (set xs)"
    using assms by (simp add: proc_inv_def proc_ring_def circle_def distinct_card)
  have c: "card (slot ` {..<MAX_PROCESSES}) = MAX_PROCESSES" by (simp add: card_image)
  have sub: "set xs \<subseteq> slot ` {..<MAX_PROCESSES}" using assms by (simp add: proc_inv_def proc_ring_def)
  have "free_slot s = None \<longleftrightarrow> slot ` {..<MAX_PROCESSES} \<subseteq> set xs"
  proof
    assume "free_slot s = None"
    then have "\<And>i. 1 \<le> i \<Longrightarrow> i < MAX_PROCESSES \<Longrightarrow> slot i \<in> set xs"
      using assms by (simp add: free_slot_None proc_inv_def)
    with proc_inv_slots(2) [OF assms] show "slot ` {..<MAX_PROCESSES} \<subseteq> set xs"
      by (auto simp: image_iff) (metis One_nat_def less_Suc0 not_le)
  next
    assume "slot ` {..<MAX_PROCESSES} \<subseteq> set xs"
    with assms show "free_slot s = None" by (auto simp: free_slot_None proc_inv_def)
  qed
  also have "\<dots> \<longleftrightarrow> set xs = slot ` {..<MAX_PROCESSES}" using sub by auto
  also have "\<dots> \<longleftrightarrow> length xs = MAX_PROCESSES"
    unfolding len using c sub by (metis card_subset_eq finite_imageI finite_lessThan)
  finally show ?thesis .
qed

lemma process_get_member:
  assumes "proc_inv s xs" and "p \<in> set xs"
  shows "process_get (p_pid (procs s p)) s = p"
proof -
  obtain i where i: "p = slot i" "i < MAX_PROCESSES" "p_state (procs s (slot i)) \<noteq> PROC_UNUSED"
    using assms(2) unfolding proc_inv_slots(1) [OF assms(1)] by blast
  have "j = i" if "j < MAX_PROCESSES" "p_state (procs s (slot j)) \<noteq> PROC_UNUSED"
    "p_pid (procs s (slot j)) = p_pid (procs s p)" for j
  proof -
    have "slot j \<in> set xs" using that(1,2) assms(1) by (simp add: proc_inv_def)
    then have "slot j = p" using assms that(3) unfolding proc_inv_def inj_on_def by blast
    with i(1) show ?thesis by simp
  qed
  then have "find (\<lambda>i. p_state (procs s (slot i)) \<noteq> PROC_UNUSED \<and> p_pid (procs s (slot i)) = p_pid (procs s p))
      [0..<MAX_PROCESSES] = Some i"
    using i by (intro find_index_unique) auto
  then show ?thesis using i(1) by (simp add: process_get_def)
qed

lemma process_create_inv:
  assumes inv: "proc_inv s xs" and free: "free_slot s = Some i" and room: "unat (proc_next_pid s) < 2 ^ 32 - 1"
  shows "proc_inv (after_create (slot i) (new_proc stack_at name entry priority ppid (slot i) s) (last xs) s) (xs @ [slot i])"
    (is "proc_inv ?s _")
proof -
  let ?np = "slot i"
  have i: "i < MAX_PROCESSES" "?np \<notin> set xs" "1 \<le> i"
    using free inv unfolding free_slot_def by (auto dest!: find_index_Some simp: proc_inv_def)
  obtain ys where xs: "xs = slot 0 # ys" using inv proc_ring_Cons unfolding proc_inv_def by blast
  have "circle (proc_links s) xs" using inv by (simp add: proc_inv_def proc_ring_def)
  then have "circle ((proc_links s)(last xs := ?np, ?np := slot 0)) (xs @ [?np])"
    using circle_insert_last [of "proc_links s" "slot 0" ys ?np] i(2) unfolding xs by simp
  then have ring: "proc_ring ?s (xs @ [?np])"
    using inv i(1) xs by (auto simp: proc_inv_def proc_ring_def)
  have lt: "proc_next_pid s < proc_next_pid s + 1"
    using room by (simp add: word_less_nat_alt unat_u32_plus)
  have pid: "p_pid (procs ?s p) = (if p = ?np then proc_next_pid s else p_pid (procs s p))" for p by simp
  have old: "\<forall>p\<in>set xs. p_pid (procs s p) < proc_next_pid s" "inj_on (\<lambda>p. p_pid (procs s p)) (set xs)"
    using inv by (simp_all add: proc_inv_def)
  have "inj_on (\<lambda>p. p_pid (procs ?s p)) (set xs) \<longleftrightarrow> inj_on (\<lambda>p. p_pid (procs s p)) (set xs)"
    using i(2) by (intro inj_on_cong) (auto simp: pid)
  moreover have "p_pid (procs ?s ?np) \<notin> (\<lambda>p. p_pid (procs ?s p)) ` set xs"
    using i(2) old(1) unfolding pid by (auto split: if_splits)
  ultimately have "inj_on (\<lambda>p. p_pid (procs ?s p)) (set (xs @ [?np]))"
    using old(2) i(2) by simp
  moreover have "\<forall>p\<in>set (xs @ [?np]). p_pid (procs ?s p) < proc_next_pid ?s"
    using old(1) lt i(2) unfolding pid by (auto dest: less_trans)
  moreover have "\<forall>j<MAX_PROCESSES. slot j \<in> set (xs @ [?np]) \<longleftrightarrow> p_state (procs ?s (slot j)) \<noteq> PROC_UNUSED"
    using inv by (simp add: proc_inv_def)
  moreover have "\<forall>j<MAX_PROCESSES. length (p_name (procs ?s (slot j))) = MAX_PROC_NAME \<and> length (p_stack (procs ?s (slot j))) = 2048"
    using inv i(1) by (simp add: proc_inv_def MAX_PROC_NAME_def)
  ultimately show ?thesis using ring inv by (simp add: proc_inv_def)
qed

lemma proc_inv_length:
  assumes "proc_inv s xs"
  shows "length xs \<le> MAX_PROCESSES"
proof -
  have "distinct xs" "set xs \<subseteq> slot ` {..<MAX_PROCESSES}"
    using assms by (simp_all add: proc_inv_def proc_ring_def circle_def)
  then show ?thesis
    using card_mono [of "slot ` {..<MAX_PROCESSES}" "set xs"] by (simp add: distinct_card card_image)
qed

lemma process_create_slot:
  assumes "proc_inv s xs" and "unat (proc_next_pid s) < 2 ^ 31" and "free_slot s = Some i"
  defines "s' \<equiv> \<lambda>stack_at name entry priority ppid.
    after_create (slot i) (new_proc stack_at name entry priority ppid (slot i) s) (last xs) s"
  shows "process_create stack_at name entry priority ppid s = Some (uint (proc_next_pid s), s' stack_at name entry priority ppid)"
    and "proc_inv (s' stack_at name entry priority ppid) (xs @ [slot i])"
proof -
  obtain ys where xs: "xs = slot 0 # ys" using assms(1) proc_ring_Cons unfolding proc_inv_def by blast
  have "sint (proc_next_pid s) = uint (proc_next_pid s)"
    by (rule sint_u32_small [OF assms(2)])
  then show "process_create stack_at name entry priority ppid s = Some (uint (proc_next_pid s), s' stack_at name entry priority ppid)"
    using process_create_runs [OF assms(3), of "slot 0" ys] assms(1) xs by (simp add: proc_inv_def proc_ring_def s'_def)
  show "proc_inv (s' stack_at name entry priority ppid) (xs @ [slot i])"
    unfolding s'_def using assms(2) by (intro process_create_inv [OF assms(1,3)]) simp
qed

section \<open>Properties\<close>

text \<open>
  C22. Creating a process. While fewer than 16 slots are on the list, a call takes an unused slot, puts it at
  the end of the list, numbers it with the next number, truncates the name to 31 characters, and
  leaves a stack from which the process would start at \<open>entry\<close>; \<open>process_get\<close> finds it by the returned
  number, and every invariant of the table is kept. On a full table the answer is \<open>-1\<close> and nothing changes.
\<close>

theorem process_create_correct:
  assumes "proc_inv s xs" and "unat (proc_next_pid s) < 2 ^ 31"
  shows "if length xs < MAX_PROCESSES then
      \<exists>s' np. process_create stack_at name entry priority ppid s = Some (uint (proc_next_pid s), s') \<and>
        np \<notin> set xs \<and> proc_inv s' (xs @ [np]) \<and> process_get (proc_next_pid s) s' = np \<and>
        cstr (p_name (procs s' np)) = take 31 (cstr name) \<and>
        irq_return 2034 (p_stack (procs s' np)) = \<lparr>ds = 0x10, general = replicate 8 0, eip = entry, cs = 0x08,
          eflags = 0x0202, resume_sp = 2048\<rparr>
    else process_create stack_at name entry priority ppid s = Some (-1, s)"
proof (cases "free_slot s")
  case None
  then show ?thesis
    using full_iff_no_free_slot [OF assms(1)] by (simp add: process_create_def)
next
  case (Some i)
  let ?np = "slot i"
  let ?s = "after_create ?np (new_proc stack_at name entry priority ppid ?np s) (last xs) s"
  have i: "i < MAX_PROCESSES" "?np \<notin> set xs"
    using Some assms(1) unfolding free_slot_def by (auto dest!: find_index_Some simp: proc_inv_def)
  have len: "length xs < MAX_PROCESSES"
    using proc_inv_length [OF assms(1)] full_iff_no_free_slot [OF assms(1)] Some by simp
  note run = process_create_slot(1) [OF assms Some] and inv = process_create_slot(2) [OF assms Some]
  have "process_get (proc_next_pid s) ?s = ?np"
    using process_get_member [OF inv, of ?np] by simp
  moreover have "cstr (p_name (procs ?s ?np)) = take 31 (cstr name)"
    by (simp add: cstr_pstrcpy MAX_PROC_NAME_def)
  moreover have "irq_return 2034 (p_stack (procs ?s ?np)) = \<lparr>ds = 0x10, general = replicate 8 0,
      eip = entry, cs = 0x08, eflags = 0x0202, resume_sp = 2048\<rparr>"
    using assms(1) i(1) by (simp add: new_proc_def new_stack_resumes proc_inv_def)
  ultimately show ?thesis using len run inv i(2) by auto
qed

lemma fold_init_slots:
  "fold (\<lambda>i. upd_proc (slot i) f) [0..<n] s =
    s\<lparr>procs := (\<lambda>p. if p \<in> slot ` {..<n} then f (procs s p) else procs s p)\<rparr>"
proof (induction n)
  case (Suc n)
  moreover have "slot n \<notin> slot ` {..<n}" by auto
  ultimately show ?case by (auto simp: upd_proc_def lessThan_Suc fun_eq_iff)
qed simp

lemma process_init_inv [kinv]:
  assumes "\<forall>i<MAX_PROCESSES. length (p_name (procs s (slot i))) = MAX_PROC_NAME \<and> length (p_stack (procs s (slot i))) = 2048"
  shows "proc_inv (process_init s) [slot 0]"
  using assms unfolding process_init_def fold_init_slots
  by (auto simp: proc_inv_def proc_ring_def circle_def MAX_PROCESSES_def MAX_PROC_NAME_def)

definition raw_procs :: proc_table where
  "raw_procs = \<lparr>procs = (\<lambda>_. \<lparr>p_pid = 7, p_ppid = 0, p_name = replicate 32 NUL, p_state = PROC_ZOMBIE,
     p_priority = 0, p_esp = 0, p_sleep_ticks = 0, p_cpu_time = 0, p_wake_tick = 0, p_stack = replicate 2048 0,
     p_next = 0\<rparr>), proc_list_head = 0, current_proc = 0, proc_next_pid = 9\<rparr>"

lemma init_raw_procs: "proc_inv (process_init raw_procs) [slot 0]"
  by (rule process_init_inv) (simp add: raw_procs_def MAX_PROC_NAME_def)

lemma process_init_pid [simp]: "proc_next_pid (process_init s) = 1"
  by (simp add: process_init_def Let_def)

theorem process_create_correct_witness:
  "if length [slot 0] < MAX_PROCESSES then
      \<exists>s' np. process_create (\<lambda>p. 0x8000) ''worker'' 0x4000 1 0 (process_init raw_procs) =
          Some (uint (proc_next_pid (process_init raw_procs)), s') \<and>
        np \<notin> set [slot 0] \<and> proc_inv s' ([slot 0] @ [np]) \<and>
        process_get (proc_next_pid (process_init raw_procs)) s' = np \<and>
        cstr (p_name (procs s' np)) = take 31 (cstr ''worker'') \<and>
        irq_return 2034 (p_stack (procs s' np)) = \<lparr>ds = 0x10, general = replicate 8 0, eip = 0x4000, cs = 0x08,
          eflags = 0x0202, resume_sp = 2048\<rparr>
    else process_create (\<lambda>p. 0x8000) ''worker'' 0x4000 1 0 (process_init raw_procs) = Some (-1, process_init raw_procs)"
  by (rule process_create_correct [OF init_raw_procs]) simp

text \<open>Which processes \<open>process_count\<close> counts.\<close>

abbreviation live :: "process \<Rightarrow> bool" where
  "live p \<equiv> p_state p \<noteq> PROC_UNUSED \<and> p_state p \<noteq> PROC_ZOMBIE"

lemma process_count_card:
  "process_count s = of_nat (card {i. i < MAX_PROCESSES \<and> live (procs s (slot i))})"
proof -
  have "fold (\<lambda>i cnt. if live (procs s (slot i)) then cnt + 1 else cnt) [0..<n] (0 :: u32) =
      of_nat (card {i. i < n \<and> live (procs s (slot i))})" for n
  proof (induction n)
    case (Suc n)
    have "{i. i < Suc n \<and> live (procs s (slot i))} =
        (if live (procs s (slot n)) then insert n else (\<lambda>A. A)) {i. i < n \<and> live (procs s (slot i))}"
      by (auto simp: less_Suc_eq)
    with Suc show ?case by simp
  qed simp
  then show ?thesis by (simp add: process_count_def)
qed

lemma of_nat_card_remove:
  "finite A \<Longrightarrow> of_nat (card (A - {i})) = (of_nat (card A) - (if i \<in> A then 1 else 0) :: u32)"
proof (cases "i \<in> A")
  case True
  assume "finite A"
  from this True have "card A = Suc (card (A - {i}))" by (rule card.remove)
  then have "(of_nat (card A) :: u32) = of_nat (card (A - {i})) + 1" by simp
  with True show ?thesis by simp
qed simp

lemma process_exit_member:
  assumes "proc_inv s xs" and "p \<in> set xs"
  shows "process_exit (p_pid (procs s p)) s = upd_proc p (\<lambda>p. p\<lparr>p_state := PROC_ZOMBIE\<rparr>) s"
proof -
  have "(\<lambda>i. p_pid (procs s (slot i)) = p_pid (procs s p) \<and> p_state (procs s (slot i)) \<noteq> PROC_UNUSED) =
      (\<lambda>i. p_state (procs s (slot i)) \<noteq> PROC_UNUSED \<and> p_pid (procs s (slot i)) = p_pid (procs s p))"
    by auto
  moreover have "p \<noteq> 0" using assms by (auto simp: proc_inv_slots(1))
  ultimately show ?thesis
    using process_get_member [OF assms] unfolding process_get_def process_exit_def
    by (auto split: option.splits)
qed

text \<open>
  Ending a process: \<open>process_exit\<close> of the number of a process in use makes exactly that process a
  zombie, which \<open>process_get\<close> still finds and the list still holds; the count drops by one if it was
  live. A number no process in use has changes nothing.
\<close>

theorem process_exit_correct:
  assumes "proc_inv s xs"
  shows "if \<exists>p\<in>set xs. p_pid (procs s p) = pid then
      \<exists>p\<in>set xs. p_pid (procs s p) = pid \<and> proc_inv (process_exit pid s) xs \<and>
        procs (process_exit pid s) = (procs s)(p := (procs s p)\<lparr>p_state := PROC_ZOMBIE\<rparr>) \<and>
        process_get pid (process_exit pid s) = p \<and>
        process_count (process_exit pid s) = process_count s - (if live (procs s p) then 1 else 0)
    else process_exit pid s = s"
proof (cases "\<exists>p\<in>set xs. p_pid (procs s p) = pid")
  case True
  then obtain p where p: "p \<in> set xs" "p_pid (procs s p) = pid" by blast
  let ?s = "upd_proc p (\<lambda>p. p\<lparr>p_state := PROC_ZOMBIE\<rparr>) s"
  have exit: "process_exit pid s = ?s" using process_exit_member [OF assms p(1)] p(2) by simp
  have links: "proc_links ?s = proc_links s" by auto
  have pids: "(\<lambda>q. p_pid (procs ?s q)) = (\<lambda>q. p_pid (procs s q))" by auto
  have "proc_ring ?s xs" using assms links by (simp add: proc_inv_def proc_ring_def)
  moreover have "inj_on (\<lambda>q. p_pid (procs ?s q)) (set xs)" unfolding pids using assms by (simp add: proc_inv_def)
  moreover have "\<forall>i<MAX_PROCESSES. slot i \<in> set xs \<longleftrightarrow> p_state (procs ?s (slot i)) \<noteq> PROC_UNUSED"
    using assms p(1) by (auto simp: proc_inv_def)
  moreover have "\<forall>i<MAX_PROCESSES. length (p_name (procs ?s (slot i))) = MAX_PROC_NAME \<and> length (p_stack (procs ?s (slot i))) = 2048"
    "\<forall>q\<in>set xs. p_pid (procs ?s q) < proc_next_pid ?s" "current_proc ?s \<in> set xs"
    using assms by (auto simp: proc_inv_def)
  ultimately have inv: "proc_inv ?s xs" unfolding proc_inv_def by blast
  have got: "process_get pid ?s = p" using process_get_member [OF inv p(1)] p(2) by simp
  obtain i where i: "p = slot i" "i < MAX_PROCESSES"
    using p(1) by (auto simp: proc_inv_slots(1) [OF assms])
  define A where "A = {j. j < MAX_PROCESSES \<and> live (procs s (slot j))}"
  have "{j. j < MAX_PROCESSES \<and> live (procs ?s (slot j))} = A - {i}"
    using i(1) by (auto simp: A_def)
  moreover have "of_nat (card (A - {i})) = (of_nat (card A) - (if i \<in> A then 1 else 0) :: u32)"
    by (rule of_nat_card_remove) (simp add: A_def)
  moreover have "i \<in> A \<longleftrightarrow> live (procs s p)" using i by (simp add: A_def)
  ultimately have count: "process_count ?s = process_count s - (if live (procs s p) then 1 else 0)"
    unfolding process_count_card A_def [symmetric] by (simp only:)
  have "procs ?s = (procs s)(p := (procs s p)\<lparr>p_state := PROC_ZOMBIE\<rparr>)" by simp
  with p inv got count show ?thesis unfolding if_P [OF True] exit by (intro bexI [of _ p] conjI)
next
  case False
  then have "find (\<lambda>i. p_pid (procs s (slot i)) = pid \<and> p_state (procs s (slot i)) \<noteq> PROC_UNUSED) [0..<MAX_PROCESSES] = None"
    using assms by (auto simp: find_index_None proc_inv_def)
  with False show ?thesis by (simp add: process_exit_def)
qed

theorem process_exit_correct_witness:
  "if \<exists>p\<in>set [slot 0]. p_pid (procs (process_init raw_procs) p) = 0 then
      \<exists>p\<in>set [slot 0]. p_pid (procs (process_init raw_procs) p) = 0 \<and> proc_inv (process_exit 0 (process_init raw_procs)) [slot 0] \<and>
        procs (process_exit 0 (process_init raw_procs)) =
          (procs (process_init raw_procs))(p := (procs (process_init raw_procs) p)\<lparr>p_state := PROC_ZOMBIE\<rparr>) \<and>
        process_get 0 (process_exit 0 (process_init raw_procs)) = p \<and>
        process_count (process_exit 0 (process_init raw_procs)) =
          process_count (process_init raw_procs) - (if live (procs (process_init raw_procs) p) then 1 else 0)
    else process_exit 0 (process_init raw_procs) = process_init raw_procs"
  by (rule process_exit_correct [OF init_raw_procs])

section \<open>The process scheduler\<close>

text \<open>A control block after the first loop of \<open>process_schedule\<close>.\<close>

definition suspend :: "u32 \<Rightarrow> process \<Rightarrow> process" where
  "suspend esp p = (if p_state p = PROC_RUNNING then p\<lparr>p_esp := esp, p_state := PROC_READY\<rparr> else p\<lparr>p_esp := esp\<rparr>)"

definition settled :: "u32 \<Rightarrow> u32 \<Rightarrow> proc_table \<Rightarrow> proc_ptr \<Rightarrow> process" where
  "settled now esp s t = wake_reap now (if t = current_proc s then suspend esp (procs s t) else procs s t)"

definition after_wake :: "u32 \<Rightarrow> u32 \<Rightarrow> proc_ptr list \<Rightarrow> proc_table \<Rightarrow> proc_table" where
  "after_wake now esp xs s = s\<lparr>procs := (\<lambda>t. if t \<in> set xs then settled now esp s t else procs s t)\<rparr>"

lemma suspend_frame [simp]: "p_next (suspend esp p) = p_next p" "p_priority (suspend esp p) = p_priority p"
  by (simp_all add: suspend_def)

lemma settled_frame [simp]:
  "p_next (settled now esp s t) = p_next (procs s t)" "p_priority (settled now esp s t) = p_priority (procs s t)"
  by (simp_all add: settled_def)

lemma after_wake_simps [simp]:
  "proc_links (after_wake now esp xs s) = proc_links s" "current_proc (after_wake now esp xs s) = current_proc s"
  "t \<in> set xs \<Longrightarrow> procs (after_wake now esp xs s) t = settled now esp s t"
  by (auto simp: after_wake_def)

lemma fold_upd_proc:
  "distinct xs \<Longrightarrow> fold (\<lambda>t. upd_proc t f) xs s =
    s\<lparr>procs := (\<lambda>t. if t \<in> set xs then f (procs s t) else procs s t)\<rparr>"
proof (induction xs arbitrary: s)
  case (Cons x xs)
  then show ?case by (auto simp: upd_proc_def fun_eq_iff intro!: arg_cong [where f = "\<lambda>m. s\<lparr>procs := m\<rparr>"])
qed simp

lemma wake_phase:
  assumes ring: "proc_ring s xs" and c: "current_proc s \<in> set xs"
  shows "ring_walk (\<lambda>t. upd_proc t (wake_reap now)) proc_links (slot 0) (slot 0) (upd_proc (current_proc s) (suspend esp) s) =
    Some (after_wake now esp xs s)"
proof -
  let ?s = "upd_proc (current_proc s) (suspend esp) s"
  have l: "proc_links ?s = proc_links s" by auto
  obtain ys where xs: "xs = slot 0 # ys" using proc_ring_Cons [OF ring] by blast
  have circ: "circle (proc_links s) (slot 0 # ys)" using ring unfolding proc_ring_def xs by simp
  have "ring_walk (\<lambda>t. upd_proc t (wake_reap now)) proc_links (slot 0) (slot 0) ?s =
      Some (fold (\<lambda>t. upd_proc t (wake_reap now)) (slot 0 # ys) ?s)"
    using circ by (intro pwake.walk_circle) (simp only: l)
  also have "fold (\<lambda>t. upd_proc t (wake_reap now)) (slot 0 # ys) ?s = after_wake now esp xs s"
    using fold_upd_proc [of xs "wake_reap now" ?s] circ c unfolding xs after_wake_def settled_def circle_def
    by (auto simp: upd_proc_def fun_eq_iff)
  finally show ?thesis .
qed

lemma pick_phase:
  assumes circ: "circle (proc_links s) (c # ys)" and nz: "0 \<notin> set (c # ys)"
  shows "\<exists>b p. ring_walk (consider_proc s) (\<lambda>_. proc_links s) (proc_links s c) (proc_links s c) (0, 0) = Some (b, p) \<and>
    (if \<exists>t\<in>set (c # ys). p_state (procs s t) = PROC_READY
     then last_max (\<lambda>t. p_state (procs s t) = PROC_READY) (\<lambda>t. p_priority (procs s t)) (ys @ [c]) b \<and> b \<noteq> 0
     else b = 0)"
proof -
  let ?ok = "\<lambda>t. p_state (procs s t) = PROC_READY" and ?key = "\<lambda>t. p_priority (procs s t)"
  have rot: "rotate1 (c # ys) = proc_links s c # tl (ys @ [c])" and rot': "rotate1 (c # ys) = ys @ [c]"
    using circ by (cases ys; simp add: circle_def)+
  have "circle (proc_links s) (rotate1 (c # ys))" by (rule circle_rotate1 [OF circ])
  then have walk: "ring_walk (consider_proc s) (\<lambda>_. proc_links s) (proc_links s c) (proc_links s c) (0, 0) =
      Some (fold (consider_proc s) (ys @ [c]) (0, 0))"
    using psel.walk_circle [of s "proc_links s c" "tl (ys @ [c])" "(0, 0)"]
    unfolding rot [symmetric] rot' by simp
  obtain b p where bp: "fold (consider_proc s) (ys @ [c]) (0, 0) = (b, p)" by fastforce
  from pbest.choose [where s = s and xs = "ys @ [c]" and b = 0 and p = 0] bp
  have "(\<forall>x\<in>set (ys @ [c]). ?ok x \<longrightarrow> ?key x < 0) \<and> b = 0 \<or> last_max ?ok ?key (ys @ [c]) b" by auto
  then show ?thesis
  proof
    assume "last_max ?ok ?key (ys @ [c]) b"
    then have b: "b \<in> set (c # ys)" "?ok b" using last_max_mem by fastforce+
    then have "\<exists>t\<in>set (c # ys). ?ok t" "b \<noteq> 0" using nz by (blast, metis)
    with walk bp \<open>last_max ?ok ?key (ys @ [c]) b\<close> show ?thesis by (intro exI [of _ b] exI [of _ p]) simp
  next
    assume "(\<forall>x\<in>set (ys @ [c]). ?ok x \<longrightarrow> ?key x < 0) \<and> b = 0"
    then have "\<not> (\<exists>t\<in>set (c # ys). ?ok t)" "b = 0" by (auto simp: word_less_nat_alt)
    with walk bp show ?thesis by (intro exI [of _ b] exI [of _ p]) simp
  qed
qed

lemma suspend_steps:
  "(let s = upd_proc c (\<lambda>p. p\<lparr>p_esp := esp\<rparr>) s
    in if p_state (procs s c) = PROC_RUNNING then upd_proc c (\<lambda>p. p\<lparr>p_state := PROC_READY\<rparr>) s else s) =
   upd_proc c (suspend esp) s"
  by (simp add: upd_proc_def suspend_def Let_def)

lemma process_schedule_runs:
  assumes ring: "proc_ring s xs" and c: "current_proc s = c"
    and circ: "circle (proc_links s) (c # ys)" and set: "set (c # ys) = set xs"
  shows "\<exists>r. process_schedule now esp s = Some (p_esp (settled now esp s r),
      upd_proc r (\<lambda>p. p\<lparr>p_state := PROC_RUNNING\<rparr>) (after_wake now esp xs s\<lparr>current_proc := r\<rparr>)) \<and> r \<in> set xs \<and>
    (if \<exists>t\<in>set xs. p_state (settled now esp s t) = PROC_READY
     then last_max (\<lambda>t. p_state (settled now esp s t) = PROC_READY) (\<lambda>t. p_priority (procs s t)) (ys @ [c]) r
     else r = slot 0)"
proof -
  let ?s = "after_wake now esp xs s"
  have cx: "current_proc s \<in> set xs" using c set by auto
  have nz: "0 \<notin> set (c # ys)" using ring unfolding set proc_ring_def by auto
  have "circle (proc_links ?s) (c # ys)" using circ by simp
  from pick_phase [OF this nz] obtain b p where
    walk: "ring_walk (consider_proc ?s) (\<lambda>_. proc_links ?s) (proc_links ?s c) (proc_links ?s c) (0, 0) = Some (b, p)"
    and pick: "if \<exists>t\<in>set xs. p_state (procs ?s t) = PROC_READY
     then last_max (\<lambda>t. p_state (procs ?s t) = PROC_READY) (\<lambda>t. p_priority (procs ?s t)) (ys @ [c]) b \<and> b \<noteq> 0
     else b = 0" unfolding set by blast
  let ?r = "if b = 0 then slot 0 else b"
  have "last_max (\<lambda>t. p_state (procs ?s t) = PROC_READY) (\<lambda>t. p_priority (procs ?s t)) (ys @ [c]) b =
      last_max (\<lambda>t. p_state (settled now esp s t) = PROC_READY) (\<lambda>t. p_priority (procs s t)) (ys @ [c]) b"
    using set by (intro last_max_cong) auto
  then have choice: "if \<exists>t\<in>set xs. p_state (settled now esp s t) = PROC_READY
     then last_max (\<lambda>t. p_state (settled now esp s t) = PROC_READY) (\<lambda>t. p_priority (procs s t)) (ys @ [c]) ?r
     else ?r = slot 0"
    using pick by (auto split: if_splits)
  have "slot 0 \<in> set xs" using proc_ring_Cons [OF ring] by auto
  moreover have "b \<in> set xs" if "b \<noteq> 0"
    using pick that last_max_mem set by (fastforce split: if_splits)
  ultimately have r: "?r \<in> set xs" by simp
  have "process_schedule now esp s = Some (p_esp (procs ?s ?r),
      upd_proc ?r (\<lambda>p. p\<lparr>p_state := PROC_RUNNING\<rparr>) (?s\<lparr>current_proc := ?r\<rparr>))"
    using ring cx c wake_phase [OF ring cx, of now esp] walk suspend_steps [of c esp s]
    by (auto simp: process_schedule_def Let_def proc_ring_def)
  then show ?thesis
    using choice r unfolding after_wake_simps(3) [OF r] by (intro exI [of _ ?r] conjI)
qed

text \<open>
  C26. One decision of the process scheduler: read from the process after the current one, the current
  one last, the \<^emph>\<open>last\<close> ready process of the highest priority runs next, the idle process when none is ready; sleepers
  whose time has come are woken first and zombies lose their slot. Every process on the list is charged
  a tick.
\<close>

theorem process_schedule_correct:
  assumes "proc_ring s xs" and "current_proc s = c" and "circle (proc_links s) (c # ys)" and "set (c # ys) = set xs"
  shows "\<exists>r s'. process_schedule now esp s = Some (p_esp (procs s' r), s') \<and> current_proc s' = r \<and>
    (if \<exists>t\<in>set xs. p_state (settled now esp s t) = PROC_READY
     then last_max (\<lambda>t. p_state (settled now esp s t) = PROC_READY) (\<lambda>t. p_priority (procs s t)) (ys @ [c]) r
     else r = slot 0) \<and>
    (\<forall>t\<in>set xs. procs s' t = (if t = r then (settled now esp s t)\<lparr>p_state := PROC_RUNNING\<rparr> else settled now esp s t)) \<and>
    proc_ring s' xs"
proof -
  from process_schedule_runs [OF assms, of now esp] obtain r where
    run: "process_schedule now esp s = Some (p_esp (settled now esp s r),
      upd_proc r (\<lambda>p. p\<lparr>p_state := PROC_RUNNING\<rparr>) (after_wake now esp xs s\<lparr>current_proc := r\<rparr>))"
    and r: "r \<in> set xs"
    and choice: "if \<exists>t\<in>set xs. p_state (settled now esp s t) = PROC_READY
     then last_max (\<lambda>t. p_state (settled now esp s t) = PROC_READY) (\<lambda>t. p_priority (procs s t)) (ys @ [c]) r
     else r = slot 0" by blast
  let ?s = "upd_proc r (\<lambda>p. p\<lparr>p_state := PROC_RUNNING\<rparr>) (after_wake now esp xs s\<lparr>current_proc := r\<rparr>)"
  have "proc_links ?s = proc_links s" by (auto simp: after_wake_def)
  then have "proc_ring ?s xs" using assms(1) by (simp add: proc_ring_def after_wake_def)
  with run r choice show ?thesis by (intro exI [of _ r] exI [of _ ?s]) simp
qed

lemma init_raw_ring: "proc_ring (process_init raw_procs) [slot 0]"
  using init_raw_procs by (simp add: proc_inv_def)

lemma init_raw_circle: "circle (proc_links (process_init raw_procs)) [slot 0]"
  using init_raw_ring by (simp add: proc_ring_def)

lemma process_init_current: "current_proc (process_init s) = slot 0"
  by (simp add: process_init_def Let_def)

theorem process_schedule_correct_witness:
  "\<exists>r s'. process_schedule 100 0x9000 (process_init raw_procs) = Some (p_esp (procs s' r), s') \<and> current_proc s' = r \<and>
    (if \<exists>t\<in>set [slot 0]. p_state (settled 100 0x9000 (process_init raw_procs) t) = PROC_READY
     then last_max (\<lambda>t. p_state (settled 100 0x9000 (process_init raw_procs) t) = PROC_READY)
       (\<lambda>t. p_priority (procs (process_init raw_procs) t)) ([] @ [slot 0]) r
     else r = slot 0) \<and>
    (\<forall>t\<in>set [slot 0]. procs s' t = (if t = r then (settled 100 0x9000 (process_init raw_procs) t)\<lparr>p_state := PROC_RUNNING\<rparr>
       else settled 100 0x9000 (process_init raw_procs) t)) \<and>
    proc_ring s' [slot 0]"
  by (rule process_schedule_correct [OF init_raw_ring process_init_current init_raw_circle]) simp

text \<open>
  The running process keeps the processor against processes of its own priority: as long as no
  ready process has a strictly higher priority, every decision chooses the current one again. (The
  comparison is \<open>>=\<close> and the current process is looked at last.)
\<close>

theorem process_schedule_sticky:
  assumes "proc_ring s xs" and "current_proc s \<in> set xs"
    and "p_state (procs s (current_proc s)) \<in> {PROC_RUNNING, PROC_READY}"
    and "\<forall>t\<in>set xs. p_state (settled now esp s t) = PROC_READY \<longrightarrow>
      p_priority (procs s t) \<le> p_priority (procs s (current_proc s))"
  shows "\<exists>s'. process_schedule now esp s = Some (esp, s') \<and> current_proc s' = current_proc s"
proof -
  let ?c = "current_proc s"
  obtain ys where ys: "circle (proc_links s) (?c # ys)" "set (?c # ys) = set xs"
    using circle_from [OF _ assms(2)] assms(1) unfolding proc_ring_def by metis
  have c: "p_state (settled now esp s ?c) = PROC_READY" "p_esp (settled now esp s ?c) = esp"
    using assms(3) by (auto simp: settled_def suspend_def wake_reap_def Let_def)
  from process_schedule_runs [OF assms(1) refl ys, of now esp] obtain r where
    run: "process_schedule now esp s = Some (p_esp (settled now esp s r),
      upd_proc r (\<lambda>p. p\<lparr>p_state := PROC_RUNNING\<rparr>) (after_wake now esp xs s\<lparr>current_proc := r\<rparr>))"
    and best: "last_max (\<lambda>t. p_state (settled now esp s t) = PROC_READY) (\<lambda>t. p_priority (procs s t)) (ys @ [?c]) r"
    using assms(2) c(1) by metis
  have "set ys \<subseteq> set xs" using ys(2) by auto
  with assms(4) have "r = ?c" by (intro last_max_end [OF best c(1)]) blast
  with run c(2) show ?thesis by simp
qed

theorem process_schedule_sticky_witness:
  "\<exists>s'. process_schedule 100 0x9000 (process_init raw_procs) = Some (0x9000, s') \<and>
    current_proc s' = current_proc (process_init raw_procs)"
proof (rule process_schedule_sticky [OF init_raw_ring])
  show "current_proc (process_init raw_procs) \<in> set [slot 0]" by (simp add: process_init_current)
  have "p_state (procs (process_init s) (slot 0)) = PROC_READY" for s by (simp add: process_init_def Let_def)
  then show "p_state (procs (process_init raw_procs) (current_proc (process_init raw_procs))) \<in> {PROC_RUNNING, PROC_READY}"
    by (simp add: process_init_current)
qed (simp add: process_init_current)

section \<open>Reused slots\<close>

text \<open>
  A reaped slot is unused but still on the list. When \<open>process_create\<close> takes it again, it is linked to the
  head of the list and everything that stood behind it falls off.
\<close>

lemma circle_cut:
  assumes "circle nx (h # us @ np # vs)"
  shows "circle (nx(last (np # vs) := np, np := h)) (h # us @ [np])"
proof -
  have d: "distinct (h # us @ np # vs)" and l: "linked nx ((h # us) @ np # vs) h"
    using assms by (simp_all add: circle_def)
  have "linked nx (h # us) np" using l unfolding linked_append by simp
  moreover have "last (np # vs) \<notin> set (h # us)" "np \<notin> set (h # us)"
    using d last_in_set [of "np # vs"] by auto
  ultimately have "linked (nx(last (np # vs) := np, np := h)) ((h # us) @ [np]) h"
    unfolding linked_append by (auto simp del: last.simps)
  with d show ?thesis by (simp add: circle_def)
qed

lemma process_create_reuse:
  assumes "circle (proc_links s) (slot 0 # us @ slot i # vs)" and "proc_list_head s = slot 0" and "free_slot s = Some i"
  shows "\<exists>pid s'. process_create stack_at name entry priority ppid s = Some (pid, s') \<and>
    proc_list_head s' = slot 0 \<and> current_proc s' = current_proc s \<and>
    circle (proc_links s') (slot 0 # us @ [slot i]) \<and>
    proc_links s' = (proc_links s)(last (slot i # vs) := slot i, slot i := slot 0) \<and>
    (\<forall>v. v \<noteq> slot i \<longrightarrow> p_state (procs s' v) = p_state (procs s v))"
proof -
  have l: "last (slot 0 # us @ slot i # vs) = last (slot i # vs)" by simp
  let ?s = "after_create (slot i) (new_proc stack_at name entry priority ppid (slot i) s) (last (slot i # vs)) s"
  have links: "proc_links ?s = (proc_links s)(last (slot i # vs) := slot i, slot i := slot 0)"
    using assms(2) by (simp del: last.simps)
  show ?thesis
    using process_create_runs [OF assms(3,1,2), of stack_at name entry priority ppid] circle_cut [OF assms(1)] links assms(2)
    unfolding l by (intro exI [of _ "sint (proc_next_pid s)"] exI [of _ ?s]) (simp del: last.simps)
qed

text \<open>
  Creating a process in a reaped slot that is not the last of the list succeeds, but afterwards
  the list ends at the new process: those that stood behind the slot, whatever their state, are on
  it no more, so the scheduler no longer wakes or chooses them.
\<close>

theorem process_create_drops_successors:
  assumes "proc_ring s (slot 0 # us @ slot i # vs)" and "free_slot s = Some i"
  shows "\<exists>pid s'. process_create stack_at name entry priority ppid s = Some (pid, s') \<and>
    proc_ring s' (slot 0 # us @ [slot i]) \<and>
    (\<forall>v\<in>set vs. v \<notin> set (slot 0 # us @ [slot i]) \<and> p_state (procs s' v) = p_state (procs s v))"
proof -
  have circ: "circle (proc_links s) (slot 0 # us @ slot i # vs)" and head: "proc_list_head s = slot 0"
    using assms(1) by (simp_all add: proc_ring_def)
  then have d: "\<forall>v\<in>set vs. v \<notin> set (slot 0 # us @ [slot i])" by (auto simp: circle_def)
  from process_create_reuse [OF circ head assms(2), of stack_at name entry priority ppid] obtain pid s' where
    "process_create stack_at name entry priority ppid s = Some (pid, s')" "proc_list_head s' = slot 0"
    "circle (proc_links s') (slot 0 # us @ [slot i])" "\<forall>v. v \<noteq> slot i \<longrightarrow> p_state (procs s' v) = p_state (procs s v)"
    by blast
  moreover have "set (slot 0 # us @ [slot i]) \<subseteq> slot ` {..<MAX_PROCESSES}"
    using assms(1) by (auto simp: proc_ring_def)
  ultimately show ?thesis using d by (auto simp: proc_ring_def)
qed

text \<open>
  Five processes; the second slot was reaped, the process in the third is running.
\<close>

definition reaped_procs :: proc_table where
  "reaped_procs = \<lparr>procs = (\<lambda>p. \<lparr>p_pid = of_nat p, p_ppid = 0, p_name = replicate 32 NUL,
     p_state = (if p = 2 \<or> 5 < p then PROC_UNUSED else if p = 3 then PROC_RUNNING else PROC_READY),
     p_priority = 1, p_esp = 0, p_sleep_ticks = 0, p_cpu_time = 0, p_wake_tick = 0, p_stack = replicate 2048 0,
     p_next = (if p = 5 then 1 else p + 1)\<rparr>), proc_list_head = 1, current_proc = 3, proc_next_pid = 9\<rparr>"

lemma reaped_ring: "proc_ring reaped_procs (slot 0 # [] @ slot 1 # [3, 4, 5])"
  by (auto simp: proc_ring_def reaped_procs_def circle_def MAX_PROCESSES_def numeral_eq_Suc lessThan_Suc)

lemma reaped_free: "free_slot reaped_procs = Some 1"
  by (simp add: free_slot_def reaped_procs_def MAX_PROCESSES_def upt_rec)

theorem process_create_drops_successors_witness:
  "\<exists>pid s'. process_create (\<lambda>p. 0x8000) ''late'' 0x4000 1 0 reaped_procs = Some (pid, s') \<and>
    proc_ring s' (slot 0 # [] @ [slot 1]) \<and>
    (\<forall>v\<in>set [3, 4, 5]. v \<notin> set (slot 0 # [] @ [slot 1]) \<and> p_state (procs s' v) = p_state (procs reaped_procs v))"
  by (rule process_create_drops_successors [OF reaped_ring reaped_free])

text \<open>
  What is left of the links when the current process \<open>c\<close> fell off the list with \<open>d\<close> behind it: they lead
  from \<open>d\<close> on to the list and never back.
\<close>

lemma lost_links:
  assumes circ: "circle nx (h # us @ np # as @ c # d # bs)"
    and nx': "nx' = nx(last (np # as @ c # d # bs) := np, np := h)"
  defines "A \<equiv> set bs \<union> set (h # us @ [np])"
  shows "nx' c = d \<and> nx' d \<in> A \<and> d \<notin> A \<and> (\<forall>x\<in>A. nx' x \<in> A)"
proof -
  have dist: "distinct ((h # us @ np # as @ [c]) @ d # bs)" using circ by (simp add: circle_def)
  have l: "linked nx ((h # us @ np # as) @ c # d # bs) h" using circ by (simp add: circle_def)
  then have "linked nx (c # d # bs) h" unfolding linked_append by blast
  then have c: "nx c = d" and db: "linked nx (d # bs) h" by simp_all
  have last: "last (np # as @ c # d # bs) = last (d # bs)" by simp
  then have "last (d # bs) \<in> set (d # bs)" by simp
  with dist last have ne: "c \<noteq> last (np # as @ c # d # bs)" "c \<noteq> np" "np \<notin> set (d # bs)" by auto
  have "linked (nx(last (d # bs) := np)) (d # bs) np"
    using dist by (intro linked_relink [OF db]) auto
  then have tail: "linked nx' (d # bs) np"
    unfolding nx' last using ne(3) by (simp del: last.simps linked.simps)
  have "circle nx' (h # us @ [np])"
    unfolding nx' by (rule circle_cut [OF circ])
  then have ring: "nx' x \<in> set (h # us @ [np])" if "x \<in> set (h # us @ [np])" for x
    using that by (rule circle_next_closed)
  have step: "nx' x \<in> A" if "x \<in> set (d # bs)" for x
    using linked_next [OF tail that] unfolding A_def by auto
  have "nx' c = d" unfolding nx' using ne c by (simp del: last.simps)
  moreover have "d \<notin> A" using dist unfolding A_def by auto
  moreover have "\<forall>x\<in>A. nx' x \<in> A" using step ring unfolding A_def by (metis UnCI UnE list.set_intros(2))
  ultimately show ?thesis using step [of d] by simp
qed

lemma lost_walk:
  assumes "circle nx (h # us @ np # as @ c # d # bs)"
    and "proc_links s = nx(last (np # as @ c # d # bs) := np, np := h)"
  shows "ring_walk (consider_proc s) (\<lambda>_. proc_links s) (proc_links s c) (proc_links s c) r = None"
proof -
  note facts = lost_links [OF assms]
  let ?A = "set bs \<union> set (h # us @ [np])"
  have "ring_walk (consider_proc s) (\<lambda>_. proc_links s) d (proc_links s d) r' = None" for r'
    using facts by (intro psel.walk_never_ends [where A = ?A]) blast+
  moreover have "proc_links s d \<noteq> d" using facts by auto
  ultimately show ?thesis
    using facts by (subst ring_walk.simps) (simp add: Let_def)
qed

text \<open>
  If the running process is one of those that fell off, with another of them behind it, the next
  run of the process scheduler never returns: its second loop waits for a process that the links
  no longer lead to.
\<close>

theorem process_schedule_hangs:
  assumes "proc_ring s (slot 0 # us @ slot i # as @ c # d # bs)" and "free_slot s = Some i" and "current_proc s = c"
    and "process_create stack_at name entry priority ppid s = Some (pid, s')"
  shows "process_schedule now esp s' = None"
proof -
  let ?vs = "as @ c # d # bs" and ?ring = "slot 0 # us @ [slot i]"
  have circ: "circle (proc_links s) (slot 0 # us @ slot i # ?vs)" and head: "proc_list_head s = slot 0"
    using assms(1) by (simp_all add: proc_ring_def)
  from process_create_reuse [OF circ head assms(2), of stack_at name entry priority ppid] assms(3,4)
  have s': "proc_list_head s' = slot 0" "current_proc s' = c" "circle (proc_links s') ?ring"
    and links: "proc_links s' = (proc_links s)(last (slot i # ?vs) := slot i, slot i := slot 0)"
    by (metis option.inject prod.inject)+
  have "c \<noteq> 0" using assms(1) by (auto simp: proc_ring_def)
  let ?s0 = "upd_proc c (suspend esp) s'"
  define s1 where "s1 = fold (\<lambda>t. upd_proc t (wake_reap now)) ?ring ?s0"
  have l0: "proc_links ?s0 = proc_links s'" by (rule proc_links_upd_same) simp
  have walk: "ring_walk (\<lambda>t. upd_proc t (wake_reap now)) proc_links (slot 0) (slot 0) ?s0 = Some s1"
    unfolding s1_def using s'(3) by (intro pwake.walk_circle) (simp only: l0)
  have "proc_links s1 = (proc_links s)(last (slot i # ?vs) := slot i, slot i := slot 0)"
    unfolding s1_def pwake.fold_links l0 by (rule links)
  from lost_walk [OF circ this] have "ring_walk (consider_proc s1) (\<lambda>_. proc_links s1) (proc_links s1 c) (proc_links s1 c) (0, 0) = None" .
  moreover have "current_proc s1 = c"
    using fold_upd_proc [of ?ring "wake_reap now" ?s0] s'(2,3) by (simp add: s1_def circle_def)
  ultimately show ?thesis
    using s' \<open>c \<noteq> 0\<close> walk suspend_steps [of c esp s'] by (auto simp: process_schedule_def Let_def)
qed

theorem process_schedule_hangs_witness:
  "process_schedule 100 0x9000 (snd (the (process_create (\<lambda>p. 0x8000) ''late'' 0x4000 1 0 reaped_procs))) = None"
proof (rule process_schedule_hangs)
  show "proc_ring reaped_procs (slot 0 # [] @ slot 1 # [] @ 3 # 4 # [5])" using reaped_ring by simp
  show "free_slot reaped_procs = Some 1" by (rule reaped_free)
  show "current_proc reaped_procs = 3" by (simp add: reaped_procs_def)
  show "process_create (\<lambda>p. 0x8000) ''late'' 0x4000 1 0 reaped_procs =
      Some (fst (the (process_create (\<lambda>p. 0x8000) ''late'' 0x4000 1 0 reaped_procs)),
        snd (the (process_create (\<lambda>p. 0x8000) ''late'' 0x4000 1 0 reaped_procs)))"
    using process_create_runs [OF reaped_free, of "slot 0" "slot 1 # [3, 4, 5]"] reaped_ring
    by (simp add: proc_ring_def del: last.simps)
qed

end
