(* ===== verification/Signal.thy ===== *)
theory Signal
  imports Errors Logging Mutex Process
begin

text \<open>
  \<^verbatim>\<open>signal.c\<close>: one signal context per process number below 16, guarded by \<open>signal_lock\<close>. The state also
  holds what the signal code reaches: the process table and the log. A handler is the address of a
  function, with 0 for \<open>SIG_DFL\<close> and 1 for \<open>SIG_IGN\<close>; what the function at an address does is the
  parameter \<open>call\<close>, which may not return.
\<close>

section \<open>Model\<close>

definition NUM_SIGNALS :: nat where
  "NUM_SIGNALS = 32"

definition SIGKILL :: nat where "SIGKILL = 9"
definition SIGTERM :: nat where "SIGTERM = 14"
definition SIGSTOP :: nat where "SIGSTOP = 19"

definition SIG_DFL :: u32 where "SIG_DFL = 0"
definition SIG_IGN :: u32 where "SIG_IGN = 1"

record signal_ctx =
  handlers :: "u32 list"
  pending_signals :: u32
  blocked_signals :: u32

record sigsys =
  signal_contexts :: "signal_ctx list"
  signal_lock :: mutex
  sig_procs :: proc_table
  sig_log :: logging

abbreviation sig_lock :: "task_ptr \<Rightarrow> sigsys interference \<Rightarrow> sigsys \<Rightarrow> sigsys option" where
  "sig_lock \<equiv> mutex_lock signal_lock (\<lambda>m s. s\<lparr>signal_lock := m\<rparr>)"

abbreviation sig_unlock :: "task_ptr \<Rightarrow> sigsys \<Rightarrow> sigsys" where
  "sig_unlock cur s \<equiv> s\<lparr>signal_lock := mutex_unlock cur (signal_lock s)\<rparr>"

definition upd_ctx :: "nat \<Rightarrow> (signal_ctx \<Rightarrow> signal_ctx) \<Rightarrow> sigsys \<Rightarrow> sigsys" where
  "upd_ctx i f s = s\<lparr>signal_contexts := (signal_contexts s)[i := f (signal_contexts s ! i)]\<rparr>"

definition log_at :: "u32 \<Rightarrow> log_level \<Rightarrow> string \<Rightarrow> sigsys \<Rightarrow> sigsys" where
  "log_at ticks level msg s = s\<lparr>sig_log := log_msg ticks level msg (sig_log s)\<rparr>"

text \<open>\<open>1 << signum\<close>.\<close>

definition sig_bit :: "nat \<Rightarrow> u32" where
  "sig_bit sig = push_bit sig 1"

definition pid_of :: "sigsys \<Rightarrow> proc_ptr \<Rightarrow> u32" where
  "pid_of s current = p_pid (procs (sig_procs s) current)"

abbreviation current_pid :: "sigsys \<Rightarrow> u32" where
  "current_pid s \<equiv> pid_of s (process_current (sig_procs s))"

definition default_signal_handler :: "u32 \<Rightarrow> nat \<Rightarrow> sigsys \<Rightarrow> sigsys" where
  "default_signal_handler ticks signum s =
     (let s = log_at ticks LOG_INFO (''Signal re'' @ [CHR 0xC3, CHR 0xA7] @ ''u'') s
      in if signum = SIGTERM \<or> signum = SIGKILL
         then s\<lparr>sig_procs := process_exit (current_pid s) (sig_procs s)\<rparr> else s)"

definition signal_init_ctx :: "signal_ctx \<Rightarrow> signal_ctx" where
  "signal_init_ctx ctx = ctx\<lparr>handlers := map (\<lambda>_. SIG_DFL) (handlers ctx), pending_signals := 0, blocked_signals := 0\<rparr>"

definition signal_init :: "u32 \<Rightarrow> sigsys \<Rightarrow> error_t \<times> sigsys" where
  "signal_init ticks s =
     (let s = log_at ticks LOG_INFO (''Initialisation du syst'' @ e_grave @ ''me de signaux'') s;
          s = s\<lparr>signal_lock := mutex_init (signal_lock s)\<rparr>;
          s = s\<lparr>signal_contexts := map signal_init_ctx (signal_contexts s)\<rparr>
      in (E_OK, s))"

definition signal :: "task_ptr \<Rightarrow> sigsys interference \<Rightarrow> int \<Rightarrow> u32 \<Rightarrow> sigsys \<Rightarrow> (u32 \<times> sigsys) option" where
  "signal cur w signum handler s =
     (if signum < 0 \<or> signum \<ge> int NUM_SIGNALS then Some (SIG_DFL, s)
      else if nat signum = SIGKILL \<or> nat signum = SIGSTOP then Some (SIG_DFL, s)
      else if process_current (sig_procs s) = 0 then Some (SIG_DFL, s)
      else let pid = current_pid s in
        if pid \<ge> 16 then Some (SIG_DFL, s)
        else do {
          s \<leftarrow> sig_lock cur w s;
          let old = handlers (signal_contexts s ! unat pid) ! nat signum;
          let s = upd_ctx (unat pid) (\<lambda>c. c\<lparr>handlers := (handlers c)[nat signum := (if handler \<noteq> 0 then handler else SIG_DFL)]\<rparr>) s;
          Some (old, sig_unlock cur s)
        })"

definition kill :: "task_ptr \<Rightarrow> sigsys interference \<Rightarrow> u32 \<Rightarrow> u32 \<Rightarrow> int \<Rightarrow> sigsys \<Rightarrow> (error_t \<times> sigsys) option" where
  "kill cur w ticks pid signum s =
     (if signum < 0 \<or> signum \<ge> int NUM_SIGNALS then Some (E_INVAL, s)
      else if pid \<ge> 16 then Some (E_INVAL, s)
      else if process_get pid (sig_procs s) = 0 then Some (E_NOENT, s)
      else do {
        s \<leftarrow> sig_lock cur w s;
        let s = upd_ctx (unat pid) (\<lambda>c. c\<lparr>pending_signals := pending_signals c OR sig_bit (nat signum)\<rparr>) s;
        let s = log_at ticks LOG_DEBUG (''Signal envoy'' @ e_acute) s;
        Some (E_OK, sig_unlock cur s)
      })"

definition raise :: "task_ptr \<Rightarrow> sigsys interference \<Rightarrow> u32 \<Rightarrow> int \<Rightarrow> sigsys \<Rightarrow> (error_t \<times> sigsys) option" where
  "raise cur w ticks signum s =
     (if process_current (sig_procs s) = 0 then Some (E_INVAL, s)
      else kill cur w ticks (current_pid s) signum s)"

definition sigblock :: "task_ptr \<Rightarrow> sigsys interference \<Rightarrow> u32 \<Rightarrow> sigsys \<Rightarrow> (error_t \<times> sigsys) option" where
  "sigblock cur w msk s =
     (let current = process_current (sig_procs s) in
      if current = 0 \<or> pid_of s current \<ge> 16 then Some (E_INVAL, s)
      else do {
        s \<leftarrow> sig_lock cur w s;
        let s = upd_ctx (unat (pid_of s current)) (\<lambda>c. c\<lparr>blocked_signals := blocked_signals c OR msk\<rparr>) s;
        Some (E_OK, sig_unlock cur s)
      })"

definition sigunblock :: "task_ptr \<Rightarrow> sigsys interference \<Rightarrow> u32 \<Rightarrow> sigsys \<Rightarrow> (error_t \<times> sigsys) option" where
  "sigunblock cur w msk s =
     (let current = process_current (sig_procs s) in
      if current = 0 \<or> pid_of s current \<ge> 16 then Some (E_INVAL, s)
      else do {
        s \<leftarrow> sig_lock cur w s;
        let s = upd_ctx (unat (pid_of s current)) (\<lambda>c. c\<lparr>blocked_signals := blocked_signals c AND NOT msk\<rparr>) s;
        Some (E_OK, sig_unlock cur s)
      })"

text \<open>
  \<open>pause\<close> halts until the next interrupt, again and again; \<open>w\<close> is what happens in each halt. The process
  number is not checked there: beyond the contexts the read is outside the array (\<open>None\<close>).
\<close>

fun pause_loop :: "nat \<Rightarrow> sigsys interference \<Rightarrow> sigsys \<Rightarrow> sigsys option" where
  "pause_loop pid w s =
     (if pending_signals (signal_contexts s ! pid) AND NOT (blocked_signals (signal_contexts s ! pid)) \<noteq> 0 then Some s
      else case w of [] \<Rightarrow> None | hlt # w' \<Rightarrow> pause_loop pid w' (hlt s))"

declare pause_loop.simps [simp del]

definition pause :: "sigsys interference \<Rightarrow> sigsys \<Rightarrow> (error_t \<times> sigsys) option" where
  "pause w s =
     (if process_current (sig_procs s) = 0 then Some (E_INVAL, s)
      else if unat (current_pid s) \<ge> length (signal_contexts s) then None
      else do { s \<leftarrow> pause_loop (unat (current_pid s)) w s; Some (E_OK, s) })"

text \<open>What a handler does with one signal, with the lock released.\<close>

definition deliver :: "(u32 \<Rightarrow> nat \<Rightarrow> sigsys \<Rightarrow> sigsys option) \<Rightarrow> u32 \<Rightarrow> u32 \<Rightarrow> nat \<Rightarrow> sigsys \<Rightarrow> sigsys option" where
  "deliver call ticks handler sig s =
     (if handler \<noteq> 0 \<and> handler \<noteq> SIG_IGN then call handler sig s
      else if handler = SIG_DFL then Some (default_signal_handler ticks sig s)
      else Some s)"

text \<open>The loop of \<open>signal_dispatch\<close>; \<open>w sig\<close> is the wait for the lock after signal \<open>sig\<close>.\<close>

fun dispatch_loop :: "(u32 \<Rightarrow> nat \<Rightarrow> sigsys \<Rightarrow> sigsys option) \<Rightarrow> task_ptr \<Rightarrow> (nat \<Rightarrow> sigsys interference) \<Rightarrow> u32 \<Rightarrow> nat \<Rightarrow> u32 \<Rightarrow>
    nat list \<Rightarrow> sigsys \<Rightarrow> sigsys option" where
  "dispatch_loop call cur w ticks pid pending [] s = Some s"
| "dispatch_loop call cur w ticks pid pending (sig # sigs) s =
     (if pending AND sig_bit sig \<noteq> 0 then do {
        let handler = handlers (signal_contexts s ! pid) ! sig;
        let s = upd_ctx pid (\<lambda>c. c\<lparr>pending_signals := pending_signals c AND NOT (sig_bit sig)\<rparr>) s;
        s \<leftarrow> deliver call ticks handler sig (sig_unlock cur s);
        s \<leftarrow> sig_lock cur (w sig) s;
        dispatch_loop call cur w ticks pid pending sigs s
      }
      else dispatch_loop call cur w ticks pid pending sigs s)"

definition signal_dispatch :: "(u32 \<Rightarrow> nat \<Rightarrow> sigsys \<Rightarrow> sigsys option) \<Rightarrow> task_ptr \<Rightarrow> sigsys interference \<Rightarrow>
    (nat \<Rightarrow> sigsys interference) \<Rightarrow> u32 \<Rightarrow> sigsys \<Rightarrow> sigsys option" where
  "signal_dispatch call cur w0 w ticks s =
     (let current = process_current (sig_procs s) in
      if current = 0 \<or> pid_of s current \<ge> 16 then Some s
      else do {
        s \<leftarrow> sig_lock cur w0 s;
        let pid = unat (pid_of s current);
        let ctx = signal_contexts s ! pid;
        let pending = pending_signals ctx AND NOT (blocked_signals ctx);
        s \<leftarrow> dispatch_loop call cur w ticks pid pending [0..<NUM_SIGNALS] s;
        Some (sig_unlock cur s)
      })"

section \<open>Invariant\<close>

definition sig_inv :: "sigsys \<Rightarrow> bool" where
  "sig_inv s \<longleftrightarrow> length (signal_contexts s) = 16 \<and> (\<forall>c\<in>set (signal_contexts s). length (handlers c) = NUM_SIGNALS) \<and>
     mutex_free (signal_lock s)"

interpretation slock: mutex_guarded signal_lock "\<lambda>m s. s\<lparr>signal_lock := m\<rparr>"
  by unfold_locales simp_all

lemma sig_lock_free:
  "mutex_free (signal_lock s) \<Longrightarrow> sig_lock cur w s = Some (s\<lparr>signal_lock := \<lparr>locked = 1, owner = cur\<rparr>\<rparr>)"
  by (rule slock.lock_free)

lemma unlock_held: "mutex_unlock cur \<lparr>locked = 1, owner = cur\<rparr> = \<lparr>locked = 0, owner = 0\<rparr>"
  by (simp add: mutex_unlock_def)

lemma upd_ctx_simps [simp]:
  "signal_lock (upd_ctx i f s) = signal_lock s" "sig_procs (upd_ctx i f s) = sig_procs s" "sig_log (upd_ctx i f s) = sig_log s"
  "signal_contexts (upd_ctx i f s) = (signal_contexts s)[i := f (signal_contexts s ! i)]"
  by (simp_all add: upd_ctx_def)

lemma log_at_simps [simp]:
  "signal_lock (log_at t l m s) = signal_lock s" "sig_procs (log_at t l m s) = sig_procs s"
  "signal_contexts (log_at t l m s) = signal_contexts s"
  by (simp_all add: log_at_def)

lemma sig_inv_upd:
  assumes "sig_inv s" and "i < 16" and "\<And>c. handlers (f c) = handlers c"
  shows "sig_inv (upd_ctx i f s)"
proof -
  have "set ((signal_contexts s)[i := f (signal_contexts s ! i)]) \<subseteq>
      insert (f (signal_contexts s ! i)) (set (signal_contexts s))"
    by (rule set_update_subset_insert)
  moreover have "signal_contexts s ! i \<in> set (signal_contexts s)" using assms by (simp add: sig_inv_def)
  ultimately show ?thesis using assms by (auto simp: sig_inv_def)
qed

text \<open>The bit that stands for a signal.\<close>

lemma sig_bit_iff: "sig < 32 \<Longrightarrow> bit (sig_bit sig) n \<longleftrightarrow> n = sig"
  by (auto simp: sig_bit_def bit_exp_iff)

lemma u32_eqI: "(\<And>n. n < 32 \<Longrightarrow> bit a n = bit (b :: u32) n) \<Longrightarrow> a = b"
  by (rule bit_word_eqI) simp

lemma pending_test: "x AND sig_bit sig \<noteq> 0 \<longleftrightarrow> bit (x :: u32) sig"
  unfolding sig_bit_def by (rule bit_iff_and_push_bit_not_eq_0 [symmetric])

text \<open>
  What \<open>signal_dispatch\<close> asks of the handlers: each returns, and none of them touches the lock, the
  contexts, or which process is current.
\<close>

definition well_behaved :: "(u32 \<Rightarrow> nat \<Rightarrow> sigsys \<Rightarrow> sigsys option) \<Rightarrow> bool" where
  "well_behaved call \<longleftrightarrow> (\<forall>h sig s. \<exists>s'. call h sig s = Some s' \<and> signal_lock s' = signal_lock s \<and>
     signal_contexts s' = signal_contexts s)"

lemma deliver_returns:
  assumes "well_behaved call"
  shows "\<exists>s'. deliver call ticks h sig s = Some s' \<and> signal_lock s' = signal_lock s \<and>
    signal_contexts s' = signal_contexts s"
  using assms by (auto simp: deliver_def well_behaved_def default_signal_handler_def Let_def)

text \<open>
  The abstract meaning of the loop: the deliverable signals in increasing order, each handed to its
  handler, on a state whose context has them taken off the pending set one by one.
\<close>

fun deliver_all :: "(u32 \<Rightarrow> nat \<Rightarrow> sigsys \<Rightarrow> sigsys option) \<Rightarrow> u32 \<Rightarrow> nat \<Rightarrow> nat list \<Rightarrow> sigsys \<Rightarrow> sigsys option" where
  "deliver_all call ticks pid [] s = Some s"
| "deliver_all call ticks pid (sig # sigs) s = do {
     s \<leftarrow> deliver call ticks (handlers (signal_contexts s ! pid) ! sig) sig
       (upd_ctx pid (\<lambda>c. c\<lparr>pending_signals := pending_signals c AND NOT (sig_bit sig)\<rparr>) s);
     deliver_all call ticks pid sigs s
   }"

lemma dispatch_loop_refines:
  assumes "well_behaved call" and "signal_lock s = \<lparr>locked = 1, owner = cur\<rparr>"
  shows "\<exists>s'. deliver_all call ticks pid (filter (bit pending) sigs) (s\<lparr>signal_lock := \<lparr>locked = 0, owner = 0\<rparr>\<rparr>) = Some s' \<and>
    signal_lock s' = \<lparr>locked = 0, owner = 0\<rparr> \<and>
    dispatch_loop call cur w ticks pid pending sigs s = Some (s'\<lparr>signal_lock := \<lparr>locked = 1, owner = cur\<rparr>\<rparr>)"
  using assms(2)
proof (induction sigs arbitrary: s)
  case Nil
  then show ?case by simp
next
  case (Cons sig sigs)
  show ?case
  proof (cases "bit pending sig")
    case False
    then have "pending AND sig_bit sig = 0" using pending_test [of pending sig] by blast
    with False Cons show ?thesis by simp
  next
    case True
    then have test: "pending AND sig_bit sig \<noteq> 0" by (simp only: pending_test)
    let ?free = "\<lparr>locked = 0, owner = 0\<rparr>" and ?held = "\<lparr>locked = 1, owner = cur\<rparr>"
    let ?f = "\<lambda>c. c\<lparr>pending_signals := pending_signals c AND NOT (sig_bit sig)\<rparr>"
    let ?h = "handlers (signal_contexts s ! pid) ! sig"
    have u: "sig_unlock cur (upd_ctx pid ?f s) = upd_ctx pid ?f (s\<lparr>signal_lock := ?free\<rparr>)"
      using Cons.prems unlock_held [of cur] by (simp add: upd_ctx_def)
    obtain s1 where s1: "deliver call ticks ?h sig (upd_ctx pid ?f (s\<lparr>signal_lock := ?free\<rparr>)) = Some s1"
      "signal_lock s1 = ?free"
      using deliver_returns [OF assms(1), of ticks ?h sig "upd_ctx pid ?f (s\<lparr>signal_lock := ?free\<rparr>)"] by auto
    have l: "sig_lock cur (w sig) s1 = Some (s1\<lparr>signal_lock := ?held\<rparr>)"
      using s1(2) by (intro sig_lock_free) (simp add: mutex_free_def)
    have again: "s1\<lparr>signal_lock := ?held\<rparr>\<lparr>signal_lock := ?free\<rparr> = s1"
      using s1(2) by simp
    from Cons.IH [of "s1\<lparr>signal_lock := ?held\<rparr>"] show ?thesis
      unfolding again using True test u s1 l by simp
  qed
qed

lemma deliver_all_ctx:
  assumes "well_behaved call" and "deliver_all call ticks pid sigs s = Some s'" and "pid < length (signal_contexts s)"
  shows "signal_lock s' = signal_lock s \<and> signal_contexts s' = (signal_contexts s)[pid := (signal_contexts s ! pid)
    \<lparr>pending_signals := fold (\<lambda>sig p. p AND NOT (sig_bit sig)) sigs (pending_signals (signal_contexts s ! pid))\<rparr>]"
  using assms(2,3)
proof (induction sigs arbitrary: s)
  case Nil
  then show ?case by simp
next
  case (Cons sig sigs)
  let ?f = "\<lambda>c. c\<lparr>pending_signals := pending_signals c AND NOT (sig_bit sig)\<rparr>"
  obtain s1 where s1: "deliver call ticks (handlers (signal_contexts s ! pid) ! sig) sig (upd_ctx pid ?f s) = Some s1"
    "signal_lock s1 = signal_lock s" "signal_contexts s1 = (signal_contexts s)[pid := ?f (signal_contexts s ! pid)]"
    using deliver_returns [OF assms(1), of ticks "handlers (signal_contexts s ! pid) ! sig" sig "upd_ctx pid ?f s"] by auto
  with Cons.prems have "deliver_all call ticks pid sigs s1 = Some s'" by simp
  from Cons.IH [OF this] s1 Cons.prems(2) show ?case by simp
qed

lemma bit_clear_all:
  "n < 32 \<Longrightarrow> \<forall>sig\<in>set sigs. sig < 32 \<Longrightarrow>
    bit (fold (\<lambda>sig p. p AND NOT (sig_bit sig)) sigs p) n \<longleftrightarrow> bit p n \<and> n \<notin> set sigs"
  by (induction sigs arbitrary: p) (auto simp: bit_and_iff bit_not_iff sig_bit_iff)

lemma filter_eq_upt: "k < n \<Longrightarrow> filter (\<lambda>i. i = k) [0..<n] = [k]"
  by (induction n) (auto simp: less_Suc_eq filter_empty_conv)

lemma clear_deliverable:
  "fold (\<lambda>sig p. p AND NOT (sig_bit sig)) (filter (bit (p AND NOT b)) [0..<NUM_SIGNALS]) p = p AND (b :: u32)"
  by (rule u32_eqI) (auto simp: bit_clear_all bit_and_iff bit_not_iff NUM_SIGNALS_def)

lemma signal_dispatch_runs:
  assumes "sig_inv s" and "well_behaved call" and "process_current (sig_procs s) \<noteq> 0" and "current_pid s < 16"
    and pid: "pid = unat (current_pid s)" and ctx: "ctx = signal_contexts s ! pid"
    and pend: "pend = pending_signals ctx AND NOT (blocked_signals ctx)"
  shows "\<exists>s'. signal_dispatch call cur w0 w ticks s = Some s' \<and>
    deliver_all call ticks pid (filter (bit pend) [0..<NUM_SIGNALS]) s = Some s' \<and>
    signal_contexts s' = (signal_contexts s)[pid := ctx\<lparr>pending_signals := pending_signals ctx AND blocked_signals ctx\<rparr>] \<and>
    mutex_free (signal_lock s')"
proof -
  let ?free = "\<lparr>locked = 0, owner = 0\<rparr>" and ?held = "\<lparr>locked = 1, owner = cur\<rparr>"
  have free: "mutex_free (signal_lock s)" and len: "pid < length (signal_contexts s)"
    using assms(1,4) by (simp_all add: sig_inv_def pid word_less_nat_alt)
  then have "signal_lock s = ?free" by (simp add: mutex_free_eq)
  then have again: "s\<lparr>signal_lock := ?held, signal_lock := ?free\<rparr> = s" by simp
  from dispatch_loop_refines [OF assms(2), of "s\<lparr>signal_lock := ?held\<rparr>" cur ticks pid pend "[0..<NUM_SIGNALS]" w]
  obtain s' where all: "deliver_all call ticks pid (filter (bit pend) [0..<NUM_SIGNALS]) s = Some s'"
    and s': "signal_lock s' = ?free"
    and loop: "dispatch_loop call cur w ticks pid pend [0..<NUM_SIGNALS] (s\<lparr>signal_lock := ?held\<rparr>) = Some (s'\<lparr>signal_lock := ?held\<rparr>)"
    unfolding again by auto
  have "sig_unlock cur (s'\<lparr>signal_lock := ?held\<rparr>) = s'"
    using s' unlock_held [of cur] by simp
  moreover have "\<not> current_pid s \<ge> 16" using assms(4) by simp
  ultimately have run: "signal_dispatch call cur w0 w ticks s = Some s'"
    using assms(3) sig_lock_free [OF free, of cur w0] loop
    by (simp add: signal_dispatch_def Let_def pid_of_def pid [unfolded pid_of_def, symmetric] ctx [symmetric] pend [symmetric])
  have "signal_contexts s' = (signal_contexts s)[pid := ctx\<lparr>pending_signals := pending_signals ctx AND blocked_signals ctx\<rparr>]"
    using deliver_all_ctx [OF assms(2) all len] by (simp add: clear_deliverable pend ctx [symmetric])
  with run all s' show ?thesis by (auto simp: mutex_free_eq)
qed

lemma kill_ok:
  assumes "mutex_free (signal_lock s)" and "0 \<le> signum" "signum < 32" and "pid < 16" and "process_get pid (sig_procs s) \<noteq> 0"
  shows "kill cur w ticks pid signum s = Some (E_OK, log_at ticks LOG_DEBUG (''Signal envoy'' @ e_acute)
    (upd_ctx (unat pid) (\<lambda>c. c\<lparr>pending_signals := pending_signals c OR sig_bit (nat signum)\<rparr>) s))"
proof -
  have "signal_lock s = \<lparr>locked = 0, owner = 0\<rparr>" using assms(1) by (simp add: mutex_free_eq)
  then show ?thesis
    using assms(2-) sig_lock_free [OF assms(1), of cur w] unlock_held [of cur]
    by (auto simp: kill_def NUM_SIGNALS_def upd_ctx_def log_at_def)
qed

section \<open>Properties\<close>


text \<open>
  Sending: \<open>kill\<close> checks the signal number, then the process number, then that the process exists, with the error
  each check gives; past them it returns \<open>E_OK\<close> with exactly the one bit of exactly the one context set.
\<close>

theorem kill_correct:
  assumes "sig_inv s"
  shows "\<exists>e s'. kill cur w ticks pid signum s = Some (e, s') \<and> sig_inv s' \<and> sig_procs s' = sig_procs s \<and>
    e = (if signum < 0 \<or> signum \<ge> 32 \<or> pid \<ge> 16 then E_INVAL
         else if process_get pid (sig_procs s) = 0 then E_NOENT else E_OK) \<and>
    (if e = E_OK then \<forall>i n. i < 16 \<longrightarrow>
       bit (pending_signals (signal_contexts s' ! i)) n =
         (bit (pending_signals (signal_contexts s ! i)) n \<or> i = unat pid \<and> n = nat signum) \<and>
       blocked_signals (signal_contexts s' ! i) = blocked_signals (signal_contexts s ! i) \<and>
       handlers (signal_contexts s' ! i) = handlers (signal_contexts s ! i)
     else s' = s)"
proof (cases "signum < 0 \<or> signum \<ge> 32 \<or> pid \<ge> 16 \<or> process_get pid (sig_procs s) = 0")
  case True
  with assms show ?thesis by (auto simp: kill_def NUM_SIGNALS_def)
next
  case False
  have free: "mutex_free (signal_lock s)" and len: "length (signal_contexts s) = 16" and pid: "unat pid < 16"
    using assms False by (simp_all add: sig_inv_def word_less_nat_alt not_le)
  let ?s = "upd_ctx (unat pid) (\<lambda>c. c\<lparr>pending_signals := pending_signals c OR sig_bit (nat signum)\<rparr>) s"
  let ?s' = "log_at ticks LOG_DEBUG (''Signal envoy'' @ e_acute) ?s"
  have run: "kill cur w ticks pid signum s = Some (E_OK, ?s')"
    using False free by (intro kill_ok) auto
  have "sig_inv ?s'"
    using sig_inv_upd [OF assms pid, of "\<lambda>c. c\<lparr>pending_signals := pending_signals c OR sig_bit (nat signum)\<rparr>"]
    by (simp add: sig_inv_def)
  moreover have "bit (pending_signals (signal_contexts ?s' ! i)) n =
         (bit (pending_signals (signal_contexts s ! i)) n \<or> i = unat pid \<and> n = nat signum)" if "i < 16" for i n
    using that len pid False by (auto simp: nth_list_update bit_or_iff sig_bit_iff)
  moreover have "blocked_signals (signal_contexts ?s' ! i) = blocked_signals (signal_contexts s ! i) \<and>
       handlers (signal_contexts ?s' ! i) = handlers (signal_contexts s ! i)" if "i < 16" for i
    using that len pid by (auto simp: nth_list_update)
  ultimately show ?thesis using run False by (intro exI [of _ E_OK] exI [of _ ?s']) auto
qed

definition raw_sigsys :: sigsys where
  "raw_sigsys = \<lparr>signal_contexts = replicate 16 \<lparr>handlers = replicate 32 7, pending_signals = 5, blocked_signals = 9\<rparr>,
     signal_lock = \<lparr>locked = 1, owner = 3\<rparr>, sig_procs = process_init raw_procs, sig_log = blank_log\<rparr>"

definition boot_sigsys :: sigsys where
  "boot_sigsys = snd (signal_init 0 raw_sigsys)"

lemma signal_init_inv [kinv]:
  assumes "length (signal_contexts s) = 16" and "\<forall>c\<in>set (signal_contexts s). length (handlers c) = NUM_SIGNALS"
  shows "sig_inv (snd (signal_init ticks s))"
  using assms by (auto simp: sig_inv_def signal_init_def signal_init_ctx_def Let_def)

lemma boot_sig_inv: "sig_inv boot_sigsys"
  unfolding boot_sigsys_def by (rule signal_init_inv) (simp_all add: raw_sigsys_def NUM_SIGNALS_def)

lemma boot_sig_procs: "sig_procs boot_sigsys = process_init raw_procs"
  by (simp add: boot_sigsys_def signal_init_def raw_sigsys_def Let_def)

lemma init_idle: "p_pid (procs (process_init s) (slot 0)) = 0"
  by (simp add: process_init_def Let_def)

lemma boot_current: "process_current (sig_procs boot_sigsys) = slot 0" "current_pid boot_sigsys = 0"
  "pid_of boot_sigsys (slot 0) = 0"
  by (simp_all add: boot_sig_procs process_current_def process_init_current pid_of_def init_idle)


theorem kill_correct_witness:
  "\<exists>e s'. kill 1 [] 0 0 14 boot_sigsys = Some (e, s') \<and> sig_inv s' \<and> sig_procs s' = sig_procs boot_sigsys \<and>
    e = (if 14 < (0 :: int) \<or> 14 \<ge> (32 :: int) \<or> 0 \<ge> (16 :: u32) then E_INVAL
         else if process_get 0 (sig_procs boot_sigsys) = 0 then E_NOENT else E_OK) \<and>
    (if e = E_OK then \<forall>i n. i < 16 \<longrightarrow>
       bit (pending_signals (signal_contexts s' ! i)) n =
         (bit (pending_signals (signal_contexts boot_sigsys ! i)) n \<or> i = unat (0 :: u32) \<and> n = nat 14) \<and>
       blocked_signals (signal_contexts s' ! i) = blocked_signals (signal_contexts boot_sigsys ! i) \<and>
       handlers (signal_contexts s' ! i) = handlers (signal_contexts boot_sigsys ! i)
     else s' = boot_sigsys)"
  by (rule kill_correct [OF boot_sig_inv])

text \<open>
  Sent and dispatched, \<open>SIGTERM\<close> or \<open>SIGKILL\<close> ends the process: when the current process has no other signal
  pending, does not block this one and has not replaced its handler, \<open>kill\<close> of its own number followed by
  \<open>signal_dispatch\<close> leaves it a zombie, with nothing pending.
\<close>

theorem kill_dispatch_terminates:
  assumes "sig_inv s" and "proc_inv (sig_procs s) xs" and "current_pid s < 16"
    and "well_behaved call" and "sig \<in> {SIGTERM, SIGKILL}"
    and "signal_contexts s ! unat (current_pid s) = \<lparr>handlers = hs, pending_signals = 0, blocked_signals = b\<rparr>"
    and "hs ! sig = SIG_DFL" and "\<not> bit b sig"
  shows "\<exists>s1 s2. kill cur w ticks (current_pid s) (int sig) s = Some (E_OK, s1) \<and>
    signal_dispatch call cur w0 w1 ticks' s1 = Some s2 \<and>
    p_state (procs (sig_procs s2) (current_proc (sig_procs s))) = PROC_ZOMBIE \<and>
    pending_signals (signal_contexts s2 ! unat (current_pid s)) = 0"
proof -
  let ?c = "current_proc (sig_procs s)" and ?pid = "unat (current_pid s)"
  have c: "?c \<in> set xs" "?c \<noteq> 0" using assms(2) by (auto simp: proc_inv_def proc_ring_def)
  have pid: "current_pid s = p_pid (procs (sig_procs s) ?c)" by (simp add: pid_of_def process_current_def)
  have sig: "sig < 32" using assms(5) by (auto simp: SIGTERM_def SIGKILL_def)
  have len: "?pid < length (signal_contexts s)" using assms(1,3) by (simp add: sig_inv_def word_less_nat_alt)
  define s1 where "s1 = log_at ticks LOG_DEBUG (''Signal envoy'' @ e_acute)
    (upd_ctx ?pid (\<lambda>c. c\<lparr>pending_signals := pending_signals c OR sig_bit sig\<rparr>) s)"
  have k: "kill cur w ticks (current_pid s) (int sig) s = Some (E_OK, s1)"
    using assms(1,3) sig process_get_member [OF assms(2) c(1)] c(2) pid
    by (subst kill_ok) (simp_all add: s1_def sig_inv_def)
  have procs1: "sig_procs s1 = sig_procs s" and pid1: "current_pid s1 = current_pid s"
    by (simp_all add: s1_def pid_of_def)
  have "sig_inv s1"
    using sig_inv_upd [OF assms(1), of ?pid "\<lambda>c. c\<lparr>pending_signals := pending_signals c OR sig_bit sig\<rparr>"] assms(3)
    by (simp add: s1_def sig_inv_def word_less_nat_alt)
  moreover have ctx: "signal_contexts s1 ! ?pid = \<lparr>handlers = hs, pending_signals = sig_bit sig, blocked_signals = b\<rparr>"
    using len assms(6) by (simp add: s1_def)
  ultimately obtain s2 where s2: "signal_dispatch call cur w0 w1 ticks' s1 = Some s2"
      "deliver_all call ticks' ?pid (filter (bit (sig_bit sig AND NOT b)) [0..<NUM_SIGNALS]) s1 = Some s2"
      "signal_contexts s2 = (signal_contexts s1)[?pid := (signal_contexts s1 ! ?pid)\<lparr>pending_signals := sig_bit sig AND b\<rparr>]"
    using signal_dispatch_runs [of s1 call ?pid "signal_contexts s1 ! ?pid" "sig_bit sig AND NOT b" cur w0 w1 ticks'] assms(3,4) c(2)
    by (auto simp: procs1 pid1 process_current_def pid_of_def)
  have "filter (bit (sig_bit sig AND NOT b)) [0..<NUM_SIGNALS] = filter (\<lambda>n. n = sig) [0..<NUM_SIGNALS]"
    using assms(8) sig by (intro filter_cong) (auto simp: bit_and_iff bit_not_iff sig_bit_iff NUM_SIGNALS_def)
  also have "\<dots> = [sig]" using sig by (simp add: NUM_SIGNALS_def filter_eq_upt)
  finally have "deliver_all call ticks' ?pid [sig] s1 = Some s2" using s2(2) by simp
  then have "sig_procs s2 = process_exit (current_pid s) (sig_procs s)"
    using ctx assms(5,7) by (auto simp: deliver_def SIG_DFL_def default_signal_handler_def Let_def pid_of_def procs1)
  then have "p_state (procs (sig_procs s2) ?c) = PROC_ZOMBIE"
    using process_exit_member [OF assms(2) c(1)] pid by simp
  moreover have "sig_bit sig AND b = 0"
    using assms(8) sig by (intro u32_eqI) (auto simp: bit_and_iff sig_bit_iff)
  then have "pending_signals (signal_contexts s2 ! ?pid) = 0"
    using s2(3) len by (simp add: s1_def)
  ultimately show ?thesis using k s2(1) by blast
qed

lemma boot_ctx: "signal_contexts boot_sigsys ! 0 =
    \<lparr>handlers = replicate 32 SIG_DFL, pending_signals = 0, blocked_signals = 0\<rparr>"
  by (simp add: boot_sigsys_def signal_init_def raw_sigsys_def Let_def signal_init_ctx_def map_replicate_const)

theorem kill_dispatch_terminates_witness:
  "\<exists>s1 s2. kill 1 [] 0 (current_pid boot_sigsys) (int SIGTERM) boot_sigsys = Some (E_OK, s1) \<and>
    signal_dispatch (\<lambda>h sig s. Some s) 1 [] (\<lambda>_. []) 1 s1 = Some s2 \<and>
    p_state (procs (sig_procs s2) (current_proc (sig_procs boot_sigsys))) = PROC_ZOMBIE \<and>
    pending_signals (signal_contexts s2 ! unat (current_pid boot_sigsys)) = 0"
proof (rule kill_dispatch_terminates [OF boot_sig_inv])
  show "proc_inv (sig_procs boot_sigsys) [slot 0]" using init_raw_procs by (simp add: boot_sig_procs)
  show "signal_contexts boot_sigsys ! unat (current_pid boot_sigsys) =
      \<lparr>handlers = replicate 32 SIG_DFL, pending_signals = 0, blocked_signals = 0\<rparr>"
    by (simp add: boot_current boot_ctx)
  show "current_pid boot_sigsys < 16" by (simp add: boot_current)
qed (simp_all add: well_behaved_def SIGTERM_def)

end
