(* ===== verification/Paging.thy ===== *)
theory Paging
  imports Errors Logging Mutex
begin

text \<open>
  \<^verbatim>\<open>paging.c\<close>: the bitmap of physical pages, the page directory and the page tables. The bitmap and
  the tables are total maps read below their length; a page table is named by its address, with 0 for
  NULL, and \<open>tables\<close> holds the entries of the table at each address. The address at which the
  linker puts \<open>identity_page_tables\<close> and \<open>page_directory\<close> are the parameters \<open>tab\<close> and \<open>dir\<close>. The TLB is not
  modelled: flushing it writes \<open>CR3\<close> back.
\<close>

section \<open>Model\<close>

definition PAGE_SIZE :: nat where "PAGE_SIZE = 4096"
definition PAGES_PER_TABLE :: nat where "PAGES_PER_TABLE = 1024"
definition PAGE_TABLES_COUNT :: nat where "PAGE_TABLES_COUNT = 1024"
definition TOTAL_PAGES :: nat where "TOTAL_PAGES = 1024 * 1024"
definition IDENTITY_MAP_MB :: nat where "IDENTITY_MAP_MB = 64"
definition NUM_PAGE_TABLES :: nat where "NUM_PAGE_TABLES = 16"

definition PAGE_PRESENT :: u32 where "PAGE_PRESENT = 0x001"
definition PAGE_WRITE :: u32 where "PAGE_WRITE = 0x002"
definition PAGE_USER :: u32 where "PAGE_USER = 0x004"

record paging =
  page_bitmap :: "nat \<Rightarrow> u8"
  page_directory :: "nat \<Rightarrow> u32"
  page_tables :: "nat \<Rightarrow> u32"
  tables :: "u32 \<Rightarrow> nat \<Rightarrow> u32"
  directory_at :: u32
  num_pages :: u32
  num_free_pages :: u32
  paging_lock :: mutex
  cr0 :: u32
  cr3 :: u32
  pg_log :: logging

abbreviation pg_lock :: "task_ptr \<Rightarrow> paging interference \<Rightarrow> paging \<Rightarrow> paging option" where
  "pg_lock \<equiv> mutex_lock paging_lock (\<lambda>m s. s\<lparr>paging_lock := m\<rparr>)"

abbreviation pg_unlock :: "task_ptr \<Rightarrow> paging \<Rightarrow> paging" where
  "pg_unlock cur s \<equiv> s\<lparr>paging_lock := mutex_unlock cur (paging_lock s)\<rparr>"

definition paging_lock_page :: "nat \<Rightarrow> paging \<Rightarrow> paging" where
  "paging_lock_page page_num s =
     (let byte_idx = page_num div 8; bit_idx = page_num mod 8 in
      if byte_idx < TOTAL_PAGES div 8
      then s\<lparr>page_bitmap := (page_bitmap s)(byte_idx := page_bitmap s byte_idx OR push_bit bit_idx 1)\<rparr> else s)"

definition paging_unlock_page :: "nat \<Rightarrow> paging \<Rightarrow> paging" where
  "paging_unlock_page page_num s =
     (let byte_idx = page_num div 8; bit_idx = page_num mod 8 in
      if byte_idx < TOTAL_PAGES div 8
      then s\<lparr>page_bitmap := (page_bitmap s)(byte_idx := page_bitmap s byte_idx AND NOT (push_bit bit_idx 1))\<rparr> else s)"

definition paging_is_page_free :: "nat \<Rightarrow> paging \<Rightarrow> bool" where
  "paging_is_page_free page_num s =
     (let byte_idx = page_num div 8; bit_idx = page_num mod 8 in
      if byte_idx < TOTAL_PAGES div 8
      then page_bitmap s byte_idx AND push_bit bit_idx 1 = 0 else False)"

definition paging_flush_tlb :: "paging \<Rightarrow> paging" where
  "paging_flush_tlb s = s\<lparr>cr3 := cr3 s\<rparr>"

definition paging_set_cr0 :: "paging \<Rightarrow> paging" where
  "paging_set_cr0 s = s\<lparr>cr0 := cr0 s OR 0x80000000\<rparr>"

definition plog :: "u32 \<Rightarrow> log_level \<Rightarrow> string \<Rightarrow> paging \<Rightarrow> paging" where
  "plog ticks level msg s = s\<lparr>pg_log := log_msg ticks level msg (pg_log s)\<rparr>"

text \<open>One round of the loop over the identity tables.\<close>

definition identity_table :: "(nat \<Rightarrow> u32) \<Rightarrow> nat \<Rightarrow> paging \<Rightarrow> paging" where
  "identity_table tab t s =
     (let entry = (\<lambda>e. (of_nat t * 4096 * 1024 + of_nat e * 4096 AND 0xFFFFF000) OR PAGE_PRESENT OR PAGE_WRITE);
          s = s\<lparr>tables := (tables s)(tab t := (\<lambda>e. if e < 1024 then entry e else tables s (tab t) e))\<rparr>;
          s = s\<lparr>page_directory := (page_directory s)(t := tab t OR PAGE_PRESENT OR PAGE_WRITE)\<rparr>
      in s\<lparr>page_tables := (page_tables s)(t := tab t)\<rparr>)"

definition reserved_pages :: nat where
  "reserved_pages = (let r = IDENTITY_MAP_MB * 1024 * 1024 div PAGE_SIZE in if r > TOTAL_PAGES then TOTAL_PAGES else r)"

text \<open>The first part of \<open>paging_init\<close>: everything cleared.\<close>

definition paging_reset :: "u32 \<Rightarrow> paging \<Rightarrow> paging" where
  "paging_reset ticks s =
     (let s = plog ticks LOG_INFO ''Initialisation de la pagination...'' s;
          s = s\<lparr>paging_lock := mutex_init (paging_lock s)\<rparr>;
          s = s\<lparr>page_bitmap := (\<lambda>i. if i < TOTAL_PAGES div 8 then 0 else page_bitmap s i)\<rparr>;
          s = s\<lparr>page_directory := (\<lambda>i. if i < 1024 then 0 else page_directory s i)\<rparr>
      in s\<lparr>page_tables := (\<lambda>i. if i < PAGE_TABLES_COUNT then 0 else page_tables s i)\<rparr>)"

definition paging_init :: "(nat \<Rightarrow> u32) \<Rightarrow> u32 \<Rightarrow> u32 \<Rightarrow> paging \<Rightarrow> error_t \<times> paging" where
  "paging_init tab dir ticks s =
     (let s = paging_reset ticks s;
          s = fold (identity_table tab) [0..<NUM_PAGE_TABLES] s;
          s = s\<lparr>directory_at := dir, num_pages := of_nat TOTAL_PAGES, num_free_pages := of_nat TOTAL_PAGES\<rparr>;
          s = fold paging_lock_page [0..<reserved_pages] s;
          s = s\<lparr>num_free_pages := num_free_pages s - of_nat reserved_pages\<rparr>;
          s = plog ticks LOG_INFO (''Pagination initialis'' @ e_acute @ ''e OK (identity map)'') s
      in (E_OK, s))"

definition paging_enable :: "u32 \<Rightarrow> paging \<Rightarrow> paging" where
  "paging_enable ticks s =
     (let s = plog ticks LOG_INFO ''Activation de la pagination x86...'' s;
          s = s\<lparr>cr3 := directory_at s\<rparr>;
          s = paging_set_cr0 s
      in plog ticks LOG_INFO ''Pagination x86 active'' s)"

definition alloc_page :: "task_ptr \<Rightarrow> paging interference \<Rightarrow> u32 \<Rightarrow> paging \<Rightarrow> (u32 \<times> paging) option" where
  "alloc_page cur w ticks s = do {
     s \<leftarrow> pg_lock cur w s;
     case find (\<lambda>i. paging_is_page_free i s) [0..<TOTAL_PAGES] of
       Some i \<Rightarrow> do {
         let s = paging_lock_page i s;
         let s = s\<lparr>num_free_pages := num_free_pages s - 1\<rparr>;
         Some (of_nat (i * PAGE_SIZE), pg_unlock cur s)
       }
     | None \<Rightarrow> Some (0, plog ticks LOG_WARN (''Allocation page '' @ e_acute @ ''chou'' @ e_acute @ ''e : pas de page libre'') (pg_unlock cur s))
   }"

text \<open>The search of \<open>alloc_pages\<close>: pages seen in a row so far, and where the row starts.\<close>

fun find_run :: "(nat \<Rightarrow> bool) \<Rightarrow> nat \<Rightarrow> nat \<Rightarrow> nat \<Rightarrow> nat list \<Rightarrow> nat option" where
  "find_run is_free count consecutive start_page [] = None"
| "find_run is_free count consecutive start_page (i # is) =
     (if is_free i then
        let start_page = (if consecutive = 0 then i else start_page); consecutive = consecutive + 1
        in if consecutive = count then Some start_page else find_run is_free count consecutive start_page is
      else find_run is_free count 0 start_page is)"

definition alloc_pages :: "task_ptr \<Rightarrow> paging interference \<Rightarrow> u32 \<Rightarrow> paging \<Rightarrow> (u32 \<times> paging) option" where
  "alloc_pages cur w count s =
     (if count = 0 then Some (0, s)
      else do {
        s \<leftarrow> pg_lock cur w s;
        case find_run (\<lambda>i. paging_is_page_free i s) (unat count) 0 0 [0..<TOTAL_PAGES] of
          Some start_page \<Rightarrow> do {
            let s = fold (\<lambda>j. paging_lock_page (start_page + j)) [0..<unat count] s;
            let s = s\<lparr>num_free_pages := num_free_pages s - count\<rparr>;
            Some (of_nat (start_page * PAGE_SIZE), pg_unlock cur s)
          }
        | None \<Rightarrow> Some (0, pg_unlock cur s)
      })"

definition free_page :: "task_ptr \<Rightarrow> paging interference \<Rightarrow> u32 \<Rightarrow> paging \<Rightarrow> (error_t \<times> paging) option" where
  "free_page cur w ptr s =
     (if ptr = 0 then Some (E_INVAL, s)
      else let page_num = unat ptr div PAGE_SIZE in
        if page_num \<ge> TOTAL_PAGES then Some (E_INVAL, s)
        else do {
          s \<leftarrow> pg_lock cur w s;
          if paging_is_page_free page_num s then Some (E_INVAL, pg_unlock cur s)
          else do {
            let s = paging_unlock_page page_num s;
            let s = s\<lparr>num_free_pages := num_free_pages s + 1\<rparr>;
            Some (E_OK, pg_unlock cur s)
          }
        })"

definition release_page :: "nat \<Rightarrow> paging \<Rightarrow> paging" where
  "release_page p s =
     (if \<not> paging_is_page_free p s
      then (paging_unlock_page p s)\<lparr>num_free_pages := num_free_pages s + 1\<rparr> else s)"

text \<open>The sums \<open>page_num + count\<close> and \<open>page_num + i\<close> are 32-bit.\<close>

definition free_pages :: "task_ptr \<Rightarrow> paging interference \<Rightarrow> u32 \<Rightarrow> u32 \<Rightarrow> paging \<Rightarrow> (error_t \<times> paging) option" where
  "free_pages cur w ptr count s =
     (if ptr = 0 \<or> count = 0 then Some (E_INVAL, s)
      else let page_num = ptr div of_nat PAGE_SIZE in
        if page_num + count > of_nat TOTAL_PAGES then Some (E_INVAL, s)
        else do {
          s \<leftarrow> pg_lock cur w s;
          let s = fold (\<lambda>i. release_page (unat (page_num + of_nat i))) [0..<unat count] s;
          Some (E_OK, pg_unlock cur s)
        })"

definition pd_index :: "u32 \<Rightarrow> nat" where
  "pd_index virt = unat virt div (PAGE_SIZE * PAGES_PER_TABLE)"

definition pt_index :: "u32 \<Rightarrow> nat" where
  "pt_index virt = (unat virt div PAGE_SIZE) mod PAGES_PER_TABLE"

text \<open>\<open>w'\<close> is the wait inside the nested call of \<open>alloc_page\<close>.\<close>

definition map_page :: "task_ptr \<Rightarrow> paging interference \<Rightarrow> paging interference \<Rightarrow> u32 \<Rightarrow> u32 \<Rightarrow> u32 \<Rightarrow> u32 \<Rightarrow>
    paging \<Rightarrow> (error_t \<times> paging) option" where
  "map_page cur w w' ticks virt physical flags s =
     (if unat virt mod PAGE_SIZE \<noteq> 0 \<or> unat physical mod PAGE_SIZE \<noteq> 0 then Some (E_INVAL, s)
      else let pd_idx = pd_index virt; pt_idx = pt_index virt in
        if pd_idx \<ge> PAGE_TABLES_COUNT \<or> pt_idx \<ge> PAGES_PER_TABLE then Some (E_INVAL, s)
        else do {
          s \<leftarrow> pg_lock cur w s;
          (ok, s) \<leftarrow> (if page_tables s pd_idx = 0 then do {
              (new_table, s) \<leftarrow> alloc_page cur w' ticks s;
              if new_table = 0 then Some (False, s)
              else do {
                let s = s\<lparr>page_tables := (page_tables s)(pd_idx := new_table)\<rparr>;
                Some (True, s\<lparr>page_directory := (page_directory s)(pd_idx := new_table OR PAGE_PRESENT OR PAGE_WRITE)\<rparr>)
              }
            } else Some (True, s));
          if \<not> ok then Some (E_NOMEM, pg_unlock cur s)
          else do {
            let pt = page_tables s pd_idx;
            let s = s\<lparr>tables := (tables s)(pt := (tables s pt)(pt_idx := (physical AND 0xFFFFF000) OR (flags AND 0xFFF)))\<rparr>;
            let s = paging_flush_tlb s;
            Some (E_OK, pg_unlock cur s)
          }
        })"

definition unmap_page :: "task_ptr \<Rightarrow> paging interference \<Rightarrow> u32 \<Rightarrow> paging \<Rightarrow> (error_t \<times> paging) option" where
  "unmap_page cur w virt s =
     (if unat virt mod PAGE_SIZE \<noteq> 0 then Some (E_INVAL, s)
      else let pd_idx = pd_index virt; pt_idx = pt_index virt in
        if pd_idx \<ge> PAGE_TABLES_COUNT \<or> pt_idx \<ge> PAGES_PER_TABLE then Some (E_INVAL, s)
        else do {
          s \<leftarrow> pg_lock cur w s;
          let s = (if page_tables s pd_idx \<noteq> 0 then
              let pt = page_tables s pd_idx
              in paging_flush_tlb (s\<lparr>tables := (tables s)(pt := (tables s pt)(pt_idx := 0))\<rparr>)
            else s);
          Some (E_OK, pg_unlock cur s)
        })"

definition get_physical_addr :: "u32 \<Rightarrow> paging \<Rightarrow> u32" where
  "get_physical_addr virt s =
     (let pd_idx = pd_index virt; pt_idx = pt_index virt in
      if pd_idx \<ge> PAGE_TABLES_COUNT \<or> pt_idx \<ge> PAGES_PER_TABLE then 0
      else if page_tables s pd_idx = 0 then 0
      else let entry = tables s (page_tables s pd_idx) pt_idx in
        if entry AND PAGE_PRESENT = 0 then 0
        else (entry AND 0xFFFFF000) + (virt AND 0xFFF))"

definition paging_get_free_pages :: "task_ptr \<Rightarrow> paging interference \<Rightarrow> paging \<Rightarrow> (u32 \<times> paging) option" where
  "paging_get_free_pages cur w s = do {
     s \<leftarrow> pg_lock cur w s;
     let free = num_free_pages s;
     Some (free, pg_unlock cur s)
   }"

definition paging_get_used_pages :: "task_ptr \<Rightarrow> paging interference \<Rightarrow> paging \<Rightarrow> (u32 \<times> paging) option" where
  "paging_get_used_pages cur w s = do {
     s \<leftarrow> pg_lock cur w s;
     let used = num_pages s - num_free_pages s;
     Some (used, pg_unlock cur s)
   }"

definition alloc_page_with :: "u32 \<Rightarrow> task_ptr \<Rightarrow> paging interference \<Rightarrow> paging interference \<Rightarrow> paging interference \<Rightarrow> u32 \<Rightarrow>
    paging \<Rightarrow> (u32 \<times> paging) option" where
  "alloc_page_with flags cur w w1 w2 ticks s = do {
     (page, s) \<leftarrow> alloc_page cur w ticks s;
     s \<leftarrow> (if page \<noteq> 0 then do { (e, s) \<leftarrow> map_page cur w1 w2 ticks page page flags s; Some s } else Some s);
     Some (page, s)
   }"

definition alloc_page_user :: "task_ptr \<Rightarrow> paging interference \<Rightarrow> paging interference \<Rightarrow> paging interference \<Rightarrow> u32 \<Rightarrow>
    paging \<Rightarrow> (u32 \<times> paging) option" where
  "alloc_page_user = alloc_page_with (PAGE_PRESENT OR PAGE_WRITE OR PAGE_USER)"

definition alloc_page_kernel :: "task_ptr \<Rightarrow> paging interference \<Rightarrow> paging interference \<Rightarrow> paging interference \<Rightarrow> u32 \<Rightarrow>
    paging \<Rightarrow> (u32 \<times> paging) option" where
  "alloc_page_kernel = alloc_page_with (PAGE_PRESENT OR PAGE_WRITE)"

section \<open>The bitmap as a set of free pages\<close>

definition free_set :: "paging \<Rightarrow> nat set" where
  "free_set s = {p. p < TOTAL_PAGES \<and> paging_is_page_free p s}"

definition paging_inv :: "paging \<Rightarrow> bool" where
  "paging_inv s \<longleftrightarrow> num_free_pages s = of_nat (card (free_set s)) \<and> num_pages s = of_nat TOTAL_PAGES \<and>
     0 \<notin> free_set s \<and> mutex_free (paging_lock s)"

interpretation glock: mutex_guarded paging_lock "\<lambda>m s. s\<lparr>paging_lock := m\<rparr>"
  by unfold_locales simp_all

lemma byte_in_range: "p div 8 < TOTAL_PAGES div 8 \<longleftrightarrow> p < TOTAL_PAGES"
  by (auto simp: TOTAL_PAGES_def)

lemma page_free_iff: "paging_is_page_free p s \<longleftrightarrow> p < TOTAL_PAGES \<and> \<not> bit (page_bitmap s (p div 8)) (p mod 8)"
  unfolding paging_is_page_free_def Let_def byte_in_range using bit_iff_and_push_bit_not_eq_0 by auto

lemma free_set_mem: "p \<in> free_set s \<longleftrightarrow> paging_is_page_free p s"
  by (auto simp: free_set_def page_free_iff)

lemma same_page: "p div 8 = q div 8 \<Longrightarrow> p mod 8 = q mod 8 \<Longrightarrow> p = (q :: nat)"
  by (metis div_mult_mod_eq)

lemma bit_u8: "n < 8 \<Longrightarrow> bit (2 ^ k :: u8) n \<longleftrightarrow> n = k"
  by (auto simp: bit_exp_iff)

lemma lock_page_free: "free_set (paging_lock_page p s) = free_set s - {p}"
proof -
  have "q \<in> free_set (paging_lock_page p s) \<longleftrightarrow> q \<in> free_set s \<and> q \<noteq> p" for q
    unfolding free_set_mem page_free_iff paging_lock_page_def Let_def byte_in_range
    by (auto simp: bit_or_iff bit_u8 dest: same_page)
  then show ?thesis by auto
qed

lemma unlock_page_free: "p < TOTAL_PAGES \<Longrightarrow> free_set (paging_unlock_page p s) = insert p (free_set s)"
proof -
  assume p: "p < TOTAL_PAGES"
  have "q \<in> free_set (paging_unlock_page p s) \<longleftrightarrow> q = p \<or> q \<in> free_set s" for q
    unfolding free_set_mem page_free_iff paging_unlock_page_def Let_def byte_in_range using p
    by (auto simp: bit_and_iff bit_not_iff bit_u8 dest: same_page)
  then show ?thesis by auto
qed

lemma lock_page_frame [simp]:
  "num_free_pages (paging_lock_page p s) = num_free_pages s" "num_pages (paging_lock_page p s) = num_pages s"
  "paging_lock (paging_lock_page p s) = paging_lock s" "page_tables (paging_lock_page p s) = page_tables s"
  "tables (paging_lock_page p s) = tables s" "page_directory (paging_lock_page p s) = page_directory s"
  by (simp_all add: paging_lock_page_def Let_def)

lemma unlock_page_frame [simp]:
  "num_free_pages (paging_unlock_page p s) = num_free_pages s" "num_pages (paging_unlock_page p s) = num_pages s"
  "paging_lock (paging_unlock_page p s) = paging_lock s"
  by (simp_all add: paging_unlock_page_def Let_def)

lemma free_set_cong [simp]:
  "free_set (s\<lparr>num_free_pages := n\<rparr>) = free_set s" "free_set (s\<lparr>num_pages := n\<rparr>) = free_set s"
  "free_set (s\<lparr>paging_lock := m\<rparr>) = free_set s" "free_set (s\<lparr>pg_log := l\<rparr>) = free_set s"
  "free_set (s\<lparr>page_tables := t\<rparr>) = free_set s" "free_set (s\<lparr>page_directory := d\<rparr>) = free_set s"
  "free_set (s\<lparr>tables := x\<rparr>) = free_set s" "free_set (s\<lparr>directory_at := x2\<rparr>) = free_set s"
  by (simp_all add: free_set_def paging_is_page_free_def)

lemma finite_free_set [simp]: "finite (free_set s)"
  by (simp add: free_set_def)

lemma card_free_set: "card (free_set s) \<le> TOTAL_PAGES"
  using card_mono [of "{..<TOTAL_PAGES}" "free_set s"] by (auto simp: free_set_def)

lemma pg_lock_free:
  "mutex_free (paging_lock s) \<Longrightarrow> pg_lock cur w s = Some (s\<lparr>paging_lock := \<lparr>locked = 1, owner = cur\<rparr>\<rparr>)"
  by (rule glock.lock_free)

lemma pg_unlock_held: "mutex_unlock cur \<lparr>locked = 1, owner = cur\<rparr> = \<lparr>locked = 0, owner = 0\<rparr>"
  by (simp add: mutex_unlock_def)

lemma is_free_lock [simp]:
  "paging_is_page_free p (s\<lparr>paging_lock := m\<rparr>) = paging_is_page_free p s"
  by (simp add: paging_is_page_free_def)

lemma of_nat_card_less:
  "finite A \<Longrightarrow> B \<subseteq> A \<Longrightarrow> (of_nat (card (A - B)) :: u32) = of_nat (card A) - of_nat (card B)"
  by (simp add: card_Diff_subset finite_subset card_mono)

section \<open>Allocating and freeing single pages\<close>

lemma find_free:
  "find (\<lambda>i. paging_is_page_free i s) [0..<TOTAL_PAGES] =
    (if free_set s = {} then None else Some (Min (free_set s)))"
proof (cases "free_set s = {}")
  case True
  then have "\<not> paging_is_page_free i s" for i using free_set_mem by blast
  then show ?thesis using True by (simp add: find_None_iff)
next
  case False
  let ?m = "Min (free_set s)"
  have m: "?m \<in> free_set s" "\<And>q. q \<in> free_set s \<Longrightarrow> ?m \<le> q" using False by simp_all
  then have "?m < TOTAL_PAGES" by (simp add: free_set_def)
  moreover have "\<not> paging_is_page_free j s" if "j < ?m" for j
    using m(2) [of j] that free_set_mem [of j s] by (metis leD)
  ultimately have "find (\<lambda>i. paging_is_page_free i s) [0..<TOTAL_PAGES] = Some ?m"
    using m(1) by (subst find_Some_iff) (auto simp: free_set_mem intro!: exI [of _ ?m])
  with False show ?thesis by simp
qed

lemma alloc_page_runs:
  assumes "mutex_free (paging_lock s)"
  shows "alloc_page cur w ticks s =
    (if free_set s = {} then Some (0, plog ticks LOG_WARN (''Allocation page '' @ e_acute @ ''chou'' @ e_acute @ ''e : pas de page libre'') s)
     else Some (of_nat (Min (free_set s) * PAGE_SIZE),
       (paging_lock_page (Min (free_set s)) s)\<lparr>num_free_pages := num_free_pages s - 1\<rparr>))"
proof -
  let ?held = "\<lparr>locked = 1, owner = cur\<rparr>"
  have l: "paging_lock s = \<lparr>locked = 0, owner = 0\<rparr>" using assms by (simp add: mutex_free_eq)
  then have same: "s\<lparr>paging_lock := \<lparr>locked = 0, owner = 0\<rparr>\<rparr> = s" by simp
  have comm: "paging_lock_page p (s\<lparr>paging_lock := m\<rparr>) = (paging_lock_page p s)\<lparr>paging_lock := m\<rparr>" for p m
    by (simp add: paging_lock_page_def Let_def)
  have same': "(paging_lock_page p s)\<lparr>num_free_pages := n, paging_lock := \<lparr>locked = 0, owner = 0\<rparr>\<rparr> =
      (paging_lock_page p s)\<lparr>num_free_pages := n\<rparr>" for p n
    using l by (intro paging.equality) simp_all
  show ?thesis
    using pg_lock_free [OF assms, of cur w] pg_unlock_held [of cur] find_free [of "s\<lparr>paging_lock := ?held\<rparr>"] same same'
    by (simp add: alloc_page_def comm)
qed

text \<open>What a search for \<open>count\<close> pages in a row below \<open>n\<close> finds: a run, or that none starts at \<open>lo\<close> or later.\<close>

definition run_found :: "(nat \<Rightarrow> bool) \<Rightarrow> nat \<Rightarrow> nat \<Rightarrow> nat \<Rightarrow> nat option \<Rightarrow> bool" where
  "run_found is_free count n lo r \<longleftrightarrow> (case r of
      Some r \<Rightarrow> r + count \<le> n \<and> (\<forall>j<count. is_free (r + j))
    | None \<Rightarrow> \<forall>r. lo \<le> r \<and> r + count \<le> n \<longrightarrow> (\<exists>j<count. \<not> is_free (r + j)))"

lemma run_found_skip:
  assumes "run_found is_free count n (Suc i) r" and "\<not> is_free i" and "c < count" and "c \<le> i"
  shows "run_found is_free count n (i - c) r"
proof -
  have "\<exists>j<count. \<not> is_free (q + j)" if "i - c \<le> q" "q \<le> i" for q
    using that assms(2-4) by (intro exI [of _ "i - q"]) auto
  then have "\<exists>j<count. \<not> is_free (q + j)" if "i - c \<le> q" "q + count \<le> n" "r = None" for q
    using that assms(1) by (cases "q \<le> i") (auto simp: run_found_def)
  with assms(1) show ?thesis by (auto simp: run_found_def split: option.splits)
qed

lemma find_run_found:
  assumes "c < count" and "c \<le> i" and "\<forall>j<c. is_free (i - c + j)" and "0 < c \<longrightarrow> st = i - c" and "i \<le> n"
  shows "run_found is_free count n (i - c) (find_run is_free count c st [i..<n])"
  using assms
proof (induction "n - i" arbitrary: c st i)
  case 0
  then show ?case by (auto simp: run_found_def)
next
  case (Suc d)
  then have upt: "[i..<n] = i # [Suc i..<n]" and d: "d = n - Suc i" "Suc i \<le> n"
    by (simp_all add: upt_conv_Cons)
  let ?st = "if c = 0 then i else st"
  consider "\<not> is_free i" | "is_free i" "Suc c = count" | "is_free i" "Suc c < count" using Suc.prems(1) by linarith
  then show ?case
  proof cases
    case 1
    have "run_found is_free count n (Suc i) (find_run is_free count 0 st [Suc i..<n])"
      using Suc.hyps(1) [OF d(1), of 0 st] Suc.prems(1) d(2) by simp
    from run_found_skip [OF this 1 Suc.prems(1,2)] 1 upt show ?thesis by simp
  next
    case 2
    with upt Suc.prems(2-4) d(2) show ?thesis by (auto simp: Let_def run_found_def less_Suc_eq)
  next
    case 3
    then have "\<forall>j<Suc c. is_free (Suc i - Suc c + j)" using Suc.prems(2,3) by (auto simp: less_Suc_eq)
    moreover have "?st = Suc i - Suc c" using Suc.prems(4) by simp
    ultimately show ?thesis
      using Suc.hyps(1) [OF d(1), of "Suc c" ?st] Suc.prems(2) 3 d(2) upt by (auto simp: Let_def)
  qed
qed

lemmas find_run_spec = find_run_found [unfolded run_found_def]

lemma fold_lock_pages:
  "free_set (fold (\<lambda>j. paging_lock_page (r + j)) [0..<n] s) = free_set s - {r..<r + n}"
proof (induction n)
  case (Suc n)
  have range: "{r..<r + Suc n} = insert (r + n) {r..<r + n}" by auto
  have "fold (\<lambda>j. paging_lock_page (r + j)) [0..<Suc n] s =
      paging_lock_page (r + n) (fold (\<lambda>j. paging_lock_page (r + j)) [0..<n] s)" by simp
  then show ?case unfolding range by (simp only: lock_page_free Suc.IH) blast
qed simp

lemma fold_lock_frame [simp]:
  "num_free_pages (fold (\<lambda>j. paging_lock_page (f j)) js s) = num_free_pages s"
  "num_pages (fold (\<lambda>j. paging_lock_page (f j)) js s) = num_pages s"
  "paging_lock (fold (\<lambda>j. paging_lock_page (f j)) js s) = paging_lock s"
  "page_tables (fold (\<lambda>j. paging_lock_page (f j)) js s) = page_tables s"
  "tables (fold (\<lambda>j. paging_lock_page (f j)) js s) = tables s"
  by (induction js arbitrary: s) simp_all

lemma page_address:
  assumes "r < TOTAL_PAGES" and "0 < r"
  shows "unat (of_nat (r * PAGE_SIZE) :: u32) = r * PAGE_SIZE" "(of_nat (r * PAGE_SIZE) :: u32) \<noteq> 0"
proof -
  have lt: "r * PAGE_SIZE < 2 ^ 32" using assms(1) by (simp add: TOTAL_PAGES_def PAGE_SIZE_def)
  then show "unat (of_nat (r * PAGE_SIZE) :: u32) = r * PAGE_SIZE" by (rule unat_of_nat_u32)
  show "(of_nat (r * PAGE_SIZE) :: u32) \<noteq> 0"
    using of_nat_u32_0 [OF lt] assms(2) by (simp add: PAGE_SIZE_def)
qed

section \<open>Translation\<close>

lemma page_masks: "(0xFFFFF000 :: u32) = NOT (mask 12)" "(0xFFF :: u32) = mask 12"
  by (simp_all add: mask_eq_exp_minus_1)

lemma page_base: "push_bit 12 (drop_bit 12 v) = (v :: u32) AND NOT (mask 12)"
  by (rule bit_word_eqI) (auto simp: bit_simps)

lemma page_split: "(v AND NOT (mask 12)) + (v AND mask 12) = (v :: u32)"
  using bits_ident [of 12 v] by (simp only: page_base take_bit_eq_mask)

lemma entry_base: "((p AND NOT (mask 12)) OR (f AND mask 12)) AND NOT (mask 12) = p AND NOT (mask 12 :: u32)"
  by (rule bit_word_eqI) (auto simp: bit_simps)

lemma entry_flags: "((p AND NOT (mask 12)) OR (f AND mask 12)) AND 1 = f AND (1 :: u32)"
  by (rule bit_word_eqI) (auto simp: bit_simps)

lemma indices_in_range: "pd_index v < PAGE_TABLES_COUNT" "pt_index v < PAGES_PER_TABLE"
  using unat_u32 [of v] by (simp_all add: pd_index_def pt_index_def PAGE_SIZE_def PAGES_PER_TABLE_def
      PAGE_TABLES_COUNT_def less_mult_imp_div_less)

lemma indices_page: "pd_index v * 1024 + pt_index v = unat v div 4096"
  unfolding pd_index_def pt_index_def PAGE_SIZE_def PAGES_PER_TABLE_def
  using div_mult2_eq [of "unat v" 4096 1024] div_mult_mod_eq [of "unat v div 4096" 1024] by simp

lemma translate:
  assumes "page_tables s (pd_index v) \<noteq> 0" and "flags AND 1 \<noteq> 0"
    and "tables s (page_tables s (pd_index v)) (pt_index v) = (phys AND 0xFFFFF000) OR (flags AND 0xFFF)"
  shows "get_physical_addr v s = (phys AND 0xFFFFF000) + (v AND 0xFFF)"
  using assms indices_in_range [of v]
  by (simp add: get_physical_addr_def Let_def page_masks PAGE_PRESENT_def entry_base entry_flags)

lemma page_indices_iff:
  "unat v div 4096 = unat u div 4096 \<longleftrightarrow> pd_index v = pd_index u \<and> pt_index v = pt_index u"
proof
  assume eq: "unat v div 4096 = unat u div 4096"
  then have "unat v div 4096 div 1024 = unat u div 4096 div 1024" by simp
  then have "unat v div (4096 * 1024) = unat u div (4096 * 1024)" by (simp only: div_mult2_eq)
  with eq show "pd_index v = pd_index u \<and> pt_index v = pt_index u"
    by (simp add: pd_index_def pt_index_def PAGE_SIZE_def PAGES_PER_TABLE_def)
next
  assume "pd_index v = pd_index u \<and> pt_index v = pt_index u"
  then show "unat v div 4096 = unat u div 4096" by (metis indices_page)
qed

lemma aligned_base:
  assumes "unat (p :: u32) mod PAGE_SIZE = 0"
  shows "p AND NOT (mask 12) = p"
proof -
  have "take_bit 12 p = 0"
    using assms by (simp add: word_eq_iff_unsigned unsigned_take_bit_eq take_bit_eq_mod PAGE_SIZE_def unat_mod word_arith_nat_mod)
  then show ?thesis using page_split [of p] by (simp add: take_bit_eq_mask)
qed

lemma map_page_deadlocks:
  assumes "mutex_free (paging_lock s)" and "page_tables s (pd_index virt) = 0"
    and "unat virt mod PAGE_SIZE = 0" and "unat phys mod PAGE_SIZE = 0"
    and "\<forall>x\<in>set w'. leaves_alone paging_lock cur x"
  shows "map_page cur w w' ticks virt phys flags s = None"
proof -
  let ?s = "s\<lparr>paging_lock := \<lparr>locked = 1, owner = cur\<rparr>\<rparr>"
  have "pg_lock cur w' ?s = None"
    using assms(5) by (intro glock.relock_never_returns) (simp_all add: held_by_def)
  then have "alloc_page cur w' ticks ?s = None" by (simp add: alloc_page_def)
  then show ?thesis
    using assms(2-4) pg_lock_free [OF assms(1), of cur w] indices_in_range [of virt]
    by (simp add: map_page_def Let_def not_le)
qed

text \<open>The state \<open>paging_init\<close> leaves.\<close>

definition table_layout :: "(nat \<Rightarrow> u32) \<Rightarrow> bool" where
  "table_layout tab \<longleftrightarrow> inj_on tab {..<NUM_PAGE_TABLES} \<and> (\<forall>t<NUM_PAGE_TABLES. tab t \<noteq> 0)"

lemma fold_identity:
  assumes "inj_on tab {..<n}"
  shows "page_tables (fold (identity_table tab) [0..<n] s) = (\<lambda>i. if i < n then tab i else page_tables s i) \<and>
    (\<forall>t<n. \<forall>e<1024. tables (fold (identity_table tab) [0..<n] s) (tab t) e =
      (of_nat t * 4096 * 1024 + of_nat e * 4096 AND 0xFFFFF000) OR PAGE_PRESENT OR PAGE_WRITE) \<and>
    free_set (fold (identity_table tab) [0..<n] s) = free_set s \<and>
    paging_lock (fold (identity_table tab) [0..<n] s) = paging_lock s"
  using assms
proof (induction n)
  case (Suc n)
  have inj: "inj_on tab {..<n}" "\<forall>t<n. tab t \<noteq> tab n"
    using Suc.prems by (auto simp: inj_on_def)
  with Suc.IH show ?case
    by (auto simp: identity_table_def Let_def fun_eq_iff less_Suc_eq)
qed simp

lemma reserved: "reserved_pages = 16384"
  by (simp add: reserved_pages_def IDENTITY_MAP_MB_def PAGE_SIZE_def TOTAL_PAGES_def)

lemma paging_init_state:
  assumes "table_layout tab" and "paging_init tab dir ticks s = (e, s')"
  shows "e = E_OK" "paging_inv s'" "free_set s' = {16384..<TOTAL_PAGES}"
    "page_tables s' i = (if i < NUM_PAGE_TABLES then tab i else if i < PAGE_TABLES_COUNT then 0 else page_tables s i)"
    "t < NUM_PAGE_TABLES \<Longrightarrow> x < 1024 \<Longrightarrow> tables s' (tab t) x =
      (of_nat t * 4096 * 1024 + of_nat x * 4096 AND 0xFFFFF000) OR PAGE_PRESENT OR PAGE_WRITE"
proof -
  define s1 where "s1 = paging_reset ticks s"
  define s2 where "s2 = (fold (identity_table tab) [0..<NUM_PAGE_TABLES] s1)
    \<lparr>directory_at := dir, num_pages := of_nat TOTAL_PAGES, num_free_pages := of_nat TOTAL_PAGES\<rparr>"
  define s3 where "s3 = fold paging_lock_page [0..<reserved_pages] s2"
  have s': "e = E_OK \<and> s' = plog ticks LOG_INFO (''Pagination initialis'' @ e_acute @ ''e OK (identity map)'')
      (s3\<lparr>num_free_pages := num_free_pages s3 - of_nat reserved_pages\<rparr>)"
    using assms(2) unfolding paging_init_def Let_def s3_def s2_def s1_def plog_def by simp
  have s1: "page_tables s1 i = (if i < PAGE_TABLES_COUNT then 0 else page_tables s i)" "mutex_free (paging_lock s1)" for i
    by (simp_all add: s1_def paging_reset_def plog_def Let_def)
  have inj: "inj_on tab {..<NUM_PAGE_TABLES}" using assms(1) by (simp add: table_layout_def)
  note fi = fold_identity [OF inj, of s1]
  have "free_set s1 = {..<TOTAL_PAGES}"
    unfolding free_set_def page_free_iff s1_def by (auto simp: paging_reset_def Let_def byte_in_range)
  then have "free_set s2 = {..<TOTAL_PAGES}" using fi by (simp add: s2_def)
  then have "free_set s3 = {..<TOTAL_PAGES} - {0..<reserved_pages}"
    using fold_lock_pages [of 0 reserved_pages s2] by (simp add: s3_def)
  also have "\<dots> = {16384..<TOTAL_PAGES}" unfolding reserved by auto
  finally have f3: "free_set s3 = {16384..<TOTAL_PAGES}" .
  show "e = E_OK" using s' by simp
  show fs: "free_set s' = {16384..<TOTAL_PAGES}" using s' f3 by (simp add: plog_def)
  have frame: "num_free_pages s3 = of_nat TOTAL_PAGES" "num_pages s3 = of_nat TOTAL_PAGES" "mutex_free (paging_lock s3)"
    "page_tables s3 = page_tables s2" "tables s3 = tables s2"
    using fold_lock_frame [of "\<lambda>j. j" "[0..<reserved_pages]" s2] fi s1 by (simp_all add: s3_def s2_def)
  then show "paging_inv s'"
    using s' fs by (simp add: paging_inv_def plog_def reserved TOTAL_PAGES_def)
  show "page_tables s' i = (if i < NUM_PAGE_TABLES then tab i else if i < PAGE_TABLES_COUNT then 0 else page_tables s i)"
    using s' frame fi s1 by (simp add: plog_def s2_def)
  show "t < NUM_PAGE_TABLES \<Longrightarrow> x < 1024 \<Longrightarrow> tables s' (tab t) x =
      (of_nat t * 4096 * 1024 + of_nat x * 4096 AND 0xFFFFF000) OR PAGE_PRESENT OR PAGE_WRITE"
    using s' frame fi by (simp add: plog_def s2_def)
qed

section \<open>Properties\<close>

text \<open>
  C15. Allocating a page returns the lowest free page, never NULL while a page is free, and takes exactly it
  off the free set; with none left it returns NULL. The count of free pages stays exact.
\<close>

theorem alloc_page_correct:
  assumes "paging_inv s"
  shows "\<exists>p s'. alloc_page cur w ticks s = Some (p, s') \<and> paging_inv s' \<and>
    (if free_set s = {} then p = 0 \<and> free_set s' = {}
     else p \<noteq> 0 \<and> unat p = Min (free_set s) * PAGE_SIZE \<and> free_set s' = free_set s - {Min (free_set s)})"
proof (cases "free_set s = {}")
  case True
  with assms show ?thesis
    by (simp add: alloc_page_runs paging_inv_def plog_def)
next
  case False
  let ?m = "Min (free_set s)"
  have m: "?m \<in> free_set s" using False by simp
  moreover have "0 < ?m" using m assms by (metis gr0I paging_inv_def)
  ultimately have "(of_nat (?m * PAGE_SIZE) :: u32) \<noteq> 0" "unat (of_nat (?m * PAGE_SIZE) :: u32) = ?m * PAGE_SIZE"
    using page_address [of ?m] by (simp_all add: free_set_def)
  moreover have "(of_nat (card (free_set s - {?m})) :: u32) = of_nat (card (free_set s)) - 1"
    using of_nat_card_less [of "free_set s" "{?m}"] m by simp
  ultimately show ?thesis
    using False assms by (auto simp: alloc_page_runs paging_inv_def lock_page_free)
qed


definition raw_paging :: paging where
  "raw_paging = \<lparr>page_bitmap = (\<lambda>_. 0xFF), page_directory = (\<lambda>_. 7), page_tables = (\<lambda>_. 7), tables = (\<lambda>_ _. 0),
     directory_at = 0, num_pages = 0, num_free_pages = 0, paging_lock = \<lparr>locked = 1, owner = 5\<rparr>, cr0 = 0, cr3 = 0,
     pg_log = blank_log\<rparr>"

definition demo_tab :: "nat \<Rightarrow> u32" where
  "demo_tab t = of_nat (0x300000 + 4096 * t)"

lemma demo_layout: "table_layout demo_tab"
proof -
  have "unat (demo_tab t) = 0x300000 + 4096 * t" if "t < NUM_PAGE_TABLES" for t
    unfolding demo_tab_def using that by (intro unat_of_nat_u32) (simp add: NUM_PAGE_TABLES_def)
  then show ?thesis unfolding table_layout_def inj_on_def
    by (metis add_eq_0_iff_both_eq_0 add_left_cancel lessThan_iff mult_cancel_left unat_0 zero_neq_numeral)
qed

definition boot_paging :: paging where
  "boot_paging = snd (paging_init demo_tab 0x200000 0 raw_paging)"

lemma boot_paging_eq:
  "paging_init demo_tab 0x200000 0 raw_paging = (fst (paging_init demo_tab 0x200000 0 raw_paging), boot_paging)"
  by (simp add: boot_paging_def)

lemmas boot_paging_state = paging_init_state [OF demo_layout boot_paging_eq]

theorem alloc_page_correct_witness:
  "\<exists>p s'. alloc_page 1 [] 0 boot_paging = Some (p, s') \<and> paging_inv s' \<and>
    (if free_set boot_paging = {} then p = 0 \<and> free_set s' = {}
     else p \<noteq> 0 \<and> unat p = Min (free_set boot_paging) * PAGE_SIZE \<and> free_set s' = free_set boot_paging - {Min (free_set boot_paging)})"
  by (rule alloc_page_correct [OF boot_paging_state(2)])




text \<open>
  C28. Mapping a page whose table exists takes effect: the call returns \<open>E_OK\<close>, every address in the page then translates
  to the same offset in the physical page, and no other page's translation changes.
\<close>

definition tables_distinct :: "paging \<Rightarrow> bool" where
  "tables_distinct s \<longleftrightarrow> (\<forall>i j. i < PAGE_TABLES_COUNT \<longrightarrow> j < PAGE_TABLES_COUNT \<longrightarrow> page_tables s i \<noteq> 0 \<longrightarrow>
     page_tables s i = page_tables s j \<longrightarrow> i = j)"

theorem map_page_correct:
  assumes "paging_inv s" and "tables_distinct s" and "page_tables s (pd_index virt) \<noteq> 0"
    and "unat virt mod PAGE_SIZE = 0" and "unat phys mod PAGE_SIZE = 0" and "flags AND PAGE_PRESENT \<noteq> 0"
  shows "\<exists>s'. map_page cur w w' ticks virt phys flags s = Some (E_OK, s') \<and> paging_inv s' \<and>
    get_physical_addr v s' =
      (if unat v div PAGE_SIZE = unat virt div PAGE_SIZE then phys + (v AND 0xFFF) else get_physical_addr v s)"
proof -
  let ?pt = "page_tables s (pd_index virt)"
  let ?entry = "(phys AND 0xFFFFF000) OR (flags AND 0xFFF)"
  let ?s = "s\<lparr>tables := (tables s)(?pt := (tables s ?pt)(pt_index virt := ?entry))\<rparr>"
  have free: "mutex_free (paging_lock s)" using assms(1) by (simp add: paging_inv_def)
  then have "paging_lock s = \<lparr>locked = 0, owner = 0\<rparr>" by (simp add: mutex_free_eq)
  then have run: "map_page cur w w' ticks virt phys flags s = Some (E_OK, ?s)"
    using assms(3-5) pg_lock_free [OF free, of cur w] pg_unlock_held [of cur] indices_in_range [of virt]
    by (simp add: map_page_def Let_def paging_flush_tlb_def not_le)
  have same_iff: "unat v div PAGE_SIZE = unat virt div PAGE_SIZE \<longleftrightarrow> pd_index v = pd_index virt \<and> pt_index v = pt_index virt"
    using page_indices_iff by (simp add: PAGE_SIZE_def)
  have "get_physical_addr v ?s =
      (if unat v div PAGE_SIZE = unat virt div PAGE_SIZE then phys + (v AND 0xFFF) else get_physical_addr v s)"
  proof (cases "unat v div PAGE_SIZE = unat virt div PAGE_SIZE")
    case True
    then have "get_physical_addr v ?s = (phys AND 0xFFFFF000) + (v AND 0xFFF)"
      using assms(3,6) same_iff by (intro translate [where flags = flags]) (simp_all add: PAGE_PRESENT_def)
    with True aligned_base [OF assms(5)] show ?thesis by (simp add: page_masks)
  next
    case False
    have "tables ?s (page_tables ?s (pd_index v)) (pt_index v) = tables s (page_tables s (pd_index v)) (pt_index v)"
      if "page_tables s (pd_index v) \<noteq> 0"
      using False same_iff that assms(2) indices_in_range(1) unfolding tables_distinct_def by auto
    with False show ?thesis by (simp add: get_physical_addr_def Let_def)
  qed
  moreover have "paging_inv ?s" using assms(1) by (simp add: paging_inv_def)
  ultimately show ?thesis using run by blast
qed

lemma boot_tables: "page_tables boot_paging i = (if i < 16 then demo_tab i else if i < 1024 then 0 else 7)"
  using boot_paging_state(4) [of i] by (simp add: NUM_PAGE_TABLES_def PAGE_TABLES_COUNT_def raw_paging_def)

theorem map_page_correct_witness:
  "\<exists>s'. map_page 1 [] [] 0 0x400000 0x9000000 3 boot_paging = Some (E_OK, s') \<and> paging_inv s' \<and>
    get_physical_addr 0x400123 s' =
      (if unat (0x400123 :: u32) div PAGE_SIZE = unat (0x400000 :: u32) div PAGE_SIZE
       then 0x9000000 + (0x400123 AND 0xFFF) else get_physical_addr 0x400123 boot_paging)"
proof (rule map_page_correct [OF boot_paging_state(2)])
  have inj: "inj_on demo_tab {..<16}" and nz: "\<forall>t<16. demo_tab t \<noteq> 0"
    using demo_layout by (simp_all add: table_layout_def NUM_PAGE_TABLES_def)
  then show "tables_distinct boot_paging"
    unfolding tables_distinct_def boot_tables PAGE_TABLES_COUNT_def by (auto simp: inj_on_def)
  show "page_tables boot_paging (pd_index 0x400000) \<noteq> 0"
    using nz by (simp add: boot_tables pd_index_def PAGE_SIZE_def PAGES_PER_TABLE_def)
qed (simp_all add: PAGE_SIZE_def PAGE_PRESENT_def)

text \<open>
  Mapping a page whose table does not exist never returns: \<open>map_page\<close> calls \<open>alloc_page\<close> while it holds the lock
  that \<open>alloc_page\<close> takes first. The first \<open>alloc_page_user\<close> after \<open>paging_init\<close> is such a call.
\<close>

theorem alloc_page_user_deadlocks:
  assumes "table_layout tab" and "paging_init tab dir ticks s = (e, s')"
    and "\<forall>x\<in>set w2. leaves_alone paging_lock cur x"
  shows "alloc_page_user cur w w1 w2 ticks' s' = None"
proof -
  note init = paging_init_state [OF assms(1,2)]
  have free: "mutex_free (paging_lock s')" using init(2) by (simp add: paging_inv_def)
  have min: "Min (free_set s') = 16384" "free_set s' \<noteq> {}"
    unfolding init(3) by (rule Min_eqI; simp add: TOTAL_PAGES_def) (simp add: TOTAL_PAGES_def)
  let ?s = "(paging_lock_page 16384 s')\<lparr>num_free_pages := num_free_pages s' - 1\<rparr>"
  have alloc: "alloc_page cur w ticks' s' = Some (0x4000000, ?s)"
    using alloc_page_runs [OF free, of cur w ticks'] min by (simp add: PAGE_SIZE_def)
  have "page_tables ?s (pd_index 0x4000000) = 0"
    using init(4) [of 16] by (simp add: pd_index_def PAGE_SIZE_def PAGES_PER_TABLE_def NUM_PAGE_TABLES_def PAGE_TABLES_COUNT_def)
  then have "map_page cur w1 w2 ticks' 0x4000000 0x4000000 f ?s = None" for f
    using free assms(3) by (intro map_page_deadlocks) (simp_all add: PAGE_SIZE_def)
  with alloc show ?thesis by (simp add: alloc_page_user_def alloc_page_with_def)
qed

theorem alloc_page_user_deadlocks_witness:
  "alloc_page_user 1 [] [] [\<lambda>s. s, \<lambda>s. s] 5 boot_paging = None"
  by (rule alloc_page_user_deadlocks [OF demo_layout boot_paging_eq])
    (simp add: leaves_alone_def)

end
