(* ===== verification/Vfs.thy ===== *)
theory Vfs
  imports Kernel_Prelude
begin

text \<open>
  \<^verbatim>\<open>vfs.c\<close>: ten files in memory, each with a name of at most 31 characters and a content of at most
  255. A file pointer is the index of its slot, \<open>None\<close> for NULL. String arguments are character lists
  read up to their first NUL.
\<close>

section \<open>Model\<close>

definition MAX_FILES :: nat where "MAX_FILES = 10"
definition MAX_FILENAME :: nat where "MAX_FILENAME = 32"
definition MAX_FILE_SIZE :: nat where "MAX_FILE_SIZE = 256"

record vfs_file =
  f_name :: "char list"
  f_content :: "char list"
  f_size :: nat
  f_used :: bool

type_synonym vfs = "vfs_file list"

fun strlen :: "char list \<Rightarrow> nat" where
  "strlen [] = 0"
| "strlen (c # s) = (if c = NUL then 0 else 1 + strlen s)"

text \<open>The end of a list stands for its terminator.\<close>

definition first_char :: "char list \<Rightarrow> int" where
  "first_char s = (case s of [] \<Rightarrow> 0 | c # _ \<Rightarrow> of_char c)"

function strcmp :: "char list \<Rightarrow> char list \<Rightarrow> int" where
  "strcmp s1 s2 =
     (if first_char s1 \<noteq> 0 \<and> first_char s1 = first_char s2 then strcmp (tl s1) (tl s2)
      else first_char s1 - first_char s2)"
  by pat_completeness auto

termination strcmp
  by (relation "measure (\<lambda>(a, b). length a)") (auto simp: first_char_def split: list.splits)

declare strcmp.simps [simp del]

text \<open>\<open>None\<close> is the answer -1, with nothing written.\<close>

definition safe_copy :: "char list \<Rightarrow> char list \<Rightarrow> nat \<Rightarrow> char list option" where
  "safe_copy dest src max_len =
     (let len = strlen src in
      if len \<ge> max_len then None else Some (blit dest (take len src @ [NUL])))"

definition vfs_create :: "char list \<Rightarrow> char list \<Rightarrow> vfs \<Rightarrow> int \<times> vfs" where
  "vfs_create name content files =
     (case find (\<lambda>i. \<not> f_used (files ! i)) [0..<MAX_FILES] of
        None \<Rightarrow> (-1, files)
      | Some i \<Rightarrow>
          (case safe_copy (f_name (files ! i)) name MAX_FILENAME of
             None \<Rightarrow> (-1, files)
           | Some nm \<Rightarrow>
               let files = files[i := (files ! i)\<lparr>f_name := nm\<rparr>] in
               (case safe_copy (f_content (files ! i)) content MAX_FILE_SIZE of
                  None \<Rightarrow> (-1, files)
                | Some ct \<Rightarrow> (0, files[i := (files ! i)\<lparr>f_content := ct, f_size := strlen content, f_used := True\<rparr>]))))"

definition vfs_init :: "vfs \<Rightarrow> vfs" where
  "vfs_init files =
     (let files = map (\<lambda>f. f\<lparr>f_used := False\<rparr>) files;
          (_, files) = vfs_create ''readme.txt'' ''Bienvenue sur le RTOS x86 (v1.0) !'' files;
          (_, files) = vfs_create ''kernel.info'' (''Architecture : i686 (x86 32-bit)'' @ [newline] @
                         ''Multitasking : Preemptif + Priorite'') files;
          (_, files) = vfs_create ''author.txt'' ''Concu par un Developpeur OS passionne.'' files
      in files)"

definition vfs_open :: "char list \<Rightarrow> vfs \<Rightarrow> nat option" where
  "vfs_open name files = find (\<lambda>i. f_used (files ! i) \<and> strcmp (f_name (files ! i)) name = 0) [0..<MAX_FILES]"

definition vfs_list :: "vfs \<Rightarrow> string list" where
  "vfs_list files = concat (map (\<lambda>i. if f_used (files ! i) then ['' - '', cstr (f_name (files ! i)), [newline]] else [])
     [0..<MAX_FILES])"

definition vfs_touch :: "char list \<Rightarrow> vfs \<Rightarrow> int \<times> vfs" where
  "vfs_touch name files = (if vfs_open name files \<noteq> None then (0, files) else vfs_create name '''' files)"

definition vfs_write :: "char list \<Rightarrow> char list \<Rightarrow> vfs \<Rightarrow> int \<times> vfs" where
  "vfs_write name content files =
     (case vfs_open name files of
        None \<Rightarrow> vfs_create name content files
      | Some i \<Rightarrow>
          (case safe_copy (f_content (files ! i)) content MAX_FILE_SIZE of
             None \<Rightarrow> (-1, files)
           | Some ct \<Rightarrow> (0, files[i := (files ! i)\<lparr>f_content := ct, f_size := strlen content\<rparr>])))"

definition vfs_remove :: "char list \<Rightarrow> vfs \<Rightarrow> int \<times> vfs" where
  "vfs_remove name files =
     (case find (\<lambda>i. f_used (files ! i) \<and> strcmp (f_name (files ! i)) name = 0) [0..<MAX_FILES] of
        None \<Rightarrow> (-1, files)
      | Some i \<Rightarrow> (0, files[i := (files ! i)\<lparr>f_used := False\<rparr>]))"

section \<open>C strings\<close>

lemma strlen_cstr: "strlen s = length (cstr s)"
  by (induction s) auto

lemma take_strlen: "take (strlen s) s = cstr s"
  by (induction s) auto

lemma first_char_Cons [simp]: "first_char (c # s) = of_char c" "first_char [] = 0"
  by (simp_all add: first_char_def)

lemma of_char_0 [simp]: "(of_char c :: int) = 0 \<longleftrightarrow> c = NUL"
proof -
  have "(of_char NUL :: int) = 0" by simp
  then show ?thesis by (metis of_char_eq_iff)
qed

lemma strcmp_0: "strcmp a b = 0 \<longleftrightarrow> cstr a = cstr b"
proof (induction a b rule: strcmp.induct)
  case (1 a b)
  then show ?case
    by (subst strcmp.simps) (cases a; cases b; auto)
qed

lemma safe_copy_eq:
  "safe_copy d s n = (if n \<le> length (cstr s) then None else Some (blit d (cstr s @ [NUL])))"
  by (simp add: safe_copy_def Let_def strlen_cstr [symmetric] take_strlen)

section \<open>A bounded store of named strings\<close>

text \<open>The contract: a finite map of at most ten names, with the bounds under which an operation is refused.\<close>

datatype file_op = Write string string | Touch string | Remove string

type_synonym store = "string \<Rightarrow> string option"

definition spec_put :: "string \<Rightarrow> string \<Rightarrow> store \<Rightarrow> int \<times> store" where
  "spec_put n c m =
     (if 32 \<le> length n \<or> 256 \<le> length c \<or> n \<notin> dom m \<and> 10 \<le> card (dom m) then (-1, m) else (0, m(n \<mapsto> c)))"

fun spec_op :: "file_op \<Rightarrow> store \<Rightarrow> int \<times> store" where
  "spec_op (Write n c) m = spec_put n c m"
| "spec_op (Touch n) m = (if n \<in> dom m then (0, m) else spec_put n [] m)"
| "spec_op (Remove n) m = (if n \<in> dom m then (0, m(n := None)) else (-1, m))"

fun run_ops :: "('op \<Rightarrow> 's \<Rightarrow> int \<times> 's) \<Rightarrow> 'op list \<Rightarrow> 's \<Rightarrow> int list \<times> 's" where
  "run_ops step [] s = ([], s)"
| "run_ops step (p # ps) s = (let (r, s) = step p s; (rs, s) = run_ops step ps s in (r # rs, s))"

fun op_ok :: "file_op \<Rightarrow> bool" where
  "op_ok (Write n c) \<longleftrightarrow> NUL \<notin> set n \<and> NUL \<notin> set c"
| "op_ok (Touch n) \<longleftrightarrow> NUL \<notin> set n"
| "op_ok (Remove n) \<longleftrightarrow> NUL \<notin> set n"

locale file_store =
  fixes step :: "file_op \<Rightarrow> 's \<Rightarrow> int \<times> 's"
    and view :: "'s \<Rightarrow> store"
    and inv :: "'s \<Rightarrow> bool"
  assumes step_refines: "inv s \<Longrightarrow> op_ok p \<Longrightarrow> step p s = (r, s') \<Longrightarrow> inv s' \<and> spec_op p (view s) = (r, view s')"
begin

lemma run_refines:
  "inv s \<Longrightarrow> list_all op_ok ps \<Longrightarrow> run_ops step ps s = (rs, s') \<Longrightarrow>
    inv s' \<and> run_ops spec_op ps (view s) = (rs, view s')"
proof (induction ps arbitrary: s rs)
  case Nil
  then show ?case by simp
next
  case (Cons p ps)
  obtain r s1 rs1 where 1: "step p s = (r, s1)" "run_ops step ps s1 = (rs1, s')" "rs = r # rs1"
    using Cons.prems(3) by (auto simp: Let_def split: prod.splits)
  with Cons.prems have "inv s1" "spec_op p (view s) = (r, view s1)" using step_refines [of s p r s1] by auto
  with 1 Cons.IH [of s1 rs1] Cons.prems(2) show ?case by simp
qed

end

section \<open>The files as such a store\<close>

definition vfs_view :: "vfs \<Rightarrow> store" where
  "vfs_view files n = map_option (\<lambda>i. cstr (f_content (files ! i)))
     (find (\<lambda>i. f_used (files ! i) \<and> cstr (f_name (files ! i)) = n) [0..<MAX_FILES])"

definition vfs_inv :: "vfs \<Rightarrow> bool" where
  "vfs_inv files \<longleftrightarrow> length files = MAX_FILES \<and>
     (\<forall>i<MAX_FILES. length (f_name (files ! i)) = MAX_FILENAME \<and> length (f_content (files ! i)) = MAX_FILE_SIZE \<and>
        (f_used (files ! i) \<longrightarrow> length (cstr (f_name (files ! i))) < MAX_FILENAME \<and>
           f_size (files ! i) = length (cstr (f_content (files ! i))))) \<and>
     inj_on (\<lambda>i. cstr (f_name (files ! i))) {i. i < MAX_FILES \<and> f_used (files ! i)}"

definition vfs_step :: "file_op \<Rightarrow> vfs \<Rightarrow> int \<times> vfs" where
  "vfs_step p = (case p of Write n c \<Rightarrow> vfs_write n c | Touch n \<Rightarrow> vfs_touch n | Remove n \<Rightarrow> vfs_remove n)"

abbreviation in_slots :: "vfs \<Rightarrow> nat set" where
  "in_slots files \<equiv> {i. i < MAX_FILES \<and> f_used (files ! i)}"

lemma view_mem:
  assumes "vfs_inv files" and "i \<in> in_slots files"
  shows "vfs_view files (cstr (f_name (files ! i))) = Some (cstr (f_content (files ! i)))"
proof -
  have "find (\<lambda>j. f_used (files ! j) \<and> cstr (f_name (files ! j)) = cstr (f_name (files ! i))) [0..<MAX_FILES] = Some i"
    using assms by (intro find_index_unique) (auto simp: vfs_inv_def inj_on_def)
  then show ?thesis by (simp add: vfs_view_def)
qed

lemma view_None: "vfs_view files n = None \<longleftrightarrow> (\<forall>i\<in>in_slots files. cstr (f_name (files ! i)) \<noteq> n)"
  by (auto simp: vfs_view_def find_None_iff)

lemma view_dom: "dom (vfs_view files) = (\<lambda>i. cstr (f_name (files ! i))) ` in_slots files"
proof -
  have "n \<in> dom (vfs_view files) \<longleftrightarrow> n \<in> (\<lambda>i. cstr (f_name (files ! i))) ` in_slots files" for n
    using view_None [of files n] by (auto simp: domIff)
  then show ?thesis by blast
qed

lemma view_card: "vfs_inv files \<Longrightarrow> card (dom (vfs_view files)) = card (in_slots files)"
  unfolding view_dom by (rule card_image) (simp add: vfs_inv_def)

lemma open_Some:
  assumes "vfs_open n files = Some i"
  shows "i \<in> in_slots files" "cstr (f_name (files ! i)) = cstr n"
  using find_index_Some [OF assms [unfolded vfs_open_def]] by (simp_all add: strcmp_0)

lemma open_view: "NUL \<notin> set n \<Longrightarrow> vfs_open n files = None \<longleftrightarrow> n \<notin> dom (vfs_view files)"
  unfolding view_dom by (auto simp: vfs_open_def find_None_iff strcmp_0 cstr_id)

text \<open>
  Writing one slot of the table: the view changes at the new name, provided no other slot has it.
\<close>

lemma view_upd:
  assumes inv: "vfs_inv files" and inv': "vfs_inv (files[i := f])" and i: "i < MAX_FILES" and used: "f_used f"
    and old: "f_used (files ! i) \<longrightarrow> cstr (f_name (files ! i)) = cstr (f_name f)"
  shows "vfs_view (files[i := f]) = (vfs_view files)(cstr (f_name f) \<mapsto> cstr (f_content f))"
proof
  fix n
  let ?files = "files[i := f]"
  have len: "length files = MAX_FILES" using inv by (simp add: vfs_inv_def)
  then have at: "?files ! i = f" and off: "j \<noteq> i \<Longrightarrow> ?files ! j = files ! j" for j using i by simp_all
  show "vfs_view ?files n = ((vfs_view files)(cstr (f_name f) \<mapsto> cstr (f_content f))) n"
  proof (cases "n = cstr (f_name f)")
    case True
    with view_mem [OF inv', of i] i at used show ?thesis by simp
  next
    case False
    show ?thesis
    proof (cases "\<exists>j\<in>in_slots ?files. cstr (f_name (?files ! j)) = n")
      case True
      then obtain j where j: "j \<in> in_slots ?files" "cstr (f_name (?files ! j)) = n" by blast
      with False at off have "j \<noteq> i" by auto
      with j off [of j] view_mem [OF inv', of j] view_mem [OF inv, of j] False show ?thesis by simp
    next
      case none: False
      then have "vfs_view ?files n = None" by (simp add: view_None)
      moreover have "cstr (f_name (files ! j)) \<noteq> n" if "j \<in> in_slots files" for j
      proof (cases "j = i")
        case True
        with that old False show ?thesis by auto
      next
        case jne: False
        with that off [of j] have "j \<in> in_slots ?files" by simp
        with none have "cstr (f_name (?files ! j)) \<noteq> n" by blast
        with off [OF jne] show ?thesis by simp
      qed
      then have "vfs_view files n = None" by (simp add: view_None)
      ultimately show ?thesis using False by simp
    qed
  qed
qed

lemma view_hide:
  assumes inv: "vfs_inv files" and i: "i < MAX_FILES" and unused: "\<not> f_used f"
  shows "vfs_view (files[i := f]) =
    (if f_used (files ! i) then (vfs_view files)(cstr (f_name (files ! i)) := None) else vfs_view files)"
proof
  fix n
  let ?files = "files[i := f]"
  have len: "length files = MAX_FILES" and inj: "inj_on (\<lambda>i. cstr (f_name (files ! i))) (in_slots files)"
    using inv by (simp_all add: vfs_inv_def)
  have slots: "in_slots ?files = in_slots files - {i}"
    using len i unused by (auto simp: nth_list_update)
  have off: "j \<noteq> i \<Longrightarrow> ?files ! j = files ! j" for j by simp
  show "vfs_view ?files n =
      (if f_used (files ! i) then (vfs_view files)(cstr (f_name (files ! i)) := None) else vfs_view files) n"
  proof (cases "\<exists>j\<in>in_slots files - {i}. cstr (f_name (files ! j)) = n")
    case True
    then obtain j where j: "j \<in> in_slots files" "j \<noteq> i" "cstr (f_name (files ! j)) = n" by auto
    have "find (\<lambda>k. f_used (?files ! k) \<and> cstr (f_name (?files ! k)) = n) [0..<MAX_FILES] = Some j"
    proof (rule find_index_unique)
      fix k assume k: "0 \<le> k" "k < MAX_FILES" "f_used (?files ! k) \<and> cstr (f_name (?files ! k)) = n"
      then have "k \<in> in_slots ?files" by simp
      then have "k \<in> in_slots files" "k \<noteq> i" unfolding slots by simp_all
      with k(3) j inj off [of k] show "k = j" unfolding inj_on_def by simp
    qed (use j off [OF j(2)] in simp_all)
    then have "vfs_view ?files n = Some (cstr (f_content (files ! j)))" using off [OF j(2)] by (simp add: vfs_view_def)
    moreover have "f_used (files ! i) \<Longrightarrow> cstr (f_name (files ! i)) \<noteq> n"
      using inj j i by (auto simp: inj_on_def)
    ultimately show ?thesis using view_mem [OF inv j(1)] j(3) by auto
  next
    case False
    have "vfs_view ?files n = None" unfolding view_None slots using False off by auto
    moreover have "vfs_view files n = None" if "\<not> (f_used (files ! i) \<and> cstr (f_name (files ! i)) = n)"
      unfolding view_None using False that by auto
    ultimately show ?thesis by (cases "f_used (files ! i) \<and> cstr (f_name (files ! i)) = n") auto
  qed
qed

lemma vfs_inv_upd:
  assumes inv: "vfs_inv files" and i: "i < MAX_FILES"
    and f: "length (f_name f) = MAX_FILENAME" "length (f_content f) = MAX_FILE_SIZE"
    and used: "f_used f \<Longrightarrow> length (cstr (f_name f)) < MAX_FILENAME \<and> f_size f = length (cstr (f_content f)) \<and>
      (\<forall>j\<in>in_slots files - {i}. cstr (f_name (files ! j)) \<noteq> cstr (f_name f))"
  shows "vfs_inv (files[i := f])"
proof -
  have len: "length files = MAX_FILES" and inj: "inj_on (\<lambda>i. cstr (f_name (files ! i))) (in_slots files)"
    using inv by (simp_all add: vfs_inv_def)
  have nth: "files[i := f] ! j = (if j = i then f else files ! j)" for j using len i by (simp add: nth_list_update)
  have "inj_on (\<lambda>j. cstr (f_name (files[i := f] ! j))) (in_slots (files[i := f]))"
    unfolding inj_on_def nth using inj used by (auto simp: inj_on_def split: if_splits)
  with inv f used show ?thesis by (simp add: vfs_inv_def nth)
qed

lemma free_slot_iff:
  assumes "vfs_inv files"
  shows "find (\<lambda>i. \<not> f_used (files ! i)) [0..<MAX_FILES] = None \<longleftrightarrow> 10 \<le> card (dom (vfs_view files))"
proof -
  have sub: "in_slots files \<subseteq> {..<MAX_FILES}" by auto
  have "find (\<lambda>i. \<not> f_used (files ! i)) [0..<MAX_FILES] = None \<longleftrightarrow> in_slots files = {..<MAX_FILES}"
    by (auto simp: find_None_iff)
  also have "\<dots> \<longleftrightarrow> MAX_FILES \<le> card (in_slots files)"
    using card_seteq [OF finite_lessThan sub] by fastforce
  finally show ?thesis using view_card [OF assms] by (simp add: MAX_FILES_def)
qed

text \<open>Storing name and contents in a slot that is free or already has that name.\<close>

lemma store_refines:
  assumes inv: "vfs_inv files" and i: "i < MAX_FILES" and g: "f_used g" "cstr (f_name g) = n" "cstr (f_content g) = c" "f_size g = length c"
    "length (f_name g) = MAX_FILENAME" "length (f_content g) = MAX_FILE_SIZE" "length n < MAX_FILENAME"
    and old: "f_used (files ! i) \<Longrightarrow> cstr (f_name (files ! i)) = n"
    and others: "\<forall>j\<in>in_slots files - {i}. cstr (f_name (files ! j)) \<noteq> n"
  shows "vfs_inv (files[i := g]) \<and> vfs_view (files[i := g]) = (vfs_view files)(n \<mapsto> c)"
proof -
  have inv': "vfs_inv (files[i := g])" using g others by (intro vfs_inv_upd [OF inv i]) simp_all
  with view_upd [OF inv inv' i] old g show ?thesis by (cases "f_used (files ! i)") auto
qed

lemma create_refines:
  assumes inv: "vfs_inv files" and n: "NUL \<notin> set n" and c: "NUL \<notin> set c" and new: "n \<notin> dom (vfs_view files)"
    and run: "vfs_create n c files = (r, files')"
  shows "vfs_inv files' \<and> spec_put n c (vfs_view files) = (r, vfs_view files')"
proof (cases "find (\<lambda>i. \<not> f_used (files ! i)) [0..<MAX_FILES]")
  case None
  with run free_slot_iff [OF inv] new inv show ?thesis by (auto simp: vfs_create_def spec_put_def)
next
  case (Some i)
  then have i: "i < MAX_FILES" "\<not> f_used (files ! i)" using find_index_Some by blast+
  have room: "\<not> 10 \<le> card (dom (vfs_view files))" using free_slot_iff [OF inv] Some by auto
  have len: "length files = MAX_FILES" "length (f_name (files ! i)) = 32" "length (f_content (files ! i)) = 256"
    using inv i(1) by (auto simp: vfs_inv_def MAX_FILENAME_def MAX_FILE_SIZE_def)
  let ?f = "(files ! i)\<lparr>f_name := blit (f_name (files ! i)) (n @ [NUL])\<rparr>"
  note sizes = safe_copy_eq cstr_id MAX_FILENAME_def MAX_FILE_SIZE_def Let_def
  consider "\<not> length n < 32" | "length n < 32" "\<not> length c < 256" | "length n < 32" "length c < 256" by blast
  then show ?thesis
  proof cases
    case 1
    with run Some n inv new room show ?thesis by (simp add: vfs_create_def sizes spec_put_def)
  next
    case 2
    have "vfs_create n c files = (-1, files[i := ?f])" using 2 Some n c len i(1) by (simp add: vfs_create_def sizes)
    moreover have "vfs_inv (files[i := ?f])" using i(2) 2(1) len by (intro vfs_inv_upd [OF inv i(1)]) (simp_all add: sizes)
    moreover have "vfs_view (files[i := ?f]) = vfs_view files" using view_hide [OF inv i(1), of ?f] i(2) by simp
    ultimately show ?thesis using run 2 by (auto simp: spec_put_def)
  next
    case 3
    let ?g = "?f\<lparr>f_content := blit (f_content (files ! i)) (c @ [NUL]), f_size := length c, f_used := True\<rparr>"
    have "vfs_create n c files = (0, files[i := ?g])" using 3 Some n c len i(1) by (simp add: vfs_create_def sizes strlen_cstr)
    moreover have "vfs_inv (files[i := ?g]) \<and> vfs_view (files[i := ?g]) = (vfs_view files)(n \<mapsto> c)"
      using 3 len n c i new unfolding view_dom by (intro store_refines [OF inv i(1)]) (auto simp: sizes cstr_blit)
    ultimately show ?thesis using run 3 room by (auto simp: spec_put_def)
  qed
qed

lemma write_existing_refines:
  assumes inv: "vfs_inv files" and n: "NUL \<notin> set n" and c: "NUL \<notin> set c" and op: "vfs_open n files = Some i"
    and run: "vfs_write n c files = (r, files')"
  shows "vfs_inv files' \<and> spec_put n c (vfs_view files) = (r, vfs_view files')"
proof -
  have i: "i < MAX_FILES" "f_used (files ! i)" "cstr (f_name (files ! i)) = n"
    using open_Some [OF op] n by (simp_all add: cstr_id)
  then have dom: "n \<in> dom (vfs_view files)" unfolding view_dom by auto
  have len: "length (f_name (files ! i)) = 32" "length (f_content (files ! i)) = 256" "length n < 32"
    using inv i by (auto simp: vfs_inv_def MAX_FILENAME_def MAX_FILE_SIZE_def)
  show ?thesis
  proof (cases "length c < 256")
    case False
    with run op c inv show ?thesis by (simp add: vfs_write_def safe_copy_eq cstr_id MAX_FILE_SIZE_def spec_put_def)
  next
    case ct: True
    let ?g = "(files ! i)\<lparr>f_content := blit (f_content (files ! i)) (c @ [NUL]), f_size := length c\<rparr>"
    have "vfs_write n c files = (0, files[i := ?g])"
      using ct op c by (simp add: vfs_write_def safe_copy_eq cstr_id MAX_FILE_SIZE_def strlen_cstr)
    moreover have "\<forall>j\<in>in_slots files - {i}. cstr (f_name (files ! j)) \<noteq> n"
      using inv i by (auto simp: vfs_inv_def inj_on_def)
    then have "vfs_inv (files[i := ?g]) \<and> vfs_view (files[i := ?g]) = (vfs_view files)(n \<mapsto> c)"
      using ct len i c by (intro store_refines [OF inv i(1)]) (simp_all add: MAX_FILENAME_def MAX_FILE_SIZE_def cstr_blit)
    ultimately show ?thesis using run len(3) ct dom by (auto simp: spec_put_def)
  qed
qed

lemma touch_refines:
  assumes inv: "vfs_inv files" and n: "NUL \<notin> set n" and run: "vfs_touch n files = (r, files')"
  shows "vfs_inv files' \<and> spec_op (Touch n) (vfs_view files) = (r, vfs_view files')"
proof (cases "vfs_open n files")
  case None
  then have new: "n \<notin> dom (vfs_view files)" using open_view [OF n] by simp
  from None run have "vfs_create n [] files = (r, files')" by (simp add: vfs_touch_def)
  from create_refines [OF inv n _ new this] new show ?thesis by simp
next
  case (Some i)
  then have "n \<in> dom (vfs_view files)" using open_view [OF n, of files] by auto
  with Some run inv show ?thesis by (auto simp: vfs_touch_def)
qed

lemma remove_refines:
  assumes inv: "vfs_inv files" and n: "NUL \<notin> set n" and run: "vfs_remove n files = (r, files')"
  shows "vfs_inv files' \<and> spec_op (Remove n) (vfs_view files) = (r, vfs_view files')"
proof (cases "vfs_open n files")
  case None
  then have "n \<notin> dom (vfs_view files)" using open_view [OF n] by simp
  with None run inv show ?thesis by (auto simp: vfs_remove_def vfs_open_def [symmetric])
next
  case (Some i)
  then have dom: "n \<in> dom (vfs_view files)" using open_view [OF n, of files] by auto
  have i: "i < MAX_FILES" "f_used (files ! i)" "cstr (f_name (files ! i)) = n"
    using open_Some [OF Some] n by (simp_all add: cstr_id)
  let ?f = "(files ! i)\<lparr>f_used := False\<rparr>"
  have res: "r = 0" "files' = files[i := ?f]"
    using Some run by (auto simp: vfs_remove_def vfs_open_def [symmetric])
  have "vfs_inv files'"
    unfolding res using inv i(1) by (intro vfs_inv_upd) (simp_all add: vfs_inv_def)
  moreover have "vfs_view files' = (vfs_view files)(n := None)"
    unfolding res using view_hide [OF inv i(1), of ?f] i by simp
  ultimately show ?thesis using dom res by simp
qed

interpretation fstore: file_store vfs_step vfs_view vfs_inv
proof
  fix s s' :: vfs and p r
  assume inv: "vfs_inv s" and ok: "op_ok p" and run: "vfs_step p s = (r, s')"
  show "vfs_inv s' \<and> spec_op p (vfs_view s) = (r, vfs_view s')"
  proof (cases p)
    case (Write n c)
    with ok have nc: "NUL \<notin> set n" "NUL \<notin> set c" by simp_all
    from Write run have wr: "vfs_write n c s = (r, s')" by (simp add: vfs_step_def)
    show ?thesis
    proof (cases "vfs_open n s")
      case None
      with wr have cr: "vfs_create n c s = (r, s')" by (simp add: vfs_write_def)
      have "n \<notin> dom (vfs_view s)" using None open_view [OF nc(1)] by simp
      from create_refines [OF inv nc this cr] Write show ?thesis by simp
    next
      case (Some i)
      from write_existing_refines [OF inv nc Some wr] Write show ?thesis by simp
    qed
  next
    case (Touch n)
    with ok run touch_refines [OF inv, of n r s'] show ?thesis by (simp add: vfs_step_def)
  next
    case (Remove n)
    with ok run remove_refines [OF inv, of n r s'] show ?thesis by (simp add: vfs_step_def)
  qed
qed

section \<open>From boot on\<close>

text \<open>The array as the compiler declares it, with any bytes in it.\<close>

definition vfs_shape :: "vfs \<Rightarrow> bool" where
  "vfs_shape files \<longleftrightarrow> length files = MAX_FILES \<and>
     list_all (\<lambda>f. length (f_name f) = MAX_FILENAME \<and> length (f_content f) = MAX_FILE_SIZE) files"

definition boot_files :: "(string \<times> string) list" where
  "boot_files =
    [(''readme.txt'', ''Bienvenue sur le RTOS x86 (v1.0) !''),
     (''kernel.info'', ''Architecture : i686 (x86 32-bit)'' @ [newline] @ ''Multitasking : Preemptif + Priorite''),
     (''author.txt'', ''Concu par un Developpeur OS passionne.'')]"

lemma vfs_init_view:
  assumes "vfs_shape files"
  shows "vfs_inv (vfs_init files) \<and> vfs_view (vfs_init files) = map_of boot_files"
proof -
  define f0 where "f0 = map (\<lambda>f. f\<lparr>f_used := False\<rparr>) files"
  obtain r1 f1 where 1: "vfs_create (fst (boot_files ! 0)) (snd (boot_files ! 0)) f0 = (r1, f1)" by fastforce
  obtain r2 f2 where 2: "vfs_create (fst (boot_files ! 1)) (snd (boot_files ! 1)) f1 = (r2, f2)" by fastforce
  obtain r3 f3 where 3: "vfs_create (fst (boot_files ! 2)) (snd (boot_files ! 2)) f2 = (r3, f3)" by fastforce
  have run: "vfs_init files = f3"
    using 1 2 3 by (simp add: vfs_init_def boot_files_def f0_def [symmetric] Let_def)
  have unused: "\<not> f_used (f0 ! i)" if "i < MAX_FILES" for i
    using assms that by (simp add: f0_def vfs_shape_def)
  have none: "in_slots f0 = {}" using unused by blast
  have inv0: "vfs_inv f0"
    unfolding vfs_inv_def none using assms unused by (simp add: vfs_shape_def f0_def list_all_length)
  have v0: "vfs_view f0 = Map.empty" using view_dom [of f0] none by simp
  have s1: "vfs_inv f1 \<and> spec_put (fst (boot_files ! 0)) (snd (boot_files ! 0)) (vfs_view f0) = (r1, vfs_view f1)"
    by (rule create_refines [OF inv0 _ _ _ 1]) (simp_all add: boot_files_def v0)
  then have v1: "vfs_view f1 = [fst (boot_files ! 0) \<mapsto> snd (boot_files ! 0)]"
    by (simp add: v0 spec_put_def boot_files_def)
  have s2: "vfs_inv f2 \<and> spec_put (fst (boot_files ! 1)) (snd (boot_files ! 1)) (vfs_view f1) = (r2, vfs_view f2)"
    by (rule create_refines [OF conjunct1 [OF s1] _ _ _ 2]) (simp_all add: boot_files_def v1)
  then have v2: "vfs_view f2 = (vfs_view f1)(fst (boot_files ! 1) \<mapsto> snd (boot_files ! 1))"
    by (simp add: v1 spec_put_def boot_files_def split: if_splits)
  have s3: "vfs_inv f3 \<and> spec_put (fst (boot_files ! 2)) (snd (boot_files ! 2)) (vfs_view f2) = (r3, vfs_view f3)"
    by (rule create_refines [OF conjunct1 [OF s2] _ _ _ 3]) (simp_all add: boot_files_def v1 v2)
  then have v3: "vfs_view f3 = (vfs_view f2)(fst (boot_files ! 2) \<mapsto> snd (boot_files ! 2))"
    by (simp add: v1 v2 spec_put_def boot_files_def split: if_splits)
  have "vfs_view f3 = map_of boot_files"
    unfolding v3 v2 v1 by (rule ext) (simp add: boot_files_def)
  with s3 run show ?thesis by simp
qed

lemma open_reads:
  "vfs_inv files \<Longrightarrow> NUL \<notin> set n \<Longrightarrow>
    map_option (\<lambda>i. cstr (f_content (files ! i))) (vfs_open n files) = vfs_view files n"
  by (simp add: vfs_open_def vfs_view_def strcmp_0 cstr_id)

text \<open>
  C14. The file system is a bounded dictionary. From \<open>vfs_init\<close>, on whatever bytes the table held, the results of
  any sequence of \<open>vfs_write\<close>, \<open>vfs_touch\<close> and \<open>vfs_remove\<close> are those of a dictionary that starts with the three boot
  files and refuses, with -1, exactly: a name of 32 characters or more, a content of 256 or more, an eleventh name,
  and the removal of an absent one. Afterwards \<open>vfs_open\<close> finds exactly the dictionary's names, each with its
  content, every used slot has the size of its content in \<open>size\<close>, and no two slots share a name.
\<close>

theorem vfs_refines_dictionary:
  assumes "vfs_shape files" and "list_all op_ok ps" and "run_ops vfs_step ps (vfs_init files) = (rs, files')"
  shows "\<exists>m. run_ops spec_op ps (map_of boot_files) = (rs, m) \<and>
      (\<forall>n. NUL \<notin> set n \<longrightarrow> map_option (\<lambda>i. cstr (f_content (files' ! i))) (vfs_open n files') = m n) \<and>
      vfs_inv files'"
proof -
  have "vfs_inv files' \<and> run_ops spec_op ps (map_of boot_files) = (rs, vfs_view files')"
    using fstore.run_refines [OF _ assms(2,3)] vfs_init_view [OF assms(1)] by auto
  then show ?thesis using open_reads by blast
qed

definition blank_file :: vfs_file where
  "blank_file = \<lparr>f_name = replicate MAX_FILENAME CHR ''?'', f_content = replicate MAX_FILE_SIZE CHR ''?'', f_size = 7,
     f_used = True\<rparr>"

theorem vfs_refines_dictionary_witness:
  "\<exists>rs m. run_ops spec_op [Touch ''a'', Write ''a'' ''hello'', Remove ''readme.txt'', Remove ''b''] (map_of boot_files) = (rs, m)
     \<and> rs = [0, 0, 0, -1] \<and> m ''a'' = Some ''hello'' \<and> m ''readme.txt'' = None
     \<and> rs = fst (run_ops vfs_step [Touch ''a'', Write ''a'' ''hello'', Remove ''readme.txt'', Remove ''b'']
         (vfs_init (replicate 10 blank_file)))"
proof -
  let ?ps = "[Touch ''a'', Write ''a'' ''hello'', Remove ''readme.txt'', Remove ''b'']"
  obtain rs files' where run: "run_ops vfs_step ?ps (vfs_init (replicate 10 blank_file)) = (rs, files')" by fastforce
  have "vfs_shape (replicate 10 blank_file)" by (simp add: vfs_shape_def blank_file_def MAX_FILES_def list_all_iff)
  moreover have "list_all op_ok ?ps" by simp
  ultimately obtain m where m: "run_ops spec_op ?ps (map_of boot_files) = (rs, m)"
    using vfs_refines_dictionary [of _ ?ps, OF _ _ run] by blast
  have c1: "card (dom (map_of boot_files)) = 3"
    by (simp add: dom_map_of_conv_image_fst boot_files_def)
  have "rs = [0, 0, 0, -1] \<and> m ''a'' = Some ''hello'' \<and> m ''readme.txt'' = None"
    using m c1 by (auto simp: spec_put_def boot_files_def split: if_splits)
  with m run show ?thesis by simp
qed

end
