(* ===== verification/Kernel_State.thy ===== *)
theory Kernel_State
  imports Interrupts Privilege Queue Heap Process Signal Paging Vfs
begin

text \<open>
  The state of the whole kernel: the variables of \<^verbatim>\<open>kernel.c\<close>, \<^verbatim>\<open>keyboard.c\<close> and \<^verbatim>\<open>shell.c\<close> and one field for each
  subsystem, on top of the \<open>machine\<close> of the interrupt code. The log is the one in \<open>k_sig\<close>.
\<close>

definition MAX_BUFFER :: nat where "MAX_BUFFER = 128"
definition MAX_ARGS :: nat where "MAX_ARGS = 8"
definition ARG_LEN :: nat where "ARG_LEN = 32"
definition HISTORY_SIZE :: nat where "HISTORY_SIZE = 20"

record shell =
  command_history :: "char list list"
  history_count :: nat
  history_index :: int
  saved_buffer :: "char list"
  saved_buf_idx :: nat
  buffer :: "char list"
  buf_idx :: nat
  test_alloc_ptr :: u32

record keyboard =
  ctrl_pressed :: bool
  extended_mode :: bool

record kernel = machine +
  k_term :: terminal
  k_shell :: shell
  k_kbd :: keyboard
  k_heap :: heap
  k_files :: vfs
  k_sig :: sigsys
  k_paging :: paging
  k_segments :: segments
  vga_mutex :: mutex
  msg_queue :: queue
  last_sec :: u32

text \<open>The registers a system call wrapper does not set.\<close>

record rest =
  rest_ebx :: u32
  rest_ecx :: u32
  rest_edx :: u32

text \<open>
  What an operation that runs in the kernel meets: the tasks that run while it waits for a lock (one list for each
  lock), what the interrupt 32 does until the caller runs again, the code segment register and the registers left as
  they are, the bytes of memory, and the addresses the linker chose for stacks and functions.
\<close>

record env =
  e_heap :: "heap interference"
  e_sig :: "sigsys interference"
  e_paging :: "paging interference"
  int_32 :: "kernel \<Rightarrow> kernel option"
  cs_register :: u32
  e_regs :: rest
  mem_byte :: "u32 \<Rightarrow> u8"
  proc_stack_at :: "proc_ptr \<Rightarrow> u32"
  spawned_entry :: u32
  hello_at :: u32

abbreviation k_cur :: "kernel \<Rightarrow> task_ptr" where
  "k_cur s \<equiv> current_task (m_tasking s)"

abbreviation k_ticks :: "kernel \<Rightarrow> u32" where
  "k_ticks s \<equiv> get_ticks (m_timer s)"

abbreviation k_procs :: "kernel \<Rightarrow> proc_table" where
  "k_procs s \<equiv> sig_procs (k_sig s)"

abbreviation k_log :: "kernel \<Rightarrow> logging" where
  "k_log s \<equiv> sig_log (k_sig s)"

definition k_log_msg :: "log_level \<Rightarrow> string \<Rightarrow> kernel \<Rightarrow> kernel" where
  "k_log_msg level msg s = s\<lparr>k_sig := log_at (k_ticks s) level msg (k_sig s)\<rparr>"

definition set_procs :: "proc_table \<Rightarrow> kernel \<Rightarrow> kernel" where
  "set_procs p s = s\<lparr>k_sig := (k_sig s)\<lparr>sig_procs := p\<rparr>\<rparr>"

definition putc :: "char \<Rightarrow> kernel \<Rightarrow> kernel" where
  "putc c s = s\<lparr>k_term := terminal_putchar c (k_term s)\<rparr>"

text \<open>\<open>print_str\<close> of \<^verbatim>\<open>shell.c\<close> and \<^verbatim>\<open>syscall.c\<close>.\<close>

definition print_str :: "char list \<Rightarrow> kernel \<Rightarrow> kernel" where
  "print_str str s = fold putc (cstr str) s"

lemma print_str_term: "print_str str s = s\<lparr>k_term := fold terminal_putchar (cstr str) (k_term s)\<rparr>"
proof -
  have "fold putc cs s = s\<lparr>k_term := fold terminal_putchar cs (k_term s)\<rparr>" for cs
    by (induction cs arbitrary: s) (simp_all add: putc_def)
  then show ?thesis by (simp add: print_str_def)
qed

interpretation kscreen: line_printer putc "\<lambda>s. term_lines (k_term s)" "\<lambda>s. term_inv (k_term s)"
  by unfold_locales (simp add: putc_def putchar_refines)

section \<open>A state for examples\<close>

text \<open>Every subsystem as its initialisation leaves it, an empty command line and a cleared screen.\<close>

definition quiet_kernel :: kernel where
  "quiet_kernel = \<lparr>idt_entries = idt_entries raw_machine, idt_limit = 0, idt_base = 0, idtr = (0, 0),
     interrupt_handlers = (replicate 256 ISR_NONE)[32 := ISR_TIMER, 33 := ISR_KEYBOARD], out_ports = [],
     m_timer = m_timer raw_machine, m_tasking = boot_tasking,
     k_term = terminal_clear blank_screen,
     k_shell = \<lparr>command_history = replicate 20 (replicate 128 NUL), history_count = 0, history_index = -1,
       saved_buffer = replicate 128 NUL, saved_buf_idx = 0, buffer = replicate 128 NUL, buf_idx = 0, test_alloc_ptr = 0\<rparr>,
     k_kbd = \<lparr>ctrl_pressed = False, extended_mode = False\<rparr>,
     k_heap = init_heap raw_heap, k_files = vfs_init (replicate 10 blank_file), k_sig = boot_sigsys, k_paging = boot_paging,
     k_segments = raw_segments, vga_mutex = \<lparr>locked = 0, owner = 0\<rparr>, msg_queue = empty_queue, last_sec = 0\<rparr>"

definition quiet_env :: env where
  "quiet_env = \<lparr>e_heap = [], e_sig = [], e_paging = [], int_32 = Some, cs_register = 0x08,
     e_regs = \<lparr>rest_ebx = 0, rest_ecx = 0, rest_edx = 0\<rparr>, mem_byte = (\<lambda>a. if a = 0x2000 then 0x68
     else if a = 0x2001 then 0x69 else 0), proc_stack_at = (\<lambda>p. of_nat p * 8192), spawned_entry = 0x3000, hello_at = 0x2000\<rparr>"

lemma quiet_screen: "term_inv (k_term quiet_kernel)" "term_lines (k_term quiet_kernel) = [[]]"
  using terminal_clear_text [OF blank_screen_vga] by (simp_all add: quiet_kernel_def)

end
