(* ===== verification/Shell_Input.thy ===== *)
theory Shell_Input
  imports Kernel_State
begin

text \<open>
  The input side of \<^verbatim>\<open>shell.c\<close>: the command line, its history and the split into arguments, and the printing helpers.
  Arguments are the strings in the array the code fills, as many as \<open>argc\<close> counts.
\<close>

section \<open>Model\<close>

text \<open>The string helpers are those of \<^verbatim>\<open>vfs.c\<close> under other names.\<close>

definition sh_strcmp :: "char list \<Rightarrow> char list \<Rightarrow> int" where
  "sh_strcmp a b = strcmp a b"

definition sh_strlen :: "char list \<Rightarrow> nat" where
  "sh_strlen s = strlen s"

definition sh_strcpy :: "char list \<Rightarrow> char list \<Rightarrow> char list" where
  "sh_strcpy dest src = blit dest (cstr src @ [NUL])"

definition print_dec :: "u32 \<Rightarrow> kernel \<Rightarrow> kernel" where
  "print_dec n s =
     (if n = 0 then putc CHR ''0'' s
      else let buf = dec_loop 16 (unat n) in fold (\<lambda>j. putc (buf ! j)) (rev [0..<length buf]) s)"

definition print_hex :: "u32 \<Rightarrow> kernel \<Rightarrow> kernel" where
  "print_hex n s =
     fold (\<lambda>i. putc (''0123456789ABCDEF'' ! unat (drop_bit (i * 4) n AND 0xF))) [7, 6, 5, 4, 3, 2, 1, 0] (print_str ''0x'' s)"

definition print_prompt :: "kernel \<Rightarrow> kernel" where
  "print_prompt s = print_str (newline # ''RTOS> '') s"

text \<open>
  \<open>split_loop k cmd\<close> is the loop of \<open>split_args\<close> with room for \<open>k\<close> more arguments: a word ends at a space or after
  31 characters.
\<close>

fun split_loop :: "nat \<Rightarrow> string \<Rightarrow> string list" where
  "split_loop 0 cmd = []"
| "split_loop (Suc k) cmd =
     (if cmd = [] then []
      else let w = takeWhile (\<lambda>c. c \<noteq> CHR '' '') (take (ARG_LEN - 1) cmd)
        in w # split_loop k (dropWhile (\<lambda>c. c = CHR '' '') (drop (length w) cmd)))"

definition split_args :: "char list \<Rightarrow> string list" where
  "split_args cmd = split_loop MAX_ARGS (dropWhile (\<lambda>c. c = CHR '' '') (cstr cmd))"

definition history_add :: "char list \<Rightarrow> shell \<Rightarrow> shell" where
  "history_add cmd h =
     (if sh_strlen cmd = 0 then h
      else if history_count h > 0 \<and> sh_strcmp (command_history h ! (history_count h - 1)) cmd = 0 then h
      else if history_count h < HISTORY_SIZE then
        h\<lparr>command_history := (command_history h)[history_count h := sh_strcpy (command_history h ! history_count h) cmd],
          history_count := history_count h + 1\<rparr>
      else
        let hist = fold (\<lambda>i hist. hist[i := sh_strcpy (hist ! i) (hist ! (i + 1))]) [0..<HISTORY_SIZE - 1] (command_history h)
        in h\<lparr>command_history := hist[HISTORY_SIZE - 1 := sh_strcpy (hist ! (HISTORY_SIZE - 1)) cmd]\<rparr>)"

definition upd_shell :: "(shell \<Rightarrow> shell) \<Rightarrow> kernel \<Rightarrow> kernel" where
  "upd_shell f s = s\<lparr>k_shell := f (k_shell s)\<rparr>"

definition clear_input_line :: "kernel \<Rightarrow> kernel" where
  "clear_input_line s = upd_shell (\<lambda>h. h\<lparr>buf_idx := 0\<rparr>) (fold putc (replicate (buf_idx (k_shell s)) backspace) s)"

definition display_buffer :: "kernel \<Rightarrow> kernel" where
  "display_buffer s = fold (\<lambda>i. putc (buffer (k_shell s) ! i)) [0..<buf_idx (k_shell s)] s"

text \<open>Copying an entry of the history to the command line.\<close>

definition load_entry :: "kernel \<Rightarrow> kernel" where
  "load_entry s = upd_shell (\<lambda>h. let b = sh_strcpy (buffer h) (command_history h ! nat (history_index h))
     in h\<lparr>buffer := b, buf_idx := sh_strlen b\<rparr>) s"

definition shell_history_up :: "kernel \<Rightarrow> kernel" where
  "shell_history_up s =
     (let h = k_shell s;
          go = (\<lambda>s. display_buffer (load_entry (clear_input_line s)))
      in if history_count h = 0 then s
         else if history_index h = -1 then
           go (upd_shell (\<lambda>h. h\<lparr>saved_buffer := sh_strcpy (saved_buffer h) (buffer h), saved_buf_idx := buf_idx h,
             history_index := int (history_count h) - 1\<rparr>) s)
         else if history_index h > 0 then go (upd_shell (\<lambda>h. h\<lparr>history_index := history_index h - 1\<rparr>) s)
         else s)"

definition shell_history_down :: "kernel \<Rightarrow> kernel" where
  "shell_history_down s =
     (if history_index (k_shell s) = -1 then s
      else
        let s = clear_input_line s;
            s = (if history_index (k_shell s) < int (history_count (k_shell s)) - 1
                 then load_entry (upd_shell (\<lambda>h. h\<lparr>history_index := history_index h + 1\<rparr>) s)
                 else upd_shell (\<lambda>h. h\<lparr>history_index := -1, buffer := sh_strcpy (buffer h) (saved_buffer h),
                   buf_idx := saved_buf_idx h\<rparr>) s)
        in display_buffer s)"

text \<open>The two branches of \<open>shell_handle_key\<close> that edit the line.\<close>

definition erase_key :: "kernel \<Rightarrow> kernel" where
  "erase_key s =
     (if buf_idx (k_shell s) > 0
      then putc backspace (upd_shell (\<lambda>h. h\<lparr>buf_idx := buf_idx h - 1, buffer := (buffer h)[buf_idx h - 1 := NUL]\<rparr>) s) else s)"

definition insert_key :: "char \<Rightarrow> kernel \<Rightarrow> kernel" where
  "insert_key c s =
     (if buf_idx (k_shell s) < MAX_BUFFER - 1
      then putc c (upd_shell (\<lambda>h. h\<lparr>buf_idx := buf_idx h + 1, buffer := (buffer h)[buf_idx h := c, buf_idx h + 1 := NUL]\<rparr>) s) else s)"

definition init_shell :: "kernel \<Rightarrow> kernel" where
  "init_shell s =
     (let s = upd_shell (\<lambda>h. h\<lparr>buf_idx := 0, history_count := 0, history_index := -1, saved_buf_idx := 0,
            saved_buffer := (saved_buffer h)[0 := NUL],
            command_history := map (\<lambda>e. e[0 := NUL]) (command_history h)\<rparr>) s;
          s = print_str (newline # ''--- RTOS Shell v3.1 ---'') s;
          s = print_str (newline # ''Type '' @ [CHR 0x27] @ ''help'' @ [CHR 0x27] @ '' for help'') s
      in print_prompt s)"

section \<open>The line editor it is meant to be\<close>

record editor =
  ed_line :: string
  ed_hist :: "string list"
  ed_pos :: "nat option"
  ed_saved :: string

datatype edit = Insert char | Erase | Up | Down

fun spec_edit :: "edit \<Rightarrow> editor \<Rightarrow> editor" where
  "spec_edit (Insert c) e = (if length (ed_line e) < 127 then e\<lparr>ed_line := ed_line e @ [c]\<rparr> else e)"
| "spec_edit Erase e = e\<lparr>ed_line := butlast (ed_line e)\<rparr>"
| "spec_edit Up e =
     (case ed_pos e of
        None \<Rightarrow> if ed_hist e = [] then e
          else e\<lparr>ed_saved := ed_line e, ed_pos := Some (length (ed_hist e) - 1), ed_line := last (ed_hist e)\<rparr>
      | Some 0 \<Rightarrow> e
      | Some (Suc n) \<Rightarrow> e\<lparr>ed_pos := Some n, ed_line := ed_hist e ! n\<rparr>)"
| "spec_edit Down e =
     (case ed_pos e of
        None \<Rightarrow> e
      | Some n \<Rightarrow> if n + 1 < length (ed_hist e) then e\<lparr>ed_pos := Some (n + 1), ed_line := ed_hist e ! (n + 1)\<rparr>
          else e\<lparr>ed_pos := None, ed_line := ed_saved e\<rparr>)"

fun shell_edit :: "edit \<Rightarrow> kernel \<Rightarrow> kernel" where
  "shell_edit (Insert c) = insert_key c"
| "shell_edit Erase = erase_key"
| "shell_edit Up = shell_history_up"
| "shell_edit Down = shell_history_down"

definition edit_ok :: "edit \<Rightarrow> bool" where
  "edit_ok p \<longleftrightarrow> p \<noteq> Insert NUL"

text \<open>A buffer with the line in its first \<open>n\<close> characters, terminated within its 128.\<close>

definition line_buffer :: "char list \<Rightarrow> nat \<Rightarrow> bool" where
  "line_buffer b n \<longleftrightarrow> length b = 128 \<and> n \<le> 127 \<and> NUL \<in> set b \<and> NUL \<notin> set (take n b) \<and> (n > 0 \<longrightarrow> b ! n = NUL)"

definition shell_inv :: "shell \<Rightarrow> bool" where
  "shell_inv h \<longleftrightarrow> line_buffer (buffer h) (buf_idx h) \<and> line_buffer (saved_buffer h) (saved_buf_idx h) \<and>
     length (command_history h) = 20 \<and> list_all (\<lambda>e. length e = 128 \<and> NUL \<in> set e) (command_history h) \<and>
     history_count h \<le> 20 \<and> (history_index h = -1 \<or> 0 \<le> history_index h \<and> history_index h < int (history_count h))"

definition shell_view :: "shell \<Rightarrow> editor" where
  "shell_view h = \<lparr>ed_line = take (buf_idx h) (buffer h), ed_hist = map cstr (take (history_count h) (command_history h)),
     ed_pos = (if history_index h = -1 then None else Some (nat (history_index h))), ed_saved = take (saved_buf_idx h) (saved_buffer h)\<rparr>"

lemmas shell_consts = MAX_BUFFER_def MAX_ARGS_def ARG_LEN_def HISTORY_SIZE_def

lemma cstr_short: "NUL \<in> set b \<Longrightarrow> length (cstr b) < length b"
  by (induction b) auto

lemma length_strcpy: "length d = 128 \<Longrightarrow> length s = 128 \<Longrightarrow> NUL \<in> set s \<Longrightarrow> length (sh_strcpy d s) = 128"
  unfolding sh_strcpy_def using cstr_short [of s] by (subst length_blit) simp_all

lemma cstr_strcpy [simp]: "cstr (sh_strcpy d s) = cstr s"
  by (simp add: sh_strcpy_def cstr_blit)

lemma NUL_strcpy [simp]: "NUL \<in> set (sh_strcpy d s)"
  by (simp add: sh_strcpy_def blit_def)

text \<open>A copied string is a line of its own length.\<close>

lemma cstr_nth: "NUL \<in> set b \<Longrightarrow> b ! length (cstr b) = NUL"
  by (induction b) auto

lemma take_cstr_length: "take (length (cstr b)) b = cstr b"
  by (induction b) auto

lemma line_buffer_copy:
  assumes "length d = 128" "length s = 128" "NUL \<in> set s"
  shows "line_buffer (sh_strcpy d s) (length (cstr s))" "take (length (cstr s)) (sh_strcpy d s) = cstr s"
proof -
  let ?b = "sh_strcpy d s"
  have l: "length (cstr s) = length (cstr ?b)" by simp
  show t: "take (length (cstr s)) ?b = cstr s" unfolding l take_cstr_length by simp
  show "line_buffer ?b (length (cstr s))"
    using length_strcpy [OF assms] cstr_short [OF assms(3)] assms(2) cstr_nth [of ?b] t by (simp add: line_buffer_def)
qed

text \<open>Copying a line buffer with its length, as the two copies through \<open>saved_buffer\<close> do.\<close>

lemma line_cstr: "line_buffer b n \<Longrightarrow> n > 0 \<Longrightarrow> cstr b = take n b"
proof -
  assume l: "line_buffer b n" and "n > 0"
  then have "n < length b" "b ! n = NUL" "NUL \<notin> set (take n b)" by (auto simp: line_buffer_def)
  then have "b = take n b @ NUL # drop (Suc n) b" by (metis id_take_nth_drop)
  with \<open>NUL \<notin> set (take n b)\<close> show ?thesis using cstr_terminated by metis
qed

lemma line_buffer_save:
  assumes "line_buffer b n" and "length d = 128"
  shows "line_buffer (sh_strcpy d b) n" "take n (sh_strcpy d b) = take n b"
proof -
  have b: "length b = 128" "NUL \<in> set b" "n \<le> 127" using assms(1) by (auto simp: line_buffer_def)
  note c = line_buffer_copy [OF assms(2) b(1,2)]
  show "line_buffer (sh_strcpy d b) n"
  proof (cases "n = 0")
    case True
    with c(1) show ?thesis by (simp add: line_buffer_def)
  next
    case False
    then have "length (cstr b) = n" using line_cstr [OF assms(1)] b by simp
    with c(1) show ?thesis by simp
  qed
  show "take n (sh_strcpy d b) = take n b"
  proof (cases "n = 0")
    case False
    then have "cstr b = take n b" "length (cstr b) = n" using line_cstr [OF assms(1)] b by simp_all
    with c(2) show ?thesis by simp
  qed simp
qed

section \<open>The command line implements it\<close>

lemma k_shell_putc [simp]: "k_shell (putc c s) = k_shell s"
  by (simp add: putc_def)

lemma k_shell_fold_putc [simp]: "k_shell (fold (\<lambda>i. putc (f i)) is s) = k_shell s"
  by (induction "is" arbitrary: s) simp_all

lemma k_shell_print [simp]: "k_shell (fold putc str s) = k_shell s"
  by (induction str arbitrary: s) simp_all

lemma k_shell_simps [simp]:
  "k_shell (upd_shell f s) = f (k_shell s)" "k_shell (clear_input_line s) = (k_shell s)\<lparr>buf_idx := 0\<rparr>"
  "k_shell (display_buffer s) = k_shell s"
  by (simp_all add: upd_shell_def clear_input_line_def display_buffer_def del: fold_replicate)

lemma insert_refines:
  assumes "shell_inv (k_shell s)" and "c \<noteq> NUL"
  shows "shell_inv (k_shell (insert_key c s)) \<and>
    shell_view (k_shell (insert_key c s)) = spec_edit (Insert c) (shell_view (k_shell s))"
proof -
  let ?h = "k_shell s"
  let ?n = "buf_idx ?h" and ?b = "buffer ?h"
  have b: "length ?b = 128" "?n \<le> 127" "NUL \<notin> set (take ?n ?b)" using assms(1) by (auto simp: shell_inv_def line_buffer_def)
  show ?thesis
  proof (cases "?n < 127")
    case False
    with b assms(1) show ?thesis by (simp add: insert_key_def shell_consts shell_view_def)
  next
    case True
    let ?b' = "?b[?n := c, ?n + 1 := NUL]"
    have t: "take (?n + 1) ?b' = take ?n ?b @ [c]" using True b(1) by (simp add: take_Suc_conv_app_nth)
    have at: "?b' ! (?n + 1) = NUL" using True b(1) by simp
    have "NUL \<in> set ?b'" using True b(1) by (intro set_update_memI) simp
    then have "line_buffer ?b' (?n + 1)" unfolding line_buffer_def using t at True b assms(2) by simp
    then show ?thesis
      using True t b assms(1) by (simp add: insert_key_def shell_consts shell_view_def shell_inv_def)
  qed
qed

lemma erase_refines:
  assumes "shell_inv (k_shell s)"
  shows "shell_inv (k_shell (erase_key s)) \<and> shell_view (k_shell (erase_key s)) = spec_edit Erase (shell_view (k_shell s))"
proof -
  let ?h = "k_shell s"
  let ?n = "buf_idx ?h" and ?b = "buffer ?h"
  have b: "length ?b = 128" "?n \<le> 127" "NUL \<notin> set (take ?n ?b)" using assms(1) by (auto simp: shell_inv_def line_buffer_def)
  show ?thesis
  proof (cases "?n = 0")
    case True
    with assms show ?thesis by (simp add: erase_key_def shell_view_def)
  next
    case False
    let ?b' = "?b[?n - 1 := NUL]"
    have t: "take (?n - 1) ?b' = take (?n - 1) ?b" "butlast (take ?n ?b) = take (?n - 1) ?b"
      using False b by (simp_all add: butlast_take)
    have "NUL \<in> set ?b'" using b False by (simp add: set_update_memI)
    moreover have "NUL \<notin> set (take (?n - 1) ?b)" using b(3) by (meson in_set_takeD set_take_subset_set_take diff_le_self subsetD)
    ultimately have "line_buffer ?b' (?n - 1)" using b False t by (simp add: line_buffer_def)
    then show ?thesis
      using False t assms by (simp add: erase_key_def shell_view_def shell_inv_def)
  qed
qed

lemma load_refines:
  assumes "length (buffer h) = 128" "length (command_history h) = 20" "list_all (\<lambda>e. length e = 128 \<and> NUL \<in> set e) (command_history h)"
    and "0 \<le> history_index h" "history_index h < int (history_count h)" "history_count h \<le> 20" "k_shell s = h"
  shows "\<exists>b n. k_shell (load_entry s) = h\<lparr>buffer := b, buf_idx := n\<rparr> \<and> line_buffer b n \<and>
    take n b = ed_hist (shell_view h) ! nat (history_index h)"
proof -
  let ?e = "command_history h ! nat (history_index h)"
  have i: "nat (history_index h) < 20" "nat (history_index h) < history_count h" using assms(4-6) by auto
  then have e: "length ?e = 128" "NUL \<in> set ?e" using assms(2,3) by (simp_all add: list_all_length)
  have "k_shell (load_entry s) = h\<lparr>buffer := sh_strcpy (buffer h) ?e, buf_idx := length (cstr ?e)\<rparr>"
    using assms(7) by (simp add: load_entry_def Let_def sh_strlen_def strlen_cstr)
  moreover have "ed_hist (shell_view h) ! nat (history_index h) = cstr ?e"
    using i assms(2) by (simp add: shell_view_def)
  ultimately show ?thesis using line_buffer_copy [OF assms(1) e] by metis
qed

lemma shell_invD:
  assumes "shell_inv h"
  shows "length (buffer h) = 128" "length (saved_buffer h) = 128" "line_buffer (buffer h) (buf_idx h)"
    "line_buffer (saved_buffer h) (saved_buf_idx h)" "length (command_history h) = 20" "history_count h \<le> 20"
    "list_all (\<lambda>e. length e = 128 \<and> NUL \<in> set e) (command_history h)"
    "history_index h \<noteq> -1 \<Longrightarrow> 0 \<le> history_index h \<and> history_index h < int (history_count h)"
  using assms by (auto simp: shell_inv_def line_buffer_def)

text \<open>Going to an entry, whatever was saved before.\<close>

lemma go_refines:
  assumes inv: "shell_inv h" and i: "0 \<le> i" "i < int (history_count h)"
    and sv: "line_buffer sb sn" and s: "k_shell s = h\<lparr>saved_buffer := sb, saved_buf_idx := sn, history_index := i, buf_idx := m\<rparr>"
  shows "shell_inv (k_shell (display_buffer (load_entry (clear_input_line s)))) \<and>
    shell_view (k_shell (display_buffer (load_entry (clear_input_line s)))) =
      (shell_view h)\<lparr>ed_saved := take sn sb, ed_pos := Some (nat i), ed_line := ed_hist (shell_view h) ! nat i\<rparr>"
proof -
  note d = shell_invD [OF inv]
  let ?h = "h\<lparr>saved_buffer := sb, saved_buf_idx := sn, history_index := i, buf_idx := 0\<rparr>"
  have h: "k_shell (clear_input_line s) = ?h" using s by simp
  obtain b n where bn: "k_shell (load_entry (clear_input_line s)) = ?h\<lparr>buffer := b, buf_idx := n\<rparr>" "line_buffer b n"
      "take n b = ed_hist (shell_view h) ! nat i"
    using load_refines [of ?h, OF _ _ _ _ _ _ h] d(1,5,6,7) i by (auto simp: shell_view_def)
  then show ?thesis using inv i sv by (simp add: shell_inv_def shell_view_def)
qed

lemma up_refines:
  assumes inv: "shell_inv (k_shell s)"
  shows "shell_inv (k_shell (shell_history_up s)) \<and>
    shell_view (k_shell (shell_history_up s)) = spec_edit Up (shell_view (k_shell s))"
proof -
  let ?h = "k_shell s"
  note d = shell_invD [OF inv]
  consider "history_count ?h = 0" | "history_count ?h > 0" "history_index ?h = -1" | "history_index ?h = 0" "history_count ?h > 0"
    | "history_index ?h > 0" "history_count ?h > 0"
    using d(8) by fastforce
  then show ?thesis
  proof cases
    case 1
    then have "history_index ?h = -1" using d(8) by force
    with 1 inv show ?thesis by (simp add: shell_history_up_def shell_view_def)
  next
    case 2
    define s1 where "s1 = upd_shell (\<lambda>h. h\<lparr>saved_buffer := sh_strcpy (saved_buffer h) (buffer h), saved_buf_idx := buf_idx h,
      history_index := int (history_count h) - 1\<rparr>) s"
    have run: "shell_history_up s = display_buffer (load_entry (clear_input_line s1))"
      using 2 by (simp add: shell_history_up_def s1_def Let_def)
    have "k_shell s1 = ?h\<lparr>saved_buffer := sh_strcpy (saved_buffer ?h) (buffer ?h), saved_buf_idx := buf_idx ?h,
      history_index := int (history_count ?h) - 1, buf_idx := buf_idx ?h\<rparr>" by (simp add: s1_def)
    note g = go_refines [OF inv _ _ line_buffer_save(1) [OF d(3,2)] this]
    have "last (ed_hist (shell_view ?h)) = ed_hist (shell_view ?h) ! (history_count ?h - 1)"
      using 2 d(5,6) by (subst last_conv_nth) (auto simp: shell_view_def)
    moreover have "length (ed_hist (shell_view ?h)) = history_count ?h" using d(5,6) by (simp add: shell_view_def)
    ultimately show ?thesis
      unfolding run using g 2 line_buffer_save(2) [OF d(3,2)] by (auto simp: shell_view_def nat_diff_distrib)
  next
    case 3
    with inv show ?thesis by (simp add: shell_history_up_def shell_view_def)
  next
    case 4
    define s1 where "s1 = upd_shell (\<lambda>h. h\<lparr>history_index := history_index h - 1\<rparr>) s"
    have run: "shell_history_up s = display_buffer (load_entry (clear_input_line s1))"
      using 4 by (simp add: shell_history_up_def s1_def Let_def)
    have "k_shell s1 = ?h\<lparr>saved_buffer := saved_buffer ?h, saved_buf_idx := saved_buf_idx ?h,
      history_index := history_index ?h - 1, buf_idx := buf_idx ?h\<rparr>" by (simp add: s1_def)
    note g = go_refines [OF inv _ _ d(4) this]
    obtain n where "nat (history_index ?h) = Suc n" "nat (history_index ?h - 1) = n"
      using 4 by (cases "nat (history_index ?h)") auto
    then show ?thesis
      unfolding run using g 4 d(8) by (simp add: shell_view_def)
  qed
qed

lemma down_refines:
  assumes inv: "shell_inv (k_shell s)"
  shows "shell_inv (k_shell (shell_history_down s)) \<and>
    shell_view (k_shell (shell_history_down s)) = spec_edit Down (shell_view (k_shell s))"
proof -
  let ?h = "k_shell s"
  note d = shell_invD [OF inv]
  have len: "length (ed_hist (shell_view ?h)) = history_count ?h" using d(5,6) by (simp add: shell_view_def)
  consider "history_index ?h = -1" | "history_index ?h \<ge> 0" "history_index ?h < int (history_count ?h) - 1"
    | "history_index ?h \<ge> 0" "history_index ?h = int (history_count ?h) - 1"
    using d(8) by fastforce
  then show ?thesis
  proof cases
    case 1
    with inv show ?thesis by (simp add: shell_history_down_def shell_view_def)
  next
    case 2
    define s1 where "s1 = upd_shell (\<lambda>h. h\<lparr>history_index := history_index h + 1\<rparr>) s"
    have sh: "k_shell (load_entry (upd_shell (\<lambda>h. h\<lparr>history_index := history_index h + 1\<rparr>) (clear_input_line s))) =
        k_shell (load_entry (clear_input_line s1))"
      by (simp add: s1_def load_entry_def)
    have "k_shell (shell_history_down s) = k_shell (display_buffer (load_entry (clear_input_line s1)))"
      using 2 sh by (simp add: shell_history_down_def Let_def)
    moreover have "k_shell s1 = ?h\<lparr>saved_buffer := saved_buffer ?h, saved_buf_idx := saved_buf_idx ?h,
      history_index := history_index ?h + 1, buf_idx := buf_idx ?h\<rparr>" by (simp add: s1_def)
    note g = go_refines [OF inv _ _ d(4) this]
    moreover have "nat (history_index ?h + 1) = nat (history_index ?h) + 1" using 2 by simp
    ultimately show ?thesis using 2 len by (auto simp: shell_view_def)
  next
    case 3
    then have "k_shell (shell_history_down s) = ?h\<lparr>history_index := -1,
        buffer := sh_strcpy (buffer ?h) (saved_buffer ?h), buf_idx := saved_buf_idx ?h\<rparr>"
      by (simp add: shell_history_down_def Let_def)
    with 3 inv line_buffer_save [OF d(4,1)] len show ?thesis
      by (auto simp: shell_inv_def shell_view_def)
  qed
qed

interpretation ed: simulation shell_edit spec_edit "\<lambda>s. shell_view (k_shell s)" "\<lambda>s. shell_inv (k_shell s)" edit_ok
proof
  fix p and s :: kernel
  assume "shell_inv (k_shell s)" "edit_ok p"
  then show "shell_inv (k_shell (shell_edit p s)) \<and> shell_view (k_shell (shell_edit p s)) = spec_edit p (shell_view (k_shell s))"
    using insert_refines erase_refines up_refines down_refines by (cases p) (simp_all add: edit_ok_def)
qed

section \<open>The history\<close>

definition spec_history_add :: "string \<Rightarrow> string list \<Rightarrow> string list" where
  "spec_history_add cmd hist =
     (if cmd = [] \<or> hist \<noteq> [] \<and> last hist = cmd then hist else last_n 20 (hist @ [cmd]))"

lemma shift_history_nth:
  "n < length hist \<Longrightarrow> k < length hist \<Longrightarrow>
    length (fold (\<lambda>i hist. hist[i := sh_strcpy (hist ! i) (hist ! (i + 1))]) [0..<n] hist) = length hist \<and>
    fold (\<lambda>i hist. hist[i := sh_strcpy (hist ! i) (hist ! (i + 1))]) [0..<n] hist ! k =
      (if k < n then sh_strcpy (hist ! k) (hist ! (k + 1)) else hist ! k)"
proof (induction n arbitrary: k)
  case 0
  then show ?case by simp
next
  case (Suc n)
  then have "n < length hist" by simp
  note IH = Suc.IH [OF this]
  show ?case using IH [of n] IH [of "Suc n"] IH [OF Suc.prems(2)] Suc.prems by (auto simp: nth_list_update)
qed

text \<open>The two ways a line enters the history: behind the last entry, or after all entries have moved up by one.\<close>

lemma history_appended:
  fixes h :: shell and cmd :: string
  assumes inv: "shell_inv h" and cmd: "length cmd = 128" "NUL \<in> set cmd" and n: "history_count h < 20"
  defines "h' \<equiv> h\<lparr>command_history := (command_history h)[history_count h := sh_strcpy (command_history h ! history_count h) cmd],
    history_count := history_count h + 1\<rparr>"
  shows "shell_inv (h'\<lparr>history_index := -1\<rparr>)" "ed_hist (shell_view h') = ed_hist (shell_view h) @ [cstr cmd]"
proof -
  note d = shell_invD [OF inv]
  have "list_all (\<lambda>e. length e = 128 \<and> NUL \<in> set e) (command_history h')"
    using n d(5,7) length_strcpy cmd by (auto simp: h'_def list_all_length nth_list_update)
  then show "shell_inv (h'\<lparr>history_index := -1\<rparr>)" using inv n by (simp add: h'_def shell_inv_def)
  show "ed_hist (shell_view h') = ed_hist (shell_view h) @ [cstr cmd]"
    using n d(5) by (simp add: h'_def shell_view_def take_Suc_conv_app_nth)
qed

lemma history_shifted:
  fixes h :: shell and cmd :: string
  assumes inv: "shell_inv h" and cmd: "length cmd = 128" "NUL \<in> set cmd" and n: "history_count h = 20"
  defines "S \<equiv> fold (\<lambda>i hist. hist[i := sh_strcpy (hist ! i) (hist ! (i + 1))]) [0..<19] (command_history h)"
  defines "h' \<equiv> h\<lparr>command_history := S[19 := sh_strcpy (S ! 19) cmd]\<rparr>"
  shows "shell_inv (h'\<lparr>history_index := -1\<rparr>)" "ed_hist (shell_view h') = tl (ed_hist (shell_view h)) @ [cstr cmd]"
proof -
  note d = shell_invD [OF inv]
  let ?H = "command_history h"
  have S: "length S = 20" "\<And>k. k < 20 \<Longrightarrow> S ! k = (if k < 19 then sh_strcpy (?H ! k) (?H ! (k + 1)) else ?H ! k)"
    unfolding S_def using shift_history_nth [of 19 ?H 0] shift_history_nth [of 19 ?H] d(5) by simp_all
  have "length (?H ! k) = 128 \<and> NUL \<in> set (?H ! k)" if "k < 20" for k using d(5,7) that by (simp add: list_all_length)
  then have "length (command_history h' ! k) = 128 \<and> NUL \<in> set (command_history h' ! k)" if "k < 20" for k
    using that S length_strcpy cmd by (auto simp: h'_def nth_list_update)
  then show "shell_inv (h'\<lparr>history_index := -1\<rparr>)" using inv S(1) by (simp add: h'_def shell_inv_def list_all_length)
  show "ed_hist (shell_view h') = tl (ed_hist (shell_view h)) @ [cstr cmd]"
  proof (rule nth_equalityI)
    show "length (ed_hist (shell_view h')) = length (tl (ed_hist (shell_view h)) @ [cstr cmd])"
      using n S(1) d(5) by (simp add: h'_def shell_view_def)
    fix k assume "k < length (ed_hist (shell_view h'))"
    then have "k < 19 \<or> k = 19" using n S(1) by (auto simp: h'_def shell_view_def)
    then show "ed_hist (shell_view h') ! k = (tl (ed_hist (shell_view h)) @ [cstr cmd]) ! k"
      using S n d(5) by (elim disjE) (simp_all add: h'_def shell_view_def nth_append nth_tl)
  qed
qed

lemma history_add_refines:
  assumes inv: "shell_inv h" and cmd: "length cmd = 128" "NUL \<in> set cmd"
  shows "shell_inv ((history_add cmd h)\<lparr>history_index := -1\<rparr>) \<and>
    ed_hist (shell_view (history_add cmd h)) = spec_history_add (cstr cmd) (ed_hist (shell_view h))"
proof -
  note d = shell_invD [OF inv]
  let ?n = "history_count h" and ?H = "command_history h" and ?hist = "ed_hist (shell_view h)"
  have hist: "?hist = map cstr (take ?n ?H)" "length ?hist = ?n" using d(5,6) by (simp_all add: shell_view_def)
  have lastc: "last ?hist = cstr (?H ! (?n - 1))" if "?n > 0"
    using that hist d(5,6) by (subst last_conv_nth) auto
  show ?thesis
  proof (cases "cstr cmd = [] \<or> ?n > 0 \<and> cstr (?H ! (?n - 1)) = cstr cmd")
    case True
    then have "history_add cmd h = h" by (auto simp: history_add_def sh_strlen_def sh_strcmp_def strlen_cstr strcmp_0)
    moreover have "shell_inv (h\<lparr>history_index := -1\<rparr>)" using inv by (simp add: shell_inv_def)
    ultimately show ?thesis using True lastc hist by (auto simp: spec_history_add_def)
  next
    case False
    moreover have "?n > 0 \<longleftrightarrow> ?hist \<noteq> []" using hist(2) by (metis length_greater_0_conv)
    ultimately have spec: "spec_history_add (cstr cmd) ?hist = last_n 20 (?hist @ [cstr cmd])"
      using lastc by (auto simp: spec_history_add_def)
    note add = history_add_def sh_strlen_def sh_strcmp_def strlen_cstr strcmp_0 HISTORY_SIZE_def Let_def
    show ?thesis
    proof (cases "?n < 20")
      case True
      with False history_appended [OF assms True] spec hist(2) show ?thesis by (auto simp: add last_n_def)
    next
      case full: False
      with d(6) have n: "?n = 20" by simp
      then have "last_n 20 (?hist @ [cstr cmd]) = tl ?hist @ [cstr cmd]"
        using hist(2) by (cases ?hist) (simp_all add: last_n_def)
      with False n history_shifted [OF assms n] spec show ?thesis by (auto simp: add)
    qed
  qed
qed

section \<open>Arguments and numbers\<close>

fun join_words :: "string list \<Rightarrow> string" where
  "join_words [] = []"
| "join_words [w] = w"
| "join_words (w # ws) = w @ CHR '' '' # join_words ws"

definition plain_word :: "string \<Rightarrow> bool" where
  "plain_word w \<longleftrightarrow> w \<noteq> [] \<and> length w < ARG_LEN \<and> NUL \<notin> set w \<and> CHR '' '' \<notin> set w"

lemma split_word:
  assumes "plain_word w" and "rest = [] \<or> hd rest = CHR '' ''"
  shows "takeWhile (\<lambda>c. c \<noteq> CHR '' '') (take (ARG_LEN - 1) (w @ rest)) = w"
proof -
  have w: "length w \<le> 31" "\<And>c. c \<in> set w \<Longrightarrow> c \<noteq> CHR '' ''" using assms(1) by (auto simp: plain_word_def ARG_LEN_def)
  then have "take (ARG_LEN - 1) (w @ rest) = w @ take (31 - length w) rest" by (simp add: ARG_LEN_def)
  moreover have "takeWhile (\<lambda>c. c \<noteq> CHR '' '') (take (31 - length w) rest) = []"
    using assms(2) by (cases rest; cases "31 - length w") auto
  ultimately show ?thesis using w(2) by (simp add: takeWhile_append)
qed

lemma join_words_no_space:
  "list_all plain_word ws \<Longrightarrow> dropWhile (\<lambda>c. c = CHR '' '') (join_words ws) = join_words ws"
proof (cases ws)
  case (Cons w ws')
  moreover assume "list_all plain_word ws"
  ultimately obtain c w' where "w = c # w'" "c \<noteq> CHR '' ''" by (cases w) (auto simp: plain_word_def)
  with Cons show ?thesis by (cases ws') auto
qed simp

lemma split_loop_Nil [simp]: "split_loop k [] = []"
  by (cases k) simp_all

lemma split_join: "list_all plain_word ws \<Longrightarrow> length ws \<le> k \<Longrightarrow> split_loop k (join_words ws) = ws"
proof (induction ws arbitrary: k rule: join_words.induct)
  case 1
  then show ?case by simp
next
  case (2 w)
  then show ?case using split_word [of w "[]"] by (cases k) (auto simp: plain_word_def Let_def)
next
  case (3 w v ws)
  then obtain k' where k: "k = Suc k'" by (cases k) auto
  have "split_loop k' (join_words (v # ws)) = v # ws" using 3 k by simp
  moreover have "dropWhile (\<lambda>c. c = CHR '' '') (CHR '' '' # join_words (v # ws)) = join_words (v # ws)"
    using 3(2) join_words_no_space [of "v # ws"] by simp
  ultimately show ?case
    using 3(2) split_word [of w "CHR '' '' # join_words (v # ws)"] by (simp add: k Let_def plain_word_def)
qed

lemma join_words_no_NUL: "list_all plain_word ws \<Longrightarrow> NUL \<notin> set (join_words ws)"
  by (induction ws rule: join_words.induct) (auto simp: plain_word_def)

lemma print_dec_text: "print_dec n s = fold putc (dec_string (unat n)) s"
proof (cases "n = 0")
  case True
  then show ?thesis by (simp add: print_dec_def dec_string.simps digit_char_0)
next
  case False
  let ?b = "dec_loop 16 (unat n)"
  have "unat n < 10 ^ 16" using unat_u32 [of n] by simp
  then have "rev ?b = dec_string (unat n)" using False by (intro dec_loop_rev) (simp_all add: unat_gt_0)
  moreover have "map (\<lambda>j. ?b ! j) (rev [0..<length ?b]) = rev ?b" by (metis map_nth rev_map)
  moreover have "fold (\<lambda>j. putc (?b ! j)) (rev [0..<length ?b]) s = fold putc (map (\<lambda>j. ?b ! j) (rev [0..<length ?b])) s"
    by (simp add: fold_map comp_def)
  ultimately show ?thesis using False by (simp add: print_dec_def Let_def)
qed

lemma print_hex_text: "print_hex n s = fold putc (hex_text n) s"
proof -
  have v: "unat (drop_bit (i * 4) n AND 0xF) = unat n div 16 ^ i mod 16" for i
  proof -
    have "drop_bit (i * 4) n AND 0xF = take_bit 4 (drop_bit (i * 4) n)" unfolding byte_masks by (simp only: take_bit_eq_mask)
    then have "unat (drop_bit (i * 4) n AND 0xF) = take_bit 4 (drop_bit (i * 4) (unat n))"
      by (simp only: unsigned_take_bit_eq unat_drop_bit_eq)
    then show ?thesis by (simp add: take_bit_eq_mod drop_bit_eq_div power_mult mult.commute [of i])
  qed
  show ?thesis unfolding print_hex_def v hex_text_def by (simp add: print_str_def)
qed

section \<open>Properties\<close>

text \<open>
  The command line is the editor it should be: whatever sequence of characters, backspaces and history keys is
  typed from a consistent shell, the line, the history, the position in it and the saved line change as the editor's
  do (a line holds 127 characters; Up saves the line being typed and walks back, Down walks forward and brings the
  saved line back), and the buffers stay terminated within their 128 bytes.
\<close>

theorem line_editing:
  assumes "shell_inv (k_shell s)" and "list_all edit_ok ps"
  shows "shell_view (k_shell (fold shell_edit ps s)) = fold spec_edit ps (shell_view (k_shell s)) \<and>
    shell_inv (k_shell (fold shell_edit ps s))"
  using ed.run_simulates [OF assms] by blast

lemma quiet_shell: "shell_inv (k_shell quiet_kernel)"
  by (simp add: quiet_kernel_def shell_inv_def line_buffer_def list_all_length)

theorem line_editing_witness:
  "ed_line (shell_view (k_shell (fold shell_edit [Insert CHR ''l'', Insert CHR ''x'', Erase, Insert CHR ''s'', Up, Down] quiet_kernel))) = ''ls''"
proof -
  let ?ps = "[Insert CHR ''l'', Insert CHR ''x'', Erase, Insert CHR ''s'', Up, Down]"
  have "list_all edit_ok ?ps" by (simp add: edit_ok_def)
  note line_editing [OF quiet_shell this]
  moreover have "shell_view (k_shell quiet_kernel) = \<lparr>ed_line = [], ed_hist = [], ed_pos = None, ed_saved = []\<rparr>"
    by (simp add: shell_view_def quiet_kernel_def)
  ultimately show ?thesis by simp
qed

text \<open>
  Splitting undoes joining: a line made of up to eight words of up to 31 characters, separated by single spaces,
  is split into exactly these words, whatever follows the terminator in the buffer.
\<close>

theorem split_args_join:
  assumes "list_all plain_word ws" and "length ws \<le> 8"
  shows "split_args (join_words ws @ NUL # junk) = ws"
  using assms split_join [of ws 8]
  by (simp add: split_args_def MAX_ARGS_def cstr_terminated join_words_no_NUL join_words_no_space)

theorem split_args_join_witness: "split_args (''calc 6 * 7'' @ NUL # ''old'') = [''calc'', ''6'', ''*'', ''7'']"
proof -
  have "list_all plain_word [''calc'', ''6'', ''*'', ''7'']" by (simp add: plain_word_def ARG_LEN_def)
  from split_args_join [OF this, of "''old''"] show ?thesis by simp
qed

end
