(* ===== verification/Syscall.thy ===== *)
theory Syscall
  imports Kernel_State
begin

text \<open>
  \<^verbatim>\<open>syscall.c\<close>: the dispatch of system calls and the wrappers user code calls. A number the dispatch does not know
  is logged and answered with -1. \<open>SYS_WRITE\<close> reads the string at the address it is given, byte by byte: without a
  NUL in memory it would not end.
\<close>

section \<open>Model\<close>

definition SYS_WRITE :: u32 where "SYS_WRITE = 1"
definition SYS_GETTICKS :: u32 where "SYS_GETTICKS = 2"
definition SYS_MALLOC :: u32 where "SYS_MALLOC = 3"
definition SYS_FREE :: u32 where "SYS_FREE = 4"
definition SYS_KILL :: u32 where "SYS_KILL = 5"
definition SYS_PAUSE :: u32 where "SYS_PAUSE = 6"
definition SYS_GETPID :: u32 where "SYS_GETPID = 10"
definition SYS_GETPPID :: u32 where "SYS_GETPPID = 11"
definition SYS_EXIT :: u32 where "SYS_EXIT = 12"
definition SYS_GETRING :: u32 where "SYS_GETRING = 14"
definition SYS_SIGNAL :: u32 where "SYS_SIGNAL = 15"
definition SYS_SIGBLOCK :: u32 where "SYS_SIGBLOCK = 16"

lemmas sys_numbers = SYS_WRITE_def SYS_GETTICKS_def SYS_MALLOC_def SYS_FREE_def SYS_KILL_def SYS_PAUSE_def
  SYS_GETPID_def SYS_GETPPID_def SYS_EXIT_def SYS_GETRING_def SYS_SIGNAL_def SYS_SIGBLOCK_def

partial_function (option) print_from :: "(u32 \<Rightarrow> u8) \<Rightarrow> u32 \<Rightarrow> kernel \<Rightarrow> kernel option" where
  "print_from mem a s = (if mem a \<noteq> 0 then print_from mem (a + 1) (putc (char_of (unat (mem a))) s) else Some s)"

declare print_from.simps [code]

definition syscall_handler :: "env \<Rightarrow> u32 \<Rightarrow> u32 \<Rightarrow> u32 \<Rightarrow> u32 \<Rightarrow> kernel \<Rightarrow> (u32 \<times> kernel) option" where
  "syscall_handler env sys_num arg1 arg2 arg3 s =
     (if sys_num = SYS_WRITE then do { s \<leftarrow> print_from (mem_byte env) arg1 s; Some (0, s) }
      else if sys_num = SYS_GETTICKS then Some (get_ticks (m_timer s), s)
      else if sys_num = SYS_MALLOC then do {
        (p, h) \<leftarrow> kmalloc (k_cur s) (e_heap env) arg1 (k_heap s);
        Some (p, s\<lparr>k_heap := h\<rparr>)
      }
      else if sys_num = SYS_FREE then do {
        h \<leftarrow> kfree (k_cur s) (e_heap env) arg1 (k_heap s);
        Some (0, s\<lparr>k_heap := h\<rparr>)
      }
      else if sys_num = SYS_KILL then do {
        (err, g) \<leftarrow> kill (k_cur s) (e_sig env) (k_ticks s) arg1 (sint arg2) (k_sig s);
        Some (error_code err, s\<lparr>k_sig := g\<rparr>)
      }
      else if sys_num = SYS_PAUSE then do {
        s \<leftarrow> int_32 env (set_procs (process_sleep (k_ticks s) 1 (k_procs s)) s);
        Some (0, s)
      }
      else if sys_num = SYS_GETPID then
        (let current = process_current (k_procs s)
         in Some (if current \<noteq> 0 then p_pid (procs (k_procs s) current) else 0, s))
      else if sys_num = SYS_GETPPID then
        (let current = process_current (k_procs s)
         in Some (if current \<noteq> 0 then p_ppid (procs (k_procs s) current) else 0, s))
      else if sys_num = SYS_EXIT then
        (let current = process_current (k_procs s)
         in Some (0, if current \<noteq> 0 then set_procs (process_exit (p_pid (procs (k_procs s) current)) (k_procs s)) s else s))
      else if sys_num = SYS_GETRING then Some (get_current_ring (cs_register env), s)
      else if sys_num = SYS_SIGNAL then do {
        (old, g) \<leftarrow> signal (k_cur s) (e_sig env) (sint arg1) arg2 (k_sig s);
        Some (old, s\<lparr>k_sig := g\<rparr>)
      }
      else if sys_num = SYS_SIGBLOCK then do {
        (err, g) \<leftarrow> sigblock (k_cur s) (e_sig env) arg1 (k_sig s);
        Some (error_code err, s\<lparr>k_sig := g\<rparr>)
      }
      else Some (- 1, k_log_msg LOG_WARN ''Syscall inconnu'' s))"

text \<open>
  The stub \<open>isr128\<close> passes eax, ebx, ecx and edx; \<open>rest\<close> are the registers a wrapper does not set. A wrapper without
  a result drops what comes back in eax.
\<close>

definition int_0x80 :: "env \<Rightarrow> u32 \<Rightarrow> u32 \<Rightarrow> u32 \<Rightarrow> u32 \<Rightarrow> kernel \<Rightarrow> (u32 \<times> kernel) option" where
  "int_0x80 env eax ebx ecx edx s = syscall_handler env eax ebx ecx edx s"

definition sys_print :: "env \<Rightarrow> rest \<Rightarrow> u32 \<Rightarrow> kernel \<Rightarrow> kernel option" where
  "sys_print env r str s = do { (ret, s) \<leftarrow> int_0x80 env SYS_WRITE str (rest_ecx r) (rest_edx r) s; Some s }"

definition sys_ticks :: "env \<Rightarrow> rest \<Rightarrow> kernel \<Rightarrow> (u32 \<times> kernel) option" where
  "sys_ticks env r s = int_0x80 env SYS_GETTICKS (rest_ebx r) (rest_ecx r) (rest_edx r) s"

definition sys_kmalloc :: "env \<Rightarrow> rest \<Rightarrow> u32 \<Rightarrow> kernel \<Rightarrow> (u32 \<times> kernel) option" where
  "sys_kmalloc env r sz s = int_0x80 env SYS_MALLOC sz (rest_ecx r) (rest_edx r) s"

definition sys_kfree :: "env \<Rightarrow> rest \<Rightarrow> u32 \<Rightarrow> kernel \<Rightarrow> kernel option" where
  "sys_kfree env r ptr s = do { (ret, s) \<leftarrow> int_0x80 env SYS_FREE ptr (rest_ecx r) (rest_edx r) s; Some s }"

definition sys_kill :: "env \<Rightarrow> rest \<Rightarrow> u32 \<Rightarrow> u32 \<Rightarrow> kernel \<Rightarrow> (u32 \<times> kernel) option" where
  "sys_kill env r pid signum s = int_0x80 env SYS_KILL pid signum (rest_edx r) s"

definition sys_pause :: "env \<Rightarrow> rest \<Rightarrow> kernel \<Rightarrow> (u32 \<times> kernel) option" where
  "sys_pause env r s = int_0x80 env SYS_PAUSE (rest_ebx r) (rest_ecx r) (rest_edx r) s"

definition sys_getpid :: "env \<Rightarrow> rest \<Rightarrow> kernel \<Rightarrow> (u32 \<times> kernel) option" where
  "sys_getpid env r s = int_0x80 env SYS_GETPID (rest_ebx r) (rest_ecx r) (rest_edx r) s"

definition sys_getppid :: "env \<Rightarrow> rest \<Rightarrow> kernel \<Rightarrow> (u32 \<times> kernel) option" where
  "sys_getppid env r s = int_0x80 env SYS_GETPPID (rest_ebx r) (rest_ecx r) (rest_edx r) s"

definition sys_exit :: "env \<Rightarrow> rest \<Rightarrow> u32 \<Rightarrow> kernel \<Rightarrow> kernel option" where
  "sys_exit env r code s = do { (ret, s) \<leftarrow> int_0x80 env SYS_EXIT code (rest_ecx r) (rest_edx r) s; Some s }"

section \<open>The string loop\<close>

text \<open>A string of length \<open>n\<close> in memory at \<open>a\<close>: \<open>n\<close> bytes that are not 0, then a 0.\<close>

definition string_at :: "(u32 \<Rightarrow> u8) \<Rightarrow> u32 \<Rightarrow> string \<Rightarrow> bool" where
  "string_at mem a str \<longleftrightarrow> (\<forall>i<length str. mem (a + of_nat i) = of_char (str ! i)) \<and> mem (a + of_nat (length str)) = 0 \<and> NUL \<notin> set str"

lemma string_at_Cons: "string_at mem a (c # str) \<longleftrightarrow> c \<noteq> NUL \<and> mem a = of_char c \<and> string_at mem (a + 1) str"
proof -
  have "(\<forall>i<Suc (length str). mem (a + of_nat i) = of_char ((c # str) ! i)) \<longleftrightarrow>
      mem a = of_char c \<and> (\<forall>i<length str. mem (a + 1 + of_nat i) = of_char (str ! i))"
    unfolding All_less_Suc2 by (simp add: add.assoc)
  then show ?thesis by (auto simp: string_at_def add.assoc)
qed

lemma byte_of_char: "char_of (unat (of_char c :: u8)) = c" "(of_char c :: u8) = 0 \<longleftrightarrow> c = NUL"
proof -
  have u: "unat (of_char c :: u8) = of_char c" by (subst of_nat_of_char [symmetric], subst unat_of_nat) simp
  then show "char_of (unat (of_char c :: u8)) = c" by simp
  show "(of_char c :: u8) = 0 \<longleftrightarrow> c = NUL" 
    unfolding unat_eq_0 [symmetric] u using of_char_eq_iff [of c NUL, where 'a = nat] by simp
qed

lemma print_from_string: "string_at mem a str \<Longrightarrow> print_from mem a s = Some (fold putc str s)"
proof (induction str arbitrary: a s)
  case Nil
  then show ?case by (subst print_from.simps) (simp add: string_at_def)
next
  case (Cons c str)
  then show ?case by (subst print_from.simps) (simp add: string_at_Cons byte_of_char)
qed

lemma print_from_frame:
  assumes "print_from mem a s = Some s'"
  shows "\<exists>t. s' = s\<lparr>k_term := t\<rparr>"
proof (rule print_from.raw_induct [where P = "\<lambda>_ _ s s'. \<exists>t. s' = s\<lparr>k_term := t\<rparr>", OF _ assms])
  fix pf :: "(u32 \<Rightarrow> u8) \<Rightarrow> u32 \<Rightarrow> kernel \<Rightarrow> kernel option" and mem a s s'
  assume IH: "\<And>mem a s s'. pf mem a s = Some s' \<Longrightarrow> \<exists>t. s' = s\<lparr>k_term := t\<rparr>"
    and step: "(if mem a \<noteq> 0 then pf mem (a + 1) (putc (char_of (unat (mem a))) s) else Some s) = Some s'"
  show "\<exists>t. s' = s\<lparr>k_term := t\<rparr>"
  proof (cases "mem a = 0")
    case True
    with step have "s' = s\<lparr>k_term := k_term s\<rparr>" by simp
    then show ?thesis by blast
  next
    case False
    with step IH obtain t where "s' = putc (char_of (unat (mem a))) s\<lparr>k_term := t\<rparr>" by force
    then have "s' = s\<lparr>k_term := t\<rparr>" by (simp add: putc_def)
    then show ?thesis by blast
  qed
qed

section \<open>Properties\<close>


text \<open>
  \<open>sys_print\<close> prints the string its argument points to: it returns, and the lines behind the screen have grown by
  exactly the characters in memory up to the NUL.
\<close>

theorem sys_print_shows:
  assumes "string_at (mem_byte env) a str" and "term_inv (k_term s)"
  shows "\<exists>s'. sys_print env r a s = Some s' \<and> term_lines (k_term s') = fold spec_putc str (term_lines (k_term s)) \<and>
    s' = s\<lparr>k_term := k_term s'\<rparr> \<and> term_inv (k_term s')"
proof -
  have "NUL \<notin> set str" using assms(1) by (simp add: string_at_def)
  moreover have run: "sys_print env r a s = Some (fold putc str s)"
    using print_from_string [OF assms(1)] by (simp add: sys_print_def int_0x80_def syscall_handler_def)
  moreover obtain t where "fold putc str s = s\<lparr>k_term := t\<rparr>"
    using print_from_frame [OF print_from_string [OF assms(1)]] by blast
  ultimately show ?thesis
    using kscreen.print_refines [of s str] assms(2) by auto
qed


theorem sys_print_shows_witness:
  "\<exists>s'. sys_print quiet_env \<lparr>rest_ebx = 0, rest_ecx = 0, rest_edx = 0\<rparr> 0x2000 quiet_kernel = Some s' \<and>
    term_lines (k_term s') = [''hi'']"
proof -
  have c: "(of_char CHR ''h'' :: u8) = 0x68" "(of_char CHR ''i'' :: u8) = 0x69" by (simp_all add: of_char_def)
  have "string_at (mem_byte quiet_env) 0x2000 ''hi''"
    by (simp add: string_at_Cons c) (simp add: string_at_def quiet_env_def)
  from sys_print_shows [OF this quiet_screen(1), of "\<lparr>rest_ebx = 0, rest_ecx = 0, rest_edx = 0\<rparr>"] show ?thesis
    by (auto simp: quiet_screen spec_putc_def)
qed

end
