(* ===== verification/Semaphore.thy ===== *)
theory Semaphore
  imports Mutex
begin

text \<open>
  \<^verbatim>\<open>semaphore.c\<close>, the counting semaphore the kernel is built with, and \<^verbatim>\<open>sema.c\<close>, its variant with
  a wait list. The counter is an \<open>int32_t\<close>: a 32-bit word read with \<open>sint\<close>; the test of
  \<open>sem_post\<close> casts it to unsigned, which is \<open>uint\<close>. Waiting takes a list of what the other tasks
  do during each \<open>task_sleep(1)\<close>, as for the mutex.
\<close>

section \<open>The counting semaphore\<close>

record semaphore =
  sem_count :: u32
  sem_max :: u32

definition sem_init :: "semaphore \<Rightarrow> u32 \<Rightarrow> u32 \<Rightarrow> semaphore" where
  "sem_init sem initial mx = sem\<lparr>sem_count := initial, sem_max := mx\<rparr>"

fun sem_wait ::
  "('s \<Rightarrow> semaphore) \<Rightarrow> (semaphore \<Rightarrow> 's \<Rightarrow> 's) \<Rightarrow> 's interference \<Rightarrow> 's \<Rightarrow> 's option" where
  "sem_wait get put w s =
     (if sint (sem_count (get s)) > 0
      then Some (put ((get s)\<lparr>sem_count := sem_count (get s) - 1\<rparr>) s)
      else case w of [] \<Rightarrow> None | sleep # w' \<Rightarrow> sem_wait get put w' (sleep s))"

declare sem_wait.simps [simp del]

definition sem_post :: "semaphore \<Rightarrow> semaphore" where
  "sem_post sem =
     (if uint (sem_count sem) < uint (sem_max sem)
      then sem\<lparr>sem_count := sem_count sem + 1\<rparr> else sem)"

definition sem_trywait :: "semaphore \<Rightarrow> int \<times> semaphore" where
  "sem_trywait sem =
     (if sint (sem_count sem) > 0 then (0, sem\<lparr>sem_count := sem_count sem - 1\<rparr>) else (- 1, sem))"

definition sem_value :: "semaphore \<Rightarrow> u32" where
  "sem_value sem = sem_count sem"

text \<open>
  The counter as a number, and the range in which the two readings of it agree: non-negative
  and at most the maximum, which itself is a non-negative \<open>int32_t\<close>.
\<close>

definition permits :: "semaphore \<Rightarrow> int" where
  "permits sem = sint (sem_count sem)"

definition sem_inv :: "semaphore \<Rightarrow> bool" where
  "sem_inv sem \<longleftrightarrow> 0 \<le> permits sem \<and> permits sem \<le> sint (sem_max sem)"

lemma sem_invI:
  "0 \<le> sint i \<Longrightarrow> sint i \<le> sint mx \<Longrightarrow> sem_inv (sem_init sem i mx)"
  by (simp add: sem_inv_def sem_init_def permits_def)

lemma permits_post:
  assumes "sem_inv sem"
  shows "permits (sem_post sem) = min (permits sem + 1) (sint (sem_max sem))"
proof -
  have c: "0 \<le> sint (sem_count sem)" "sint (sem_count sem) \<le> sint (sem_max sem)"
    using assms by (simp_all add: sem_inv_def permits_def)
  have "sint (sem_max sem) < 2 ^ 31" by (rule sint_u32_bounds)
  with c show ?thesis
    by (simp add: sem_post_def permits_def uint_of_sint sint_u32_plus_1 min_def)
qed

lemma max_post [simp]: "sem_max (sem_post sem) = sem_max sem"
  by (simp add: sem_post_def)

lemma sem_inv_post [kinv]: "sem_inv sem \<Longrightarrow> sem_inv (sem_post sem)"
  using permits_post [of sem] by (simp add: sem_inv_def)

lemma trywait_ok:
  "0 < permits sem \<Longrightarrow> fst (sem_trywait sem) = 0 \<and>
     permits (snd (sem_trywait sem)) = permits sem - 1 \<and>
     sem_max (snd (sem_trywait sem)) = sem_max sem"
  by (simp add: sem_trywait_def permits_def sint_u32_minus_1)

lemma trywait_busy: "permits sem \<le> 0 \<Longrightarrow> sem_trywait sem = (- 1, sem)"
  by (simp add: sem_trywait_def permits_def)

lemma sem_inv_trywait [kinv]: "sem_inv sem \<Longrightarrow> sem_inv (snd (sem_trywait sem))"
  using trywait_ok [of sem] trywait_busy [of sem]
  by (cases "0 < permits sem") (auto simp: sem_inv_def)

lemma wait_ready:
  "0 < permits (get s) \<Longrightarrow> sem_wait get put w s = Some (put (snd (sem_trywait (get s))) s)"
  by (simp add: sem_wait.simps sem_trywait_def permits_def)

lemma wait_stuck: "permits (get s) \<le> 0 \<Longrightarrow> sem_wait get put [] s = None"
  by (simp add: sem_wait.simps permits_def)

lemma wait_sleeps:
  "permits (get s) \<le> 0 \<Longrightarrow> sem_wait get put (e # w) s = sem_wait get put w (e s)"
  by (simp add: sem_wait.simps permits_def)

lemma wait_never_returns:
  assumes "permits (get s) \<le> 0" and "\<forall>e\<in>set w. \<forall>s. permits (get s) \<le> 0 \<longrightarrow> permits (get (e s)) \<le> 0"
  shows "sem_wait get put w s = None"
  using assms by (induction w arbitrary: s) (simp_all add: wait_stuck wait_sleeps)

section \<open>Tasks sharing a pool of permits\<close>

text \<open>
  Tasks that take a permit with \<open>sem_trywait\<close> (an attempt of \<open>sem_wait\<close> is the same atomic
  action) and give it back with \<open>sem_post\<close>, as the resource-pool use of a semaphore does.
\<close>

record sem_sys =
  pool :: semaphore
  users :: "task_ptr set"

inductive sem_step :: "sem_sys \<Rightarrow> sem_sys \<Rightarrow> bool" where
  acquire: "t \<notin> users s \<Longrightarrow> sem_trywait (pool s) = (0, p) \<Longrightarrow>
    sem_step s (s\<lparr>pool := p, users := insert t (users s)\<rparr>)"
| refused: "sem_trywait (pool s) = (- 1, p) \<Longrightarrow> sem_step s (s\<lparr>pool := p\<rparr>)"
| release: "t \<in> users s \<Longrightarrow>
    sem_step s (s\<lparr>pool := sem_post (pool s), users := users s - {t}\<rparr>)"

definition sem_start :: "u32 \<Rightarrow> u32 \<Rightarrow> sem_sys set" where
  "sem_start i mx = range (\<lambda>sem. \<lparr>pool = sem_init sem i mx, users = {}\<rparr>)"

abbreviation sem_reachable :: "u32 \<Rightarrow> u32 \<Rightarrow> sem_sys \<Rightarrow> bool" where
  "sem_reachable i mx \<equiv> reaches (sem_start i mx) sem_step"

definition sem_sys_inv :: "u32 \<Rightarrow> u32 \<Rightarrow> sem_sys \<Rightarrow> bool" where
  "sem_sys_inv i mx s \<longleftrightarrow> finite (users s) \<and> sem_max (pool s) = mx \<and> 0 \<le> permits (pool s) \<and>
     permits (pool s) + int (card (users s)) = sint i"

lemma sem_step_inv [kinv]:
  assumes "sem_step s s'" and "sem_sys_inv i mx s" and "sint i \<le> sint mx"
  shows "sem_sys_inv i mx s'"
  using assms(1)
proof cases
  case (acquire t p)
  then have pos: "0 < permits (pool s)"
    by (cases "0 < permits (pool s)") (auto simp: trywait_busy)
  from trywait_ok [OF pos] pos acquire assms(2) show ?thesis
    by (simp add: sem_sys_inv_def)
next
  case (refused p)
  then have "p = pool s"
    by (auto simp: sem_trywait_def split: if_splits)
  with refused assms(2) show ?thesis by (simp add: sem_sys_inv_def)
next
  case (release t)
  then have card: "Suc (card (users s - {t})) = card (users s)"
    using assms(2) card_Suc_Diff1 by (auto simp only: sem_sys_inv_def)
  then have inv: "sem_inv (pool s)" and lt: "permits (pool s) + 1 \<le> sint mx"
    using assms(2,3) by (auto simp: sem_sys_inv_def sem_inv_def)
  from permits_post [OF inv] lt release assms(2) card show ?thesis
    by (simp add: sem_sys_inv_def)
qed

interpretation permits: step_invariant "sem_start i mx" sem_step "\<lambda>s. 0 \<le> sint i \<and> sint i \<le> sint mx \<longrightarrow> sem_sys_inv i mx s"
  for i mx
proof unfold_locales
  show "0 \<le> sint i \<and> sint i \<le> sint mx \<longrightarrow> sem_sys_inv i mx s" if "s \<in> sem_start i mx" for s
    using that by (auto simp: sem_start_def sem_sys_inv_def sem_init_def permits_def)
qed (blast intro: sem_step_inv)



text \<open>
  A semaphore whose counter is negative is dead: the unsigned comparison of \<open>sem_post\<close> sees a
  huge value, so no number of posts changes it and no attempt to take a permit succeeds.
\<close>

theorem negative_semaphore_stuck:
  assumes "sint (sem_count sem) < 0" and "0 \<le> sint (sem_max sem)"
  shows "(sem_post ^^ n) sem = sem \<and> sem_trywait ((sem_post ^^ n) sem) = (- 1, sem)"
proof -
  have "2 ^ 31 \<le> uint (sem_count sem)" "uint (sem_max sem) < 2 ^ 31"
    using assms uint_lt2p [of "sem_max sem"] by (auto simp: sint_u32 split: if_splits)
  then have "sem_post sem = sem" by (simp add: sem_post_def)
  then have "(sem_post ^^ n) sem = sem" by (induction n) simp_all
  with assms show ?thesis by (simp add: trywait_busy permits_def)
qed

theorem negative_semaphore_stuck_witness:
  "(sem_post ^^ 5) (sem_init \<lparr>sem_count = 0, sem_max = 0\<rparr> (- 1) 3) = \<lparr>sem_count = - 1, sem_max = 3\<rparr>
   \<and> sem_trywait ((sem_post ^^ 5) (sem_init \<lparr>sem_count = 0, sem_max = 0\<rparr> (- 1) 3))
     = (- 1, \<lparr>sem_count = - 1, sem_max = 3\<rparr>)"
proof -
  have "sem_init \<lparr>sem_count = 0, sem_max = 0\<rparr> (- 1) 3 = \<lparr>sem_count = - 1, sem_max = 3\<rparr>"
    by (simp add: sem_init_def)
  with negative_semaphore_stuck [of "\<lparr>sem_count = - 1, sem_max = 3\<rparr>" 5] show ?thesis
    by auto
qed

section \<open>The variant with a wait list\<close>

text \<open>
  \<^verbatim>\<open>sema.c\<close> is not in the build and calls \<open>task_block\<close> and \<open>task_unblock_all\<close>, which no file
  defines: each \<open>task_block\<close> is an element of the interference list (it may do anything to the
  semaphore until the caller runs again), \<open>task_unblock_all\<close> is a parameter on the wait list.
\<close>

record sema =
  sema_count :: u32
  wait_list :: task_ptr

definition sema_init :: "sema \<Rightarrow> u32 \<Rightarrow> sema" where
  "sema_init s initial_count = s\<lparr>sema_count := initial_count, wait_list := 0\<rparr>"

fun sema_wait :: "sema interference \<Rightarrow> sema \<Rightarrow> sema option" where
  "sema_wait w s =
     (if sint (sema_count s) > 0 then Some (s\<lparr>sema_count := sema_count s - 1\<rparr>)
      else case w of [] \<Rightarrow> None | task_block # w' \<Rightarrow> sema_wait w' (task_block s))"

declare sema_wait.simps [simp del]

definition sema_signal :: "(task_ptr \<Rightarrow> task_ptr) \<Rightarrow> sema \<Rightarrow> sema" where
  "sema_signal task_unblock_all s =
     s\<lparr>sema_count := sema_count s + 1, wait_list := task_unblock_all (wait_list s)\<rparr>"

lemma sema_signal_wait:
  assumes "0 \<le> sint (sema_count s)" and "sint (sema_count s) < 2 ^ 31 - 1"
  shows "sema_wait w (sema_signal ub s) = Some (s\<lparr>wait_list := ub (wait_list s)\<rparr>)"
  using sint_u32_plus_1 [OF assms] assms(1) by (simp add: sema_wait.simps sema_signal_def)

end
