(* ===== verification/Shell.thy ===== *)
theory Shell
  imports Shell_Input Syscall Semaphore "HOL-Library.Signed_Division"
begin

text \<open>
  The commands of \<^verbatim>\<open>shell.c\<close> and the keys that lead to them. A command that waits for a lock nobody releases, reboots
  or shuts the machine down does not return. Signed arithmetic wraps at 32 bits, as the compiled code does.
\<close>

section \<open>Model: the commands\<close>

definition seq :: "(kernel \<Rightarrow> kernel) list \<Rightarrow> kernel \<Rightarrow> kernel" where
  "seq fs s = fold (\<lambda>f. f) fs s"

abbreviation line :: "string \<Rightarrow> string" where
  "line t \<equiv> t @ [newline]"

definition cmd_help :: "kernel \<Rightarrow> kernel" where
  "cmd_help s = fold print_str
    [newline # line ''=== RTOS Shell v3.1 ==='',
     newline # line ''  SYSTEM:'',
     line ''   help              - This help'',
     line ''   clear             - Clear the screen'',
     line ''   uptime            - Time since boot'',
     line ''   ticks             - Current PIT ticks'',
     line ''   reboot            - Reboot'',
     line ''   shutdown          - Power off the system'',
     line ''   sysinfo           - System information'',
     newline # line ''  LOGGING:'',
     line ''   logs              - Show the log buffer'',
     line ''   loglevel <0-4>    - Set the log level'',
     line ''   logclear          - Clear the log buffer'',
     newline # line ''  PAGING:'',
     line ''   pages             - Paging statistics'',
     line ''   vmmap             - Show virtual memory map'',
     newline # line ''  SIGNALS & RINGS:'',
     line ''   ring              - Show current Ring'',
     line ''   siglist           - List signals'',
     line ''   testsig <pid>     - Send SIGTERM to a PID'',
     newline # line ''  NAVIGATION:'',
     line ''   Page Up/Down      - Scroll up/down'',
     line ''   Up/Down Arrow     - Command history'',
     newline # line ''  TASKS & PROCESSES:'',
     line ''   tasks             - List tasks (scheduler)'',
     line ''   ps                - List processes (PCB)'',
     line ''   spawn <name>      - Create a process'',
     newline # line ''  MEMORY:'',
     line ''   mem               - Heap usage'',
     line ''   alloc [bytes]     - Allocate memory'',
     line ''   free              - Free last allocation'',
     line ''   hexdump <addr>    - Hex dump 64 bytes'',
     newline # line ''  VFS FILES:'',
     line ''   ls                - List files'',
     line ''   cat <file>        - Show file content'',
     line ''   touch <file>      - Create an empty file'',
     line ''   write <f> <text>  - Write to a file'',
     line ''   rm <file>         - Remove a file'',
     newline # line ''  MISC:'',
     line ''   echo <text>       - Print text'',
     line ''   calc <n> <op> <m> - Calculator (+ - * /)'',
     line ''   sem               - Semaphore demo'',
     line ''   sys               - Syscall test'',
     line ''   history           - Show command history''] s"

definition cmd_history :: "kernel \<Rightarrow> kernel" where
  "cmd_history s =
     (let h = k_shell s; s = print_str (newline # line ''=== Command History ==='') s in
      if history_count h = 0 then print_str (line ''  (empty)'') s
      else fold (\<lambda>i. seq [print_str ''  '', print_dec (of_nat (i + 1)), print_str '': '', print_str (command_history h ! i),
             print_str [newline]]) [0..<history_count h] s)"

definition cmd_uptime :: "kernel \<Rightarrow> kernel option" where
  "cmd_uptime s = do {
     t \<leftarrow> get_uptime_sec (m_timer s);
     let m = t div 60;
     let h = m div 60;
     Some (seq [print_str (newline # ''Uptime: ''), print_dec h, print_str ''h '', print_dec (m mod 60), print_str ''m '',
       print_dec (t mod 60), print_str ''s  ('', print_dec (get_ticks (m_timer s)), print_str '' ticks)''] s)
   }"

definition get_free_pages :: "env \<Rightarrow> kernel \<Rightarrow> (u32 \<times> kernel) option" where
  "get_free_pages env s = do {
     (n, p) \<leftarrow> paging_get_free_pages (k_cur s) (e_paging env) (k_paging s);
     Some (n, s\<lparr>k_paging := p\<rparr>)
   }"

definition get_used_pages :: "env \<Rightarrow> kernel \<Rightarrow> (u32 \<times> kernel) option" where
  "get_used_pages env s = do {
     (n, p) \<leftarrow> paging_get_used_pages (k_cur s) (e_paging env) (k_paging s);
     Some (n, s\<lparr>k_paging := p\<rparr>)
   }"

definition cmd_sysinfo :: "env \<Rightarrow> kernel \<Rightarrow> kernel option" where
  "cmd_sysinfo env s = do {
     let s = seq [print_str (newline # line ''=== RTOS System Info ===''), print_str (line ''Version: RTOS v3.1''),
       print_str (line ''Built: 2026-08-19''), print_str ''Tasks active: '', print_dec (task_count (m_tasking s)),
       print_str [newline], print_str ''Processes: '', print_dec (process_count (k_procs s)), print_str [newline],
       print_str ''Free pages: ''] s;
     (n, s) \<leftarrow> get_free_pages env s;
     Some (seq [print_dec n, print_str [newline]] s)
   }"

definition cmd_logs :: "kernel \<Rightarrow> kernel" where
  "cmd_logs s = fold print_str (log_dump (k_log s)) s"

text \<open>The digits of an argument.\<close>

fun parse_u32 :: "u32 \<Rightarrow> string \<Rightarrow> u32" where
  "parse_u32 n [] = n"
| "parse_u32 n (c # rst) = (if is_digit c then parse_u32 (n * 10 + of_nat (of_char c - 48)) rst else n)"

definition level_of :: "nat \<Rightarrow> log_level" where
  "level_of n = [LOG_DEBUG, LOG_INFO, LOG_WARN, LOG_ERROR, LOG_CRITICAL] ! n"

definition cmd_loglevel :: "string list \<Rightarrow> kernel \<Rightarrow> kernel" where
  "cmd_loglevel args s =
     (if length args < 2 then seq [print_str (newline # line ''Usage: loglevel <0-4>''),
        print_str (line ''  0=DEBUG, 1=INFO, 2=WARN, 3=ERROR, 4=CRITICAL'')] s
      else
        let level = parse_u32 0 (args ! 1) in
        if sint level \<ge> 0 \<and> sint level \<le> 4 then
          seq [\<lambda>s. s\<lparr>k_sig := (k_sig s)\<lparr>sig_log := log_set_level (level_of (unat level)) (k_log s)\<rparr>\<rparr>,
            print_str (newline # ''Log level changed to ''), print_dec level] s
        else s)"

definition cmd_pages :: "env \<Rightarrow> kernel \<Rightarrow> kernel option" where
  "cmd_pages env s = do {
     let s = seq [print_str (newline # line ''=== Paging Statistics ===''), print_str ''Total pages: '', print_dec (1024 * 1024),
       print_str (newline # ''Used pages: '')] s;
     (u, s) \<leftarrow> get_used_pages env s;
     let s = seq [print_dec u, print_str (newline # ''Free pages: '')] s;
     (f, s) \<leftarrow> get_free_pages env s;
     Some (seq [print_dec f, print_str [newline]] s)
   }"

definition print_range :: "string \<Rightarrow> u32 \<Rightarrow> u32 \<Rightarrow> kernel \<Rightarrow> kernel" where
  "print_range label start stop = seq [print_str ''  '', print_str label, print_hex start, print_str '' - '', print_hex stop,
     print_str [newline]]"

definition KERNEL_HEAP_BASE :: u32 where "KERNEL_HEAP_BASE = 0x01000000"
definition USER_BASE :: u32 where "USER_BASE = 0x08000000"
definition USER_HEAP_BASE :: u32 where "USER_HEAP_BASE = 0x20000000"
definition USER_STACK_TOP :: u32 where "USER_STACK_TOP = 0xC0000000"

definition cmd_vmmap :: "env \<Rightarrow> kernel \<Rightarrow> kernel option" where
  "cmd_vmmap env s = do {
     let s = seq [print_str (newline # line ''=== Virtual Memory Map ===''),
       print_range ''Kernel image     : '' 0x00100000 0x00400000,
       print_range ''Kernel heap       : '' KERNEL_HEAP_BASE (KERNEL_HEAP_BASE + (4 * 1024 * 1024)),
       print_range ''Identity map      : '' 0x00000000 0x04000000,
       print_range ''VGA text buffer   : '' 0x000B8000 0x000B8FA0,
       print_range ''User code base    : '' USER_BASE USER_HEAP_BASE,
       print_range ''User heap base    : '' USER_HEAP_BASE USER_STACK_TOP,
       print_range ''User stack top    : '' USER_STACK_TOP 0xFFFFFFFF,
       print_str (newline # ''Page tables: ''), print_dec (of_nat PAGE_TABLES_COUNT), print_str '' x '',
       print_dec (of_nat PAGES_PER_TABLE), print_str '' entries ('', print_dec (of_nat PAGE_SIZE),
       print_str (line '' bytes/page)''), print_str ''Used pages : ''] s;
     (u, s) \<leftarrow> get_used_pages env s;
     let s = seq [print_dec u, print_str ''   Free pages: ''] s;
     (f, s) \<leftarrow> get_free_pages env s;
     Some (seq [print_dec f, print_str [newline]] s)
   }"

definition cmd_ring :: "env \<Rightarrow> kernel \<Rightarrow> kernel" where
  "cmd_ring env s =
     (let ring = get_current_ring (cs_register env);
          s = seq [print_str (newline # ''Current Ring: Ring ''), print_dec ring] s
      in if ring = 0 then print_str (line '' (Kernel mode)'') s else print_str (line '' (User mode)'') s)"

definition cmd_siglist :: "kernel \<Rightarrow> kernel" where
  "cmd_siglist s = fold print_str
    [newline # line ''=== RTOS Signals ==='',
     line ''SIGHUP  (1)   - Hangup'',
     line ''SIGINT  (2)   - Interrupt (Ctrl+C)'',
     line ''SIGTERM (15)  - Termination'',
     line ''SIGKILL (9)   - Forced (non-blockable)'',
     line ''SIGUSR1 (10)  - User signal 1'',
     line ''SIGUSR2 (11)  - User signal 2''] s"

definition cmd_testsig :: "env \<Rightarrow> string list \<Rightarrow> kernel \<Rightarrow> kernel option" where
  "cmd_testsig env args s =
     (if length args < 2 then Some (print_str (newline # line ''Usage: testsig <pid>'') s)
      else do {
        let pid = parse_u32 0 (args ! 1);
        (err, g) \<leftarrow> kill (k_cur s) (e_sig env) (k_ticks s) pid (int SIGTERM) (k_sig s);
        let s = s\<lparr>k_sig := g\<rparr>;
        Some (seq [print_str (newline # ''SIGTERM signal sent to PID ''), print_dec pid, print_str '': '',
          print_str (error_to_string (error_code err))] s)
      })"

definition task_row :: "task_ptr \<Rightarrow> kernel \<Rightarrow> kernel" where
  "task_row cur s =
     (let t = tasks (m_tasking s) cur;
          s = seq [print_str '' '', print_dec (t_id t), print_str ''    '', print_dec (t_priority t), print_str ''    '',
            print_dec (t_cpu_ticks t), print_str ''   ''] s
      in case t_state t of
           TASK_READY \<Rightarrow> print_str (line ''READY'') s
         | TASK_SLEEPING \<Rightarrow> seq [print_str ''SLEEP('', print_dec (t_sleep_ticks t), print_str (line '')'')] s
         | TASK_BLOCKED \<Rightarrow> print_str (line ''BLOCKED'') s
         | TASK_ZOMBIE \<Rightarrow> print_str (line ''ZOMBIE'') s)"

definition cmd_tasks :: "kernel \<Rightarrow> kernel option" where
  "cmd_tasks s =
     (let s = seq [print_str (newline # line '' ID   PRI  CPU   STATE''), print_str (line '' ---  ---  ---   ---------'')] s;
          start = get_current_task (m_tasking s)
      in ring_walk task_row (\<lambda>s. links (m_tasking s)) start start s)"

definition cmd_ps :: "kernel \<Rightarrow> kernel" where
  "cmd_ps s = (let s = print_str [newline] s in fold print_str (process_list (k_procs s)) s)"

definition cmd_mem :: "env \<Rightarrow> kernel \<Rightarrow> kernel option" where
  "cmd_mem env s = do {
     (used, h) \<leftarrow> heap_get_used (k_cur s) (e_heap env) (k_heap s);
     (avail, h) \<leftarrow> heap_get_free (k_cur s) (e_heap env) h;
     let s = s\<lparr>k_heap := h\<rparr>;
     let total = used + avail;
     let s = seq [print_str (newline # ''Heap total: ''), print_dec (total div 1024), print_str (line '' KB''),
       print_str ''  Used     : '', print_dec used, print_str (line '' bytes''),
       print_str ''  Free     : '', print_dec avail, print_str (line '' bytes'')] s;
     let pct = (if total \<noteq> 0 then used * 40 div total else 0);
     let s = print_str ''  ['' s;
     let s = fold (\<lambda>i. putc (if of_nat i < pct then CHR ''#'' else CHR ''.'')) [0..<40] s;
     Some (seq [print_str ''] '', print_dec (if total \<noteq> 0 then used * 100 div total else 0), print_str ''%''] s)
   }"

definition set_test_alloc :: "u32 \<Rightarrow> kernel \<Rightarrow> kernel" where
  "set_test_alloc p s = upd_shell (\<lambda>h. h\<lparr>test_alloc_ptr := p\<rparr>) s"

definition cmd_alloc :: "env \<Rightarrow> string list \<Rightarrow> kernel \<Rightarrow> kernel option" where
  "cmd_alloc env args s =
     (if test_alloc_ptr (k_shell s) \<noteq> 0
      then Some (print_str (newline # ''Already allocated! Run '' @ [CHR 0x27] @ ''free'' @ [CHR 0x27] @ '' first.'') s)
      else do {
        let sz = (if length args \<ge> 2 then let n = parse_u32 0 (args ! 1) in if n = 0 then 1024 else n else 1024);
        (p, h) \<leftarrow> kmalloc (k_cur s) (e_heap env) sz (k_heap s);
        let s = set_test_alloc p (s\<lparr>k_heap := h\<rparr>);
        Some (if p \<noteq> 0
          then seq [print_str (newline # ''Allocated ''), print_dec sz, print_str '' bytes @ '', print_hex p] s
          else print_str (newline # ''Allocation failed!'') s)
      })"

definition cmd_free :: "env \<Rightarrow> kernel \<Rightarrow> kernel option" where
  "cmd_free env s =
     (if test_alloc_ptr (k_shell s) = 0 then Some (print_str (newline # ''Nothing to free.'') s)
      else do {
        h \<leftarrow> kfree (k_cur s) (e_heap env) (test_alloc_ptr (k_shell s)) (k_heap s);
        let s = set_test_alloc 0 (s\<lparr>k_heap := h\<rparr>);
        Some (print_str (newline # ''Freed.'') s)
      })"

text \<open>A digit of an address, and the loop that reads one: it stops at the first other character.\<close>

definition nibble_of :: "char \<Rightarrow> u32 option" where
  "nibble_of c =
     (let n = of_char c :: nat in
      if 48 \<le> n \<and> n \<le> 57 then Some (of_nat (n - 48))
      else if 97 \<le> n \<and> n \<le> 102 then Some (of_nat (n - 97 + 10))
      else if 65 \<le> n \<and> n \<le> 70 then Some (of_nat (n - 65 + 10))
      else None)"

fun hex_loop :: "u32 \<Rightarrow> string \<Rightarrow> u32" where
  "hex_loop acc [] = acc"
| "hex_loop acc (c # rst) = (case nibble_of c of None \<Rightarrow> acc | Some nib \<Rightarrow> hex_loop (push_bit 4 acc OR nib) rst)"

definition parse_hex :: "string \<Rightarrow> u32" where
  "parse_hex p = hex_loop 0 (case p of z # x # rst \<Rightarrow> if z = CHR ''0'' \<and> (x = CHR ''x'' \<or> x = CHR ''X'') then rst else p | _ \<Rightarrow> p)"

definition print_byte :: "u8 \<Rightarrow> kernel \<Rightarrow> kernel" where
  "print_byte b = seq [putc (''0123456789ABCDEF'' ! unat (drop_bit 4 b)), putc (''0123456789ABCDEF'' ! unat (b AND 0xF)),
     putc CHR '' '']"

definition printable :: "u8 \<Rightarrow> char" where
  "printable b = (if b \<ge> 32 \<and> b < 127 then char_of (unat b) else CHR ''.'')"

definition dump_row :: "env \<Rightarrow> u32 \<Rightarrow> nat \<Rightarrow> kernel \<Rightarrow> kernel" where
  "dump_row env base row s =
     (let bytes = map (\<lambda>col. mem_byte env (base + of_nat (row * 16 + col))) [0..<16];
          s = seq [print_hex (base + of_nat (row * 16)), print_str ''  ''] s;
          s = fold print_byte bytes s;
          s = print_str '' |'' s;
          s = fold (\<lambda>b. putc (printable b)) bytes s
      in print_str (line ''|'') s)"

definition cmd_hexdump :: "env \<Rightarrow> string \<Rightarrow> kernel \<Rightarrow> kernel" where
  "cmd_hexdump env addr_str s =
     (let base = parse_hex addr_str;
          s = seq [print_str (newline # ''Hexdump @ ''), print_hex base, print_str (line '' :'')] s
      in fold (dump_row env base) [0..<4] s)"

text \<open>
  The calculator. An operand may start with a minus sign; the quotient of \<open>int32_t\<close> is rounded towards zero, and
  the one quotient that is out of range raises the divide error, whose handler does not return.
\<close>

definition parse_int32 :: "string \<Rightarrow> u32" where
  "parse_int32 p = (case p of c # rst \<Rightarrow> if c = CHR ''-'' then - parse_u32 0 rst else parse_u32 0 p | [] \<Rightarrow> 0)"

definition div_int32 :: "u32 \<Rightarrow> u32 \<Rightarrow> u32 option" where
  "div_int32 a b = (if a = 0x80000000 \<and> b = - 1 then None else Some (word_of_int (sint a sdiv sint b)))"

definition print_result :: "u32 \<Rightarrow> kernel \<Rightarrow> kernel" where
  "print_result res s =
     (let s = print_str (newline # ''Result: '') s in
      if sint res < 0 then print_dec (- res) (putc CHR ''-'' s) else print_dec res s)"

definition cmd_calc :: "string list \<Rightarrow> kernel \<Rightarrow> kernel option" where
  "cmd_calc args s =
     (if length args < 4 then Some (print_str (newline # ''Usage: calc <n> <op> <m>'') s)
      else
        let a = parse_int32 (args ! 1);
            b = parse_int32 (args ! 3);
            opr = (case args ! 2 of [] \<Rightarrow> NUL | c # _ \<Rightarrow> c)
        in if opr = CHR ''+'' then Some (print_result (a + b) s)
           else if opr = CHR ''-'' then Some (print_result (a - b) s)
           else if opr = CHR ''*'' then Some (print_result (a * b) s)
           else if opr = CHR ''/'' then
             (if b = 0 then Some (print_str (newline # ''Div/0!'') s)
              else do { res \<leftarrow> div_int32 a b; Some (print_result res s) })
           else Some (print_str (newline # ''Invalid op'') s))"

definition sem_row :: "string \<Rightarrow> semaphore \<Rightarrow> kernel \<Rightarrow> kernel" where
  "sem_row label sem = seq [print_str label, print_dec (sem_value sem), print_str [newline]]"

text \<open>The semaphore is a local variable, which no other task changes.\<close>

definition cmd_sem :: "kernel \<Rightarrow> kernel option" where
  "cmd_sem s = do {
     let local_wait = sem_wait (\<lambda>x. x) (\<lambda>x _. x) [];
     let sem = sem_init \<lparr>sem_count = 0, sem_max = 0\<rparr> 3 3;
     let s = seq [print_str (newline # line ''Semaphore Demo (max=3):''), sem_row ''  Init     : '' sem] s;
     sem \<leftarrow> local_wait sem;
     let s = sem_row ''  wait()   : '' sem s;
     sem \<leftarrow> local_wait sem;
     let s = sem_row ''  wait()   : '' sem s;
     let sem = sem_post sem;
     let s = sem_row ''  post()   : '' sem s;
     let (r, sem) = sem_trywait sem;
     let s = seq [print_str ''  trywait(): '', print_str (if r = 0 then ''ok'' else ''failed''), sem_row '' -> '' sem] s;
     let sem = sem_post (sem_post sem);
     Some (sem_row ''  2xpost() : '' sem s)
   }"

definition cmd_sys :: "env \<Rightarrow> kernel \<Rightarrow> kernel option" where
  "cmd_sys env s = do {
     let s = seq [print_str (newline # line ''=== Syscall Test (int 0x80) ===''), print_str ''[SYS_WRITE  ] ''] s;
     s \<leftarrow> sys_print env (e_regs env) (hello_at env) s;
     let s = print_str ''[SYS_TICKS  ] ticks = '' s;
     (t, s) \<leftarrow> sys_ticks env (e_regs env) s;
     let s = seq [print_dec t, print_str [newline], print_str ''[SYS_GETPID ] pid = ''] s;
     (pid, s) \<leftarrow> sys_getpid env (e_regs env) s;
     Some (seq [print_dec pid, print_str [newline]] s)
   }"

definition cmd_spawn :: "env \<Rightarrow> string list \<Rightarrow> kernel \<Rightarrow> kernel option" where
  "cmd_spawn env args s = do {
     let name = (if length args \<ge> 2 then args ! 1 else ''proc'');
     (pid, p) \<leftarrow> process_create (proc_stack_at env) name (spawned_entry env) 1 0 (k_procs s);
     let s = set_procs p s;
     Some (if pid \<ge> 0
       then seq [print_str (newline # ''Process '' @ [CHR 0x27]), print_str name,
         print_str ([CHR 0x27] @ '' created, PID=''), print_dec (word_of_int pid)] s
       else print_str (newline # ''Failed: pool full.'') s)
   }"

text \<open>
  Neither of these returns: the first loads an empty interrupt table and raises an interrupt, which resets the
  processor; the second is given by the words it writes to the ports and the state in which it halts when no port
  switched the machine off.
\<close>

definition cmd_reboot :: "kernel \<Rightarrow> kernel option" where
  "cmd_reboot s = None"

definition cmd_shutdown :: "kernel \<Rightarrow> (u16 \<times> u16) list \<times> kernel" where
  "cmd_shutdown s =
     (let s = print_str (newline # line ''Shutting down...'') s;
          s = k_log_msg LOG_INFO ''System shutdown requested'' s;
          words = [(0x604, 0x2000), (0xB004, 0x2000), (0x4004, 0x3400)];
          s = print_str (line ''Power-off not supported on this platform.'') s
      in (words, print_str (line ''System halted. You can now turn off the machine.'') s))"

definition cmd_ls :: "kernel \<Rightarrow> kernel" where
  "cmd_ls s = (let s = print_str (newline # line ''VFS Files:'') s in fold print_str (vfs_list (k_files s)) s)"

definition cmd_cat :: "string list \<Rightarrow> kernel \<Rightarrow> kernel" where
  "cmd_cat args s =
     (if length args < 2 then print_str (newline # ''Usage: cat <file>'') s
      else case vfs_open (args ! 1) (k_files s) of
        Some i \<Rightarrow> seq [print_str [newline], print_str (f_content (k_files s ! i))] s
      | None \<Rightarrow> seq [print_str (newline # ''Not found: ''), print_str (args ! 1)] s)"

definition cmd_echo :: "string list \<Rightarrow> kernel \<Rightarrow> kernel" where
  "cmd_echo args s = fold (\<lambda>a s. let s = print_str (args ! a) s in if a < length args - 1 then putc CHR '' '' s else s)
     [1..<length args] (print_str [newline] s)"

definition cmd_unknown :: "string \<Rightarrow> kernel \<Rightarrow> kernel" where
  "cmd_unknown arg0 = seq [print_str (newline # ''Unknown: '' @ [CHR 0x27]), print_str arg0,
     print_str ([CHR 0x27] @ ''  (type '' @ [CHR 0x27] @ ''help'' @ [CHR 0x27] @ '')'')]"

text \<open>The chain of comparisons of \<open>execute_command\<close>.\<close>

definition run_command :: "env \<Rightarrow> string list \<Rightarrow> kernel \<Rightarrow> kernel option" where
  "run_command env args s =
     (let is = (\<lambda>name. sh_strcmp (args ! 0) name = 0) in
      if is ''help'' then Some (cmd_help s)
      else if is ''history'' then Some (cmd_history s)
      else if is ''clear'' then Some (s\<lparr>k_term := draw_header (terminal_clear (k_term s))\<rparr>)
      else if is ''uptime'' then cmd_uptime s
      else if is ''ticks'' then Some (seq [print_str (newline # ''Ticks: ''), print_dec (get_ticks (m_timer s))] s)
      else if is ''sysinfo'' then cmd_sysinfo env s
      else if is ''logs'' then Some (cmd_logs s)
      else if is ''loglevel'' then Some (cmd_loglevel args s)
      else if is ''logclear'' then
        Some (print_str (newline # ''Logs cleared.'') (s\<lparr>k_sig := (k_sig s)\<lparr>sig_log := log_clear (k_log s)\<rparr>\<rparr>))
      else if is ''pages'' then cmd_pages env s
      else if is ''vmmap'' then cmd_vmmap env s
      else if is ''ring'' then Some (cmd_ring env s)
      else if is ''siglist'' then Some (cmd_siglist s)
      else if is ''testsig'' then cmd_testsig env args s
      else if is ''tasks'' then cmd_tasks s
      else if is ''ps'' then Some (cmd_ps s)
      else if is ''spawn'' then cmd_spawn env args s
      else if is ''mem'' then cmd_mem env s
      else if is ''alloc'' then cmd_alloc env args s
      else if is ''free'' then cmd_free env s
      else if is ''hexdump'' then
        Some (if length args < 2 then print_str (newline # ''Usage: hexdump <addr>'') s else cmd_hexdump env (args ! 1) s)
      else if is ''ls'' then Some (cmd_ls s)
      else if is ''cat'' then Some (cmd_cat args s)
      else if is ''echo'' then Some (cmd_echo args s)
      else if is ''calc'' then cmd_calc args s
      else if is ''sem'' then cmd_sem s
      else if is ''sys'' then cmd_sys env s
      else if is ''reboot'' then cmd_reboot s
      else if is ''shutdown'' then (case cmd_shutdown s of (words, halted) \<Rightarrow> None)
      else Some (cmd_unknown (args ! 0) s))"

definition execute_command :: "env \<Rightarrow> kernel \<Rightarrow> kernel option" where
  "execute_command env s = do {
     let s = upd_shell (\<lambda>h. h\<lparr>buffer := (buffer h)[buf_idx h := NUL], history_index := -1, saved_buf_idx := 0,
       saved_buffer := (saved_buffer h)[0 := NUL]\<rparr>) s;
     if buf_idx (k_shell s) = 0 then Some (print_prompt s)
     else do {
       let s = upd_shell (history_add (buffer (k_shell s))) s;
       let args = split_args (buffer (k_shell s));
       if length args = 0 then Some (print_prompt s)
       else do {
         s \<leftarrow> run_command env args s;
         Some (print_prompt (upd_shell (\<lambda>h. h\<lparr>buf_idx := 0\<rparr>) s))
       }
     }
   }"

definition shell_handle_key :: "env \<Rightarrow> char \<Rightarrow> kernel \<Rightarrow> kernel option" where
  "shell_handle_key env c s =
     (let s = (if terminal_get_view_offset (k_term s) \<noteq> 0 then s\<lparr>k_term := terminal_scroll_to_bottom (k_term s)\<rparr> else s) in
      if c = newline then execute_command env s
      else if c = backspace then Some (erase_key s)
      else Some (insert_key c s))"

section \<open>What commands leave alone\<close>

lemma seq_simps [simp]: "seq [] s = s" "seq (f # fs) s = seq fs (f s)"
  by (simp_all add: seq_def)

text \<open>Nothing outside the screen, the paging state and the signal, process and log state has changed.\<close>

definition keeps :: "kernel \<Rightarrow> kernel \<Rightarrow> bool" where
  "keeps s s' \<longleftrightarrow> s'\<lparr>k_term := k_term s, k_sig := k_sig s, k_paging := k_paging s\<rparr> = s"

lemma keeps_refl [simp]: "keeps s s"
  by (simp add: keeps_def)

lemma keeps_upd [simp]:
  "keeps s (s'\<lparr>k_term := x\<rparr>) = keeps s s'" "keeps s (s'\<lparr>k_sig := y\<rparr>) = keeps s s'" "keeps s (s'\<lparr>k_paging := z\<rparr>) = keeps s s'"
  by (simp_all add: keeps_def)

lemma keeps_putc [simp]: "keeps s (putc c s') = keeps s s'"
  by (simp add: putc_def)

lemma keeps_fold: "(\<And>x s'. keeps s (f x s') = keeps s s') \<Longrightarrow> keeps s (fold f xs s') = keeps s s'"
  by (induction xs arbitrary: s') simp_all

lemma keeps_print [simp]:
  "keeps s (print_str x s') = keeps s s'" "keeps s (print_dec n s') = keeps s s'" "keeps s (print_hex n s') = keeps s s'"
  "keeps s (fold print_str xs s') = keeps s s'"
  by (simp_all add: print_str_term print_dec_text print_hex_text keeps_fold)

lemma keeps_cmds [simp]:
  "keeps s (cmd_help s') = keeps s s'" "keeps s (cmd_history s') = keeps s s'" "keeps s (cmd_logs s') = keeps s s'"
  "keeps s (cmd_loglevel args s') = keeps s s'" "keeps s (cmd_ring env s') = keeps s s'" "keeps s (cmd_siglist s') = keeps s s'"
  "keeps s (cmd_ps s') = keeps s s'" "keeps s (cmd_ls s') = keeps s s'" "keeps s (cmd_cat args s') = keeps s s'"
  "keeps s (cmd_echo args s') = keeps s s'" "keeps s (cmd_unknown a s') = keeps s s'" "keeps s (task_row t s') = keeps s s'"
  by (simp_all add: cmd_help_def cmd_history_def cmd_logs_def cmd_loglevel_def cmd_ring_def cmd_siglist_def cmd_ps_def
      cmd_ls_def cmd_cat_def cmd_echo_def cmd_unknown_def task_row_def keeps_fold Let_def
      split: option.split task_state.split)

lemma keeps_cmds2 [simp]:
  "keeps s (sem_row l sem s') = keeps s s'" "keeps s (print_result r s') = keeps s s'" "keeps s (print_byte b s') = keeps s s'"
  "keeps s (set_procs p s') = keeps s s'" "keeps s (k_log_msg lv m s') = keeps s s'" "keeps s (print_range lab x1 x2 s') = keeps s s'"
  "keeps s (dump_row env x1 row s') = keeps s s'" "keeps s (cmd_hexdump env adr s') = keeps s s'"
  by (simp_all add: sem_row_def print_result_def print_byte_def set_procs_def k_log_msg_def print_range_def dump_row_def
      cmd_hexdump_def keeps_fold Let_def)

lemma keeps_pages [simp]:
  "get_free_pages env s' = Some (n, s'') \<Longrightarrow> keeps s s'' = keeps s s'"
  "get_used_pages env s' = Some (n, s'') \<Longrightarrow> keeps s s'' = keeps s s'"
  by (auto simp: get_free_pages_def get_used_pages_def bind_eq_Some_conv)

lemma keeps_reports:
  "cmd_uptime s = Some s' \<Longrightarrow> keeps s s'" "cmd_sysinfo env s = Some s' \<Longrightarrow> keeps s s'" "cmd_pages env s = Some s' \<Longrightarrow> keeps s s'"
  "cmd_vmmap env s = Some s' \<Longrightarrow> keeps s s'"
  by (auto simp: cmd_uptime_def cmd_sysinfo_def cmd_pages_def cmd_vmmap_def Let_def bind_eq_Some_conv)

lemma keeps_testsig: "cmd_testsig env args s = Some s' \<Longrightarrow> keeps s s'"
  by (auto simp: cmd_testsig_def Let_def bind_eq_Some_conv split: if_splits)

lemma keeps_tasks: "cmd_tasks s = Some s' \<Longrightarrow> keeps s s'"
  using ring_walk_invariant [where P = "keeps s" and body = task_row] by (auto simp: cmd_tasks_def Let_def)

lemma keeps_spawn: "cmd_spawn env args s = Some s' \<Longrightarrow> keeps s s'"
  by (auto simp: cmd_spawn_def Let_def bind_eq_Some_conv)

lemma keeps_calc: "cmd_calc args s = Some s' \<Longrightarrow> keeps s s'"
  by (auto simp: cmd_calc_def Let_def bind_eq_Some_conv split: if_splits)

lemma keeps_sem: "cmd_sem s = Some s' \<Longrightarrow> keeps s s'"
  by (auto simp: cmd_sem_def Let_def bind_eq_Some_conv case_prod_beta)

lemma keeps_sys: "cmd_sys env s = Some s' \<Longrightarrow> keeps s s'"
  by (auto simp: cmd_sys_def sys_print_def sys_ticks_def sys_getpid_def int_0x80_def syscall_handler_def sys_numbers Let_def
      bind_eq_Some_conv dest!: print_from_frame)

lemmas keeps_options = keeps_reports keeps_testsig keeps_tasks keeps_spawn keeps_calc keeps_sem keeps_sys

abbreviation cmd_is :: "string list \<Rightarrow> string \<Rightarrow> bool" where
  "cmd_is args name \<equiv> sh_strcmp (args ! 0) name = 0"

lemma run_keeps:
  assumes "run_command env args s = Some s'"
    and "\<not> cmd_is args ''mem''" "\<not> cmd_is args ''alloc''" "\<not> cmd_is args ''free''"
  shows "keeps s s'"
  using assms unfolding run_command_def Let_def
  by (auto simp: cmd_reboot_def cmd_shutdown_def split: if_splits intro: keeps_options)

lemma keeps_fields:
  assumes "keeps s s'"
  shows "k_shell s' = k_shell s" "k_heap s' = k_heap s"
  using arg_cong [OF assms [unfolded keeps_def], of k_shell] arg_cong [OF assms [unfolded keeps_def], of k_heap] by simp_all

section \<open>The command line after Enter\<close>

text \<open>
  The line goes to the history and is cleared; a line of spaces goes to the history too but stays on the command
  line.
\<close>

definition spec_enter :: "editor \<Rightarrow> editor" where
  "spec_enter e = e\<lparr>ed_line := (if list_all (\<lambda>c. c = CHR '' '') (ed_line e) then ed_line e else []),
     ed_hist := spec_history_add (ed_line e) (ed_hist e), ed_pos := None, ed_saved := []\<rparr>"

lemma print_fields [simp]:
  "k_shell (print_str x s) = k_shell s" "k_shell (print_dec n s) = k_shell s" "k_shell (print_hex n s) = k_shell s"
  "k_heap (print_str x s) = k_heap s" "k_heap (print_dec n s) = k_heap s" "k_heap (print_hex n s) = k_heap s"
  "k_heap (fold (\<lambda>i. putc (f i)) is s) = k_heap s"
  by (rule keeps_fields, simp add: keeps_fold)+

lemma same_alloc: "\<exists>p. h = h\<lparr>test_alloc_ptr := p\<rparr>"
  by (rule exI [of _ "test_alloc_ptr h"]) simp

lemma k_shell_heap_cmds:
  "cmd_mem env s = Some s' \<Longrightarrow> k_shell s' = k_shell s"
  "cmd_alloc env args s = Some s' \<Longrightarrow> \<exists>p. k_shell s' = (k_shell s)\<lparr>test_alloc_ptr := p\<rparr>"
  "cmd_free env s = Some s' \<Longrightarrow> \<exists>p. k_shell s' = (k_shell s)\<lparr>test_alloc_ptr := p\<rparr>"
  by (auto simp: cmd_mem_def cmd_alloc_def cmd_free_def Let_def bind_eq_Some_conv set_test_alloc_def same_alloc
      split: if_splits)

lemma run_heap_command:
  "cmd_is args ''mem'' \<Longrightarrow> run_command env args s = cmd_mem env s"
  "cmd_is args ''alloc'' \<Longrightarrow> run_command env args s = cmd_alloc env args s"
  "cmd_is args ''free'' \<Longrightarrow> run_command env args s = cmd_free env s"
  by (simp_all add: run_command_def Let_def sh_strcmp_def strcmp_0)

lemma heap_cmds_keep:
  "cmd_mem env s = Some s' \<Longrightarrow> keeps (s\<lparr>k_heap := k_heap s', k_shell := k_shell s'\<rparr>) s'"
  "cmd_alloc env args s = Some s' \<Longrightarrow> keeps (s\<lparr>k_heap := k_heap s', k_shell := k_shell s'\<rparr>) s'"
  "cmd_free env s = Some s' \<Longrightarrow> keeps (s\<lparr>k_heap := k_heap s', k_shell := k_shell s'\<rparr>) s'"
  by (auto simp: cmd_mem_def cmd_alloc_def cmd_free_def Let_def bind_eq_Some_conv set_test_alloc_def upd_shell_def keeps_fold
      split: if_splits)

text \<open>Whatever the command: besides what \<open>keeps\<close> allows, only the heap and the shell's own variables.\<close>

lemma run_keeps_rest:
  assumes "run_command env args s = Some s'"
  shows "keeps (s\<lparr>k_heap := k_heap s', k_shell := k_shell s'\<rparr>) s'"
proof -
  consider "cmd_is args ''mem''" | "cmd_is args ''alloc''" | "cmd_is args ''free''"
    | "\<not> cmd_is args ''mem''" "\<not> cmd_is args ''alloc''" "\<not> cmd_is args ''free''" by blast
  then show ?thesis
  proof cases
    case 4
    from run_keeps [OF assms this] show ?thesis by (simp add: keeps_fields)
  qed (use assms in \<open>auto simp: run_heap_command intro: heap_cmds_keep\<close>)
qed

lemma run_k_shell:
  assumes "run_command env args s = Some s'"
  shows "\<exists>p. k_shell s' = (k_shell s)\<lparr>test_alloc_ptr := p\<rparr>"
proof -
  consider "cmd_is args ''mem''" | "cmd_is args ''alloc''" | "cmd_is args ''free''"
    | "\<not> cmd_is args ''mem''" "\<not> cmd_is args ''alloc''" "\<not> cmd_is args ''free''" by blast
  then show ?thesis
  proof cases
    case 1
    with assms have "cmd_mem env s = Some s'" by (simp add: run_heap_command)
    from k_shell_heap_cmds(1) [OF this] show ?thesis by (simp add: same_alloc)
  next
    case 4
    from keeps_fields(1) [OF run_keeps [OF assms this]] show ?thesis by (simp add: same_alloc)
  qed (use assms in \<open>auto simp: run_heap_command dest: k_shell_heap_cmds\<close>)
qed

lemma history_add_frame:
  "history_add cmd h = h\<lparr>command_history := command_history (history_add cmd h), history_count := history_count (history_add cmd h)\<rparr>"
  by (simp add: history_add_def Let_def)

lemma history_add_buffer [simp]: "buffer (history_add cmd h) = buffer h"
  by (subst history_add_frame) simp

lemma split_loop_Nil_iff: "split_loop k xs = [] \<longleftrightarrow> k = 0 \<or> xs = []"
  by (cases k) (simp_all add: Let_def)

lemma split_args_Nil: "split_args b = [] \<longleftrightarrow> list_all (\<lambda>c. c = CHR '' '') (cstr b)"
  by (simp add: split_args_def split_loop_Nil_iff MAX_ARGS_def list_all_iff)

text \<open>The line terminated, the position in the history and the saved line forgotten.\<close>

lemma entered:
  assumes "shell_inv h"
  defines "h' \<equiv> h\<lparr>buffer := (buffer h)[buf_idx h := NUL], history_index := -1, saved_buf_idx := 0,
    saved_buffer := (saved_buffer h)[0 := NUL]\<rparr>"
  shows "shell_inv h'" "shell_view h' = (shell_view h)\<lparr>ed_pos := None, ed_saved := []\<rparr>"
    "cstr (buffer h') = ed_line (shell_view h)" "length (buffer h') = 128" "NUL \<in> set (buffer h')"
proof -
  note d = shell_invD [OF assms(1)]
  let ?n = "buf_idx h" and ?b = "(buffer h)[buf_idx h := NUL]"
  have n: "?n < 128" "NUL \<notin> set (take ?n (buffer h))" using d(3) by (auto simp: line_buffer_def)
  have b: "length ?b = 128" "NUL \<in> set ?b" "take ?n ?b = take ?n (buffer h)" "?b ! ?n = NUL"
    using n d(1) by (simp_all add: set_update_memI)
  have "line_buffer ?b ?n" using n b by (auto simp: line_buffer_def)
  moreover have "line_buffer ((saved_buffer h)[0 := NUL]) 0" using d(2) by (auto simp: line_buffer_def intro: set_update_memI)
  ultimately show "shell_inv h'" using assms(1) by (simp add: h'_def shell_inv_def)
  show "shell_view h' = (shell_view h)\<lparr>ed_pos := None, ed_saved := []\<rparr>" using b by (simp add: h'_def shell_view_def)
  have "?b = take ?n (buffer h) @ NUL # drop (Suc ?n) (buffer h)" using n d(1) by (simp add: upd_conv_take_nth_drop)
  then have "cstr ?b = take ?n (buffer h)" using cstr_terminated n(2) by metis
  then show "cstr (buffer h') = ed_line (shell_view h)" by (simp add: h'_def shell_view_def)
  show "length (buffer h') = 128" "NUL \<in> set (buffer h')" using b by (simp_all add: h'_def)
qed

lemma execute_refines:
  assumes inv: "shell_inv (k_shell s)" and run: "execute_command env s = Some s'"
  shows "shell_inv (k_shell s') \<and> shell_view (k_shell s') = spec_enter (shell_view (k_shell s))"
proof -
  let ?h = "k_shell s" and ?e = "shell_view (k_shell s)"
  define h1 where "h1 = ?h\<lparr>buffer := (buffer ?h)[buf_idx ?h := NUL], history_index := -1, saved_buf_idx := 0,
    saved_buffer := (saved_buffer ?h)[0 := NUL]\<rparr>"
  note h1 = entered [OF inv, folded h1_def]
  define h2 where "h2 = history_add (buffer h1) h1"
  obtain H n where h2: "h2 = h1\<lparr>command_history := H, history_count := n\<rparr>" using history_add_frame unfolding h2_def by blast
  have hi: "h2\<lparr>history_index := -1\<rparr> = h2" by (simp add: h2 h1_def)
  have r: "shell_inv h2" "ed_hist (shell_view h2) = spec_history_add (ed_line ?e) (ed_hist ?e)"
    using history_add_refines [OF h1(1,4,5)] h1(2,3) hi by (simp_all add: h2_def [symmetric])
  have v2: "shell_view h2 = ?e\<lparr>ed_hist := spec_history_add (ed_line ?e) (ed_hist ?e), ed_pos := None, ed_saved := []\<rparr>"
    using r(2) h1(2) by (simp add: h2 shell_view_def split: if_splits)
  have line: "ed_line ?e = take (buf_idx ?h) (buffer ?h)" by (simp add: shell_view_def)
  have args: "split_args (buffer h2) = [] \<longleftrightarrow> list_all (\<lambda>c. c = CHR '' '') (ed_line ?e)"
    using h1(3) by (simp add: h2 split_args_Nil)
  consider "buf_idx h1 = 0" | "buf_idx h1 \<noteq> 0" "split_args (buffer h2) = []" | "buf_idx h1 \<noteq> 0" "split_args (buffer h2) \<noteq> []" by blast
  then show ?thesis
  proof cases
    case 1
    then have "k_shell s' = h1" using run by (auto simp: execute_command_def Let_def h1_def print_prompt_def)
    moreover have "ed_line ?e = []" using 1 line by (simp add: h1_def)
    ultimately show ?thesis using h1 by (simp add: spec_enter_def spec_history_add_def)
  next
    case 2
    then have "k_shell s' = h2" using run by (auto simp: execute_command_def Let_def h1_def h2_def print_prompt_def)
    with 2 args r(1) v2 show ?thesis by (simp add: spec_enter_def)
  next
    case 3
    let ?s2 = "upd_shell (history_add (buffer h1)) (upd_shell (\<lambda>h. h\<lparr>buffer := (buffer h)[buf_idx h := NUL], history_index := -1,
      saved_buf_idx := 0, saved_buffer := (saved_buffer h)[0 := NUL]\<rparr>) s)"
    have s2: "k_shell ?s2 = h2" by (simp add: h2_def h1_def)
    from 3 obtain s3 where s: "run_command env (split_args (buffer h2)) ?s2 = Some s3" "k_shell s' = (k_shell s3)\<lparr>buf_idx := 0\<rparr>"
      using run by (auto simp: execute_command_def Let_def h1_def h2_def print_prompt_def bind_eq_Some_conv)
    from run_k_shell [OF s(1)] s2 s(2) obtain p where "k_shell s' = h2\<lparr>test_alloc_ptr := p, buf_idx := 0\<rparr>" by auto
    with 3 args r(1) v2 shell_invD(3) [OF r(1)] show ?thesis
      by (simp add: spec_enter_def shell_inv_def shell_view_def line_buffer_def split: if_splits)
  qed
qed

section \<open>The heap behind the commands\<close>

text \<open>The heap is well formed, and the pointer the shell keeps is NULL or the start of a payload in use.\<close>

definition shell_heap_ok :: "kernel \<Rightarrow> bool" where
  "shell_heap_ok s \<longleftrightarrow> (\<exists>bs. heap_rep (k_heap s) bs \<and>
     (test_alloc_ptr (k_shell s) = 0 \<or> (\<exists>n. (unat (test_alloc_ptr (k_shell s)), n) \<in> in_use START bs)))"

lemma align4_dvd: "4 dvd unat (align4 sz)"
proof (cases "unat sz \<le> 2 ^ 32 - 4")
  case True
  with align4_unat rounded_props(1) [of sz] show ?thesis by (simp add: rounded_def)
next
  case False
  then have "unat sz \<in> {unat (0xFFFFFFFD :: u32), unat (0xFFFFFFFE :: u32), unat (0xFFFFFFFF :: u32)}" using unat_u32 [of sz] by auto
  then have "sz \<in> {0xFFFFFFFD, 0xFFFFFFFE, 0xFFFFFFFF}" unfolding insert_iff empty_iff word_unat_eq_iff .
  moreover have "align4 0xFFFFFFFD = 0" "align4 0xFFFFFFFE = 0" "align4 0xFFFFFFFF = 0" by code_simp+
  ultimately show ?thesis by auto
qed

text \<open>Any request that is not empty, whatever its size.\<close>

lemma kmalloc_any:
  assumes "heap_rep h bs" and "sz \<noteq> 0"
  shows "\<exists>p h' bs'. kmalloc cur w sz h = Some (p, h') \<and> heap_rep h' bs' \<and> (p = 0 \<or> (\<exists>n. (unat p, n) \<in> in_use START bs'))"
proof -
  obtain r bs' where ff: "first_fit (unat (align4 sz)) START bs = (r, bs')" by fastforce
  from kmalloc_runs [OF assms align4_dvd ff] obtain h' where h': "kmalloc cur w sz h = Some (ptr_of r, h')" "heap_rep h' bs'" by blast
  show ?thesis
  proof (cases r)
    case None
    with h' show ?thesis by (auto simp: ptr_of_def)
  next
    case (Some p)
    with first_fit_in_use [of _ _ _ p bs'] ff obtain n where n: "(p, n) \<in> in_use START bs'" by blast
    with in_use_addr(1) [OF h'(2) n] Some h' show ?thesis by (auto simp: ptr_of_def)
  qed
qed

lemma heap_cmds_safe:
  assumes "shell_heap_ok s"
  shows "\<exists>s'. cmd_mem env s = Some s' \<and> shell_heap_ok s'" "\<exists>s'. cmd_alloc env args s = Some s' \<and> shell_heap_ok s'"
    "\<exists>s'. cmd_free env s = Some s' \<and> shell_heap_ok s'"
proof -
  let ?p = "test_alloc_ptr (k_shell s)"
  obtain bs where rep: "heap_rep (k_heap s) bs" and ptr: "?p = 0 \<or> (\<exists>n. (unat ?p, n) \<in> in_use START bs)"
    using assms by (auto simp: shell_heap_ok_def)
  show "\<exists>s'. cmd_mem env s = Some s' \<and> shell_heap_ok s'"
    using rep ptr by (auto simp: cmd_mem_def heap_get_used_refines heap_get_free_def shell_heap_ok_def)
  show "\<exists>s'. cmd_alloc env args s = Some s' \<and> shell_heap_ok s'"
  proof (cases "?p = 0")
    case False
    with rep ptr show ?thesis by (auto simp: cmd_alloc_def shell_heap_ok_def)
  next
    case True
    define sz where "sz = (if length args \<ge> 2 then let n = parse_u32 0 (args ! 1) in if n = 0 then 1024 else n else 1024)"
    have "sz \<noteq> 0" by (simp add: sz_def Let_def)
    from kmalloc_any [OF rep this, of "k_cur s" "e_heap env"] obtain p h' bs' where
      "kmalloc (k_cur s) (e_heap env) sz (k_heap s) = Some (p, h')" "heap_rep h' bs'" "p = 0 \<or> (\<exists>n. (unat p, n) \<in> in_use START bs')"
      by blast
    with True show ?thesis
      by (auto simp: cmd_alloc_def sz_def [symmetric] shell_heap_ok_def set_test_alloc_def upd_shell_def Let_def)
  qed
  show "\<exists>s'. cmd_free env s = Some s' \<and> shell_heap_ok s'"
  proof (cases "?p = 0")
    case True
    with rep show ?thesis by (auto simp: cmd_free_def shell_heap_ok_def)
  next
    case False
    with ptr obtain n where n: "(unat ?p, n) \<in> in_use START bs" by blast
    have "addr (unat ?p) = ?p" by (simp add: addr_def)
    with kfree_refines [OF rep n, of "k_cur s" "e_heap env"] False show ?thesis
      by (auto simp: cmd_free_def shell_heap_ok_def set_test_alloc_def upd_shell_def)
  qed
qed

lemma run_heap_ok:
  assumes "shell_heap_ok s" and "run_command env args s = Some s'"
  shows "shell_heap_ok s'"
proof -
  consider "cmd_is args ''mem''" | "cmd_is args ''alloc''" | "cmd_is args ''free''"
    | "\<not> cmd_is args ''mem''" "\<not> cmd_is args ''alloc''" "\<not> cmd_is args ''free''" by blast
  then show ?thesis
  proof cases
    case 4
    with keeps_fields [OF run_keeps [OF assms(2) 4]] assms(1) show ?thesis by (simp add: shell_heap_ok_def)
  qed (use heap_cmds_safe(1,3) [OF assms(1), of env] heap_cmds_safe(2) [OF assms(1), of env args] assms(2) in
      \<open>auto simp: run_heap_command\<close>)
qed

section \<open>Numbers read back\<close>

lemma parse_u32_dec: "parse_u32 (of_nat acc) str = of_nat (parse_dec acc str)"
proof (induction str arbitrary: acc)
  case (Cons c str)
  have "(of_nat acc * 10 + of_nat (of_char c - 48) :: u32) = of_nat (acc * 10 + (of_char c - 48))" by simp
  then show ?case using Cons.IH [of "acc * 10 + (of_char c - 48)"] by simp
qed simp

lemma parse_u32_string: "parse_u32 0 (dec_string n) = of_nat n"
  using parse_u32_dec [of 0 "dec_string n"] by (simp add: parse_dec_string)

definition int_text :: "int \<Rightarrow> string" where
  "int_text z = (if z < 0 then CHR ''-'' # dec_string (nat (- z)) else dec_string (nat z))"

lemma dec_string_Cons: "\<exists>c str. dec_string n = c # str \<and> is_digit c"
  using dec_string_digits [of n] by (cases "dec_string n") (auto simp: dec_string.simps [of n] split: if_splits)

lemma parse_int32_text: "parse_int32 (int_text z) = word_of_int z"
proof (cases "z < 0")
  case True
  then have "(of_nat (nat (- z)) :: u32) = word_of_int (- z)" by simp
  with True show ?thesis by (simp add: parse_int32_def int_text_def parse_u32_string)
next
  case False
  obtain c str where c: "dec_string (nat z) = c # str" "is_digit c" using dec_string_Cons by blast
  then have "c \<noteq> CHR ''-''" by (auto simp: is_digit_def)
  with c False show ?thesis using parse_u32_string [of "nat z"] by (simp add: parse_int32_def int_text_def)
qed

lemma nibble_of_digit: "v < 16 \<Longrightarrow> nibble_of (hex_digits ! v) = Some (of_nat v)"
proof -
  assume "v < 16"
  moreover have "list_all (\<lambda>v. nibble_of (hex_digits ! v) = Some (of_nat v)) [0..<16]" by code_simp
  ultimately show ?thesis by (simp add: list_all_iff)
qed

lemma hex_step: "v < 16 \<Longrightarrow> push_bit 4 (a :: u32) OR of_nat v = a * 16 + of_nat v"
proof -
  assume "v < 16"
  then have "take_bit 4 v = v" by (simp add: take_bit_eq_mod)
  then have v: "(of_nat v :: u32) = take_bit 4 (of_nat v)" by (simp add: take_bit_of_nat)
  have "push_bit 4 a AND of_nat v = 0" by (subst v) (auto simp: bit_eq_iff bit_simps)
  then have "push_bit 4 a + of_nat v = push_bit 4 a OR of_nat v" by (rule disjunctive_add_eq_or)
  then show ?thesis by (simp add: push_bit_eq_mult)
qed

lemma hex_loop_digits:
  "hex_loop (of_nat (n div 16 ^ k)) (map (\<lambda>i. hex_digits ! (n div 16 ^ i mod 16)) (rev [0..<k])) = of_nat n"
proof (induction k)
  case (Suc k)
  have "n div 16 ^ Suc k = n div 16 ^ k div 16" by (metis div_mult2_eq power_Suc2)
  then have "n div 16 ^ Suc k * 16 + n div 16 ^ k mod 16 = n div 16 ^ k" by simp
  from arg_cong [OF this, of "of_nat :: nat \<Rightarrow> u32"]
  have "of_nat (n div 16 ^ Suc k) * 16 + of_nat (n div 16 ^ k mod 16) = (of_nat (n div 16 ^ k) :: u32)"
    by (simp only: of_nat_add of_nat_mult of_nat_numeral)
  then show ?case using Suc by (simp add: nibble_of_digit hex_step del: power_Suc)
qed simp

lemma parse_hex_text: "parse_hex (hex_text n) = n"
proof -
  have "unat n div 16 ^ 8 = 0" using unat_u32 [of n] by simp
  then show ?thesis using hex_loop_digits [of "unat n" 8] by (simp add: parse_hex_def hex_text_def upt_rec)
qed

text \<open>What the calculator computes.\<close>

definition calc_value :: "char \<Rightarrow> int \<Rightarrow> int \<Rightarrow> int" where
  "calc_value opr x y =
     (if opr = CHR ''+'' then x + y else if opr = CHR ''-'' then x - y else if opr = CHR ''*'' then x * y else x sdiv y)"

definition fits32 :: "int \<Rightarrow> bool" where
  "fits32 z \<longleftrightarrow> - (2 ^ 31) < z \<and> z < 2 ^ 31"

lemma sint_fits: "fits32 z \<Longrightarrow> sint (word_of_int z :: u32) = z"
  by (simp add: fits32_def sint_sbintrunc' signed_take_bit_int_eq_self)

lemma print_result_text:
  assumes "fits32 z"
  shows "print_result (word_of_int z) s = fold putc (newline # ''Result: '' @ int_text z) s"
proof -
  have u: "unat (word_of_int k :: u32) = nat k" if "0 \<le> k" "k < 2 ^ 31" for k :: int
    using that by (simp add: unat_eq_nat_uint uint_word_of_int)
  define pre where "pre = newline # ''Result: ''"
  have p: "print_str pre s = fold putc pre s" by (simp add: print_str_def pre_def)
  have m: "- word_of_int z = (word_of_int (- z) :: u32)" by simp
  have "print_result (word_of_int z) s = fold putc (int_text z) (fold putc pre s)"
  proof (cases "z < 0")
    case True
    with assms u [of "- z"] have "unat (word_of_int (- z) :: u32) = nat (- z)" by (simp add: fits32_def)
    with True show ?thesis
      unfolding print_result_def pre_def [symmetric] Let_def p sint_fits [OF assms] m int_text_def print_dec_text by simp
  next
    case False
    with assms u [of z] have "unat (word_of_int z :: u32) = nat z" by (simp add: fits32_def)
    with False show ?thesis
      unfolding print_result_def pre_def [symmetric] Let_def p sint_fits [OF assms] m int_text_def print_dec_text by simp
  qed
  then show ?thesis by (simp only: pre_def fold_append comp_apply append_Cons [symmetric])
qed

lemma word_eq_fits: "fits32 z \<Longrightarrow> fits32 z' \<Longrightarrow> (word_of_int z :: u32) = word_of_int z' \<longleftrightarrow> z = z'"
  by (metis sint_fits)

lemma div_fits: "fits32 x \<Longrightarrow> fits32 y \<Longrightarrow> div_int32 (word_of_int x) (word_of_int y) = Some (word_of_int (x sdiv y))"
proof -
  assume f: "fits32 x" "fits32 y"
  have "sint (0x80000000 :: u32) = - (2 ^ 31)" by simp
  with sint_fits [OF f(1)] f(1) have "word_of_int x \<noteq> (0x80000000 :: u32)" by (auto simp: fits32_def)
  with f show ?thesis by (simp add: div_int32_def sint_fits)
qed

lemma calc_computes:
  assumes "fits32 x" "fits32 y" "fits32 (calc_value opr x y)" "opr \<in> set ''+-*/''" "opr = CHR ''/'' \<longrightarrow> y \<noteq> 0"
  shows "cmd_calc [c, int_text x, [opr], int_text y] s = Some (print_result (word_of_int (calc_value opr x y)) s)"
proof -
  have a: "[c, int_text x, [opr], int_text y] ! 1 = int_text x" "[c, int_text x, [opr], int_text y] ! 2 = [opr]"
    "[c, int_text x, [opr], int_text y] ! 3 = int_text y" by simp_all
  have "(word_of_int y :: u32) = 0 \<longleftrightarrow> y = 0"
    using word_eq_fits [OF assms(2), of 0] by (simp add: fits32_def)
  with assms div_fits [OF assms(1,2)] show ?thesis
    unfolding cmd_calc_def a parse_int32_text Let_def by (auto simp: calc_value_def)
qed

text \<open>Three commands that \<open>help\<close> announces are unknown.\<close>

lemma help_without_command:
  assumes "name \<in> {''touch'', ''write'', ''rm''}"
  shows "run_command env (name # args) s = Some (cmd_unknown name s)"
proof -
  have "\<not> cmd_is (name # args) c" if "c \<in> {''help'', ''history'', ''clear'', ''uptime'', ''ticks'', ''sysinfo'', ''logs'', ''loglevel'',
      ''logclear'', ''pages'', ''vmmap'', ''ring'', ''siglist'', ''testsig'', ''tasks'', ''ps'', ''spawn'', ''mem'', ''alloc'', ''free'',
      ''hexdump'', ''ls'', ''cat'', ''echo'', ''calc'', ''sem'', ''sys'', ''reboot'', ''shutdown''}" for c
    using assms that unfolding sh_strcmp_def strcmp_0 by (elim insertE emptyE) simp_all
  then show ?thesis by (simp add: run_command_def Let_def)
qed

section \<open>Properties\<close>

text \<open>
  C17. Enter. Whatever command was typed, if it returns then the command line is again well formed: the line has gone
  to the history (unless it repeats the last entry, and with the oldest of twenty entries dropped), the position in
  the history and the saved line are reset, and the line is empty. The exception is a line of spaces: it goes to the
  history too, but it stays on the command line behind the new prompt.
\<close>

theorem enter_line:
  assumes "shell_inv (k_shell s)" and "shell_handle_key env newline s = Some s'"
  shows "shell_inv (k_shell s') \<and> shell_view (k_shell s') = spec_enter (shell_view (k_shell s))"
proof -
  obtain s1 where "execute_command env s1 = Some s'" and s1: "k_shell s1 = k_shell s"
    using assms(2) by (cases "terminal_get_view_offset (k_term s) = 0") (auto simp: shell_handle_key_def)
  with execute_refines [of s1] assms(1) show ?thesis by simp
qed

text \<open>
  C11. No command corrupts the heap. If the heap is well formed and the shell's own pointer is NULL or a payload in use,
  this holds after every command that returns, with any arguments, a size that wraps to nothing among them; and
  \<open>mem\<close>, \<open>alloc\<close> and \<open>free\<close> do return.
\<close>

theorem commands_keep_heap:
  assumes "shell_heap_ok s"
  shows "(run_command env args s = Some s' \<longrightarrow> shell_heap_ok s') \<and>
    (cmd_is args ''mem'' \<or> cmd_is args ''alloc'' \<or> cmd_is args ''free'' \<longrightarrow> (\<exists>s'. run_command env args s = Some s'))"
  using run_heap_ok [OF assms] heap_cmds_safe(1,3) [OF assms, of env] heap_cmds_safe(2) [OF assms, of env args]
  by (auto simp: run_heap_command)

text \<open>
  Commands stay in their place: a command other than \<open>mem\<close>, \<open>alloc\<close> and \<open>free\<close> changes nothing but the screen, the
  paging lock and the signal, process and log state; in particular no interrupt table, timer, task, file, segment,
  key or command line.
\<close>

theorem commands_contained:
  assumes "run_command env args s = Some s'"
    and "\<not> cmd_is args ''mem''" "\<not> cmd_is args ''alloc''" "\<not> cmd_is args ''free''"
  shows "s' = s\<lparr>k_term := k_term s', k_sig := k_sig s', k_paging := k_paging s'\<rparr>"
  using arg_cong [OF run_keeps [OF assms, unfolded keeps_def], of "\<lambda>r. r\<lparr>k_term := k_term s', k_sig := k_sig s', k_paging := k_paging s'\<rparr>"]
  by simp

text \<open>
  C37. Addresses survive being printed and typed in again: the eight digits that \<open>print_hex\<close> and the panic screen print
  are the same text, and \<open>hexdump\<close> reads it back as the number printed.
\<close>

theorem hex_roundtrip:
  "parse_hex (hex_text n) = n \<and> print_hex n s = fold putc (hex_text n) s \<and>
    panic_print_hex n (t, out) = (fold terminal_putchar (hex_text n) t, out @ hex_text n)"
  by (simp add: parse_hex_text print_hex_text panic_print_hex_eq)

text \<open>
  The calculator is right: for two integers typed in decimal and an operator, as long as operands and result fit
  in 32 bits, what appears is the decimal text of the sum, difference, product or quotient rounded towards zero; a
  divisor of zero is refused.
\<close>

theorem calc_correct:
  assumes "fits32 x" "fits32 y" and "opr \<in> set ''+-*/''"
  shows "(opr = CHR ''/'' \<and> y = 0 \<longrightarrow> cmd_calc [c, int_text x, [opr], int_text y] s = Some (print_str (newline # ''Div/0!'') s)) \<and>
    (\<not> (opr = CHR ''/'' \<and> y = 0) \<and> fits32 (calc_value opr x y) \<longrightarrow>
      cmd_calc [c, int_text x, [opr], int_text y] s = Some (fold putc (newline # ''Result: '' @ int_text (calc_value opr x y)) s))"
proof (intro conjI impI)
  assume "opr = CHR ''/'' \<and> y = 0"
  moreover have "[c, int_text x, [opr], int_text y] ! 2 = [opr]" "[c, int_text x, [opr], int_text y] ! 3 = int_text y" by simp_all
  ultimately show "cmd_calc [c, int_text x, [opr], int_text y] s = Some (print_str (newline # ''Div/0!'') s)"
    unfolding cmd_calc_def using parse_int32_text [of 0] by simp
next
  assume z: "\<not> (opr = CHR ''/'' \<and> y = 0) \<and> fits32 (calc_value opr x y)"
  then have "cmd_calc [c, int_text x, [opr], int_text y] s = Some (print_result (word_of_int (calc_value opr x y)) s)"
    using calc_computes [OF assms(1,2) _ assms(3)] by blast
  with z print_result_text show "cmd_calc [c, int_text x, [opr], int_text y] s =
      Some (fold putc (newline # ''Result: '' @ int_text (calc_value opr x y)) s)" by metis
qed

section \<open>Witnesses\<close>

lemma quiet_heap: "shell_heap_ok quiet_kernel"
  using init_heap_rep [of raw_heap] by (auto simp: shell_heap_ok_def quiet_kernel_def)

text \<open>One space typed, then Enter.\<close>

definition blank_line :: kernel where
  "blank_line = insert_key CHR '' '' quiet_kernel"

theorem enter_line_witness:
  "\<exists>s'. shell_handle_key quiet_env newline blank_line = Some s' \<and> ed_line (shell_view (k_shell s')) = '' '' \<and>
    ed_hist (shell_view (k_shell s')) = ['' '']"
proof -
  have k: "shell_inv (k_shell blank_line)" "shell_view (k_shell blank_line) = \<lparr>ed_line = '' '', ed_hist = [], ed_pos = None, ed_saved = []\<rparr>"
    using insert_refines [OF quiet_shell, of "CHR '' ''"] by (simp_all add: blank_line_def) (simp add: quiet_kernel_def shell_view_def)
  obtain s1 where s1: "shell_handle_key quiet_env newline blank_line = execute_command quiet_env s1" "k_shell s1 = k_shell blank_line"
    by (cases "terminal_get_view_offset (k_term blank_line) = 0") (auto simp: shell_handle_key_def)
  have "\<exists>s'. execute_command quiet_env s1 = Some s'"
    using entered [OF k(1)] s1(2) k(2)
    by (auto simp: execute_command_def Let_def split_args_Nil split: if_splits)
  with s1 obtain s' where run: "shell_handle_key quiet_env newline blank_line = Some s'" by auto
  from enter_line [OF k(1) run] k(2) run show ?thesis by (simp add: spec_enter_def spec_history_add_def last_n_def)
qed

theorem commands_keep_heap_witness:
  "\<exists>s'. run_command quiet_env [''alloc'', ''4294967295''] quiet_kernel = Some s' \<and> shell_heap_ok s'"
proof -
  have "cmd_is [''alloc'', ''4294967295''] ''alloc''" by (simp add: sh_strcmp_def strcmp_0)
  with commands_keep_heap [OF quiet_heap, of quiet_env "[''alloc'', ''4294967295'']"] show ?thesis by blast
qed

theorem commands_contained_witness:
  "\<exists>s'. run_command quiet_env [''touch'', ''f''] quiet_kernel = Some s' \<and> k_files s' = k_files quiet_kernel"
proof -
  have run: "run_command quiet_env [''touch'', ''f''] quiet_kernel = Some (cmd_unknown ''touch'' quiet_kernel)"
    by (rule help_without_command) simp
  have "cmd_unknown ''touch'' quiet_kernel = quiet_kernel\<lparr>k_term := k_term (cmd_unknown ''touch'' quiet_kernel),
      k_sig := k_sig (cmd_unknown ''touch'' quiet_kernel), k_paging := k_paging (cmd_unknown ''touch'' quiet_kernel)\<rparr>"
    by (rule commands_contained [OF run]) (simp_all add: sh_strcmp_def strcmp_0)
  from arg_cong [OF this, of k_files] run show ?thesis by simp
qed

theorem calc_correct_witness:
  "cmd_calc [''calc'', ''-7'', ''/'', ''2''] quiet_kernel = Some (fold putc (newline # ''Result: -3'') quiet_kernel) \<and>
   cmd_calc [''calc'', ''5'', ''/'', ''0''] quiet_kernel = Some (print_str (newline # ''Div/0!'') quiet_kernel)"
proof -
  have texts: "int_text (-7) = ''-7''" "int_text 2 = ''2''" "int_text 5 = ''5''" "int_text 0 = ''0''" "int_text (-3) = ''-3''"
    by code_simp+
  have v: "calc_value CHR ''/'' (-7) 2 = -3" by (simp add: calc_value_def signed_divide_int_def)
  show ?thesis
    using calc_correct [of "-7" 2 "CHR ''/''" "''calc''" quiet_kernel] calc_correct [of 5 0 "CHR ''/''" "''calc''" quiet_kernel]
    unfolding v texts by (simp add: fits32_def del: fold_simps)
qed

end
