(* ===== verification/Keyboard.thy ===== *)
theory Keyboard
  imports Shell
begin

text \<open>
  \<^verbatim>\<open>keyboard.c\<close>: the scancode table and the interrupt handler that turns scancodes into keys of the shell, steps in the
  history and scrolling. The scancode is what the port 0x60 holds when the handler reads it.
\<close>

section \<open>Model\<close>

definition SCANCODE_EXTENDED :: u8 where "SCANCODE_EXTENDED = 0xE0"
definition SCANCODE_PAGE_UP :: u8 where "SCANCODE_PAGE_UP = 0x49"
definition SCANCODE_PAGE_DOWN :: u8 where "SCANCODE_PAGE_DOWN = 0x51"
definition SCANCODE_HOME :: u8 where "SCANCODE_HOME = 0x47"
definition SCANCODE_END :: u8 where "SCANCODE_END = 0x4F"
definition SCANCODE_UP_ARROW :: u8 where "SCANCODE_UP_ARROW = 0x48"
definition SCANCODE_DOWN_ARROW :: u8 where "SCANCODE_DOWN_ARROW = 0x50"
definition SCANCODE_LEFT_CTRL :: u8 where "SCANCODE_LEFT_CTRL = 0x1D"
definition SCANCODE_LEFT_CTRL_RELEASE :: u8 where "SCANCODE_LEFT_CTRL_RELEASE = 0x9D"

lemmas scancodes = SCANCODE_EXTENDED_def SCANCODE_PAGE_UP_def SCANCODE_PAGE_DOWN_def SCANCODE_HOME_def SCANCODE_END_def
  SCANCODE_UP_ARROW_def SCANCODE_DOWN_ARROW_def SCANCODE_LEFT_CTRL_def SCANCODE_LEFT_CTRL_RELEASE_def

definition scancode_qwerty :: "char list" where
  "scancode_qwerty = [NUL, CHR 0x1B] @ ''1234567890-='' @ [backspace, CHR 0x09] @ ''qwertyuiop[]'' @ [newline, NUL] @
     ''asdfghjkl;'' @ [CHR 0x27, CHR 0x60, NUL, CHR 0x5C] @ ''zxcvbnm,./'' @ [NUL, CHR ''*'', NUL, CHR '' '']"

definition upd_kbd :: "(keyboard \<Rightarrow> keyboard) \<Rightarrow> kernel \<Rightarrow> kernel" where
  "upd_kbd f s = s\<lparr>k_kbd := f (k_kbd s)\<rparr>"

definition upd_term :: "(terminal \<Rightarrow> terminal) \<Rightarrow> kernel \<Rightarrow> kernel" where
  "upd_term f s = s\<lparr>k_term := f (k_term s)\<rparr>"

text \<open>The last part of the handler, for a key that is not handled otherwise.\<close>

definition plain_key :: "env \<Rightarrow> u8 \<Rightarrow> kernel \<Rightarrow> kernel option" where
  "plain_key env scancode s =
     (if unat scancode < length scancode_qwerty then
        let c = scancode_qwerty ! unat scancode in
        if c \<noteq> NUL then shell_handle_key env c (upd_term terminal_scroll_to_bottom s) else Some s
      else Some s)"

definition keyboard_callback :: "env \<Rightarrow> u8 \<Rightarrow> kernel \<Rightarrow> kernel option" where
  "keyboard_callback env scancode s =
     (if scancode = SCANCODE_EXTENDED then Some (upd_kbd (\<lambda>k. k\<lparr>extended_mode := True\<rparr>) s)
      else if scancode = SCANCODE_LEFT_CTRL then Some (upd_kbd (\<lambda>k. k\<lparr>ctrl_pressed := True\<rparr>) s)
      else if scancode = SCANCODE_LEFT_CTRL_RELEASE then Some (upd_kbd (\<lambda>k. k\<lparr>ctrl_pressed := False\<rparr>) s)
      else if scancode AND 0x80 \<noteq> 0 then Some (upd_kbd (\<lambda>k. k\<lparr>extended_mode := False\<rparr>) s)
      else if extended_mode (k_kbd s) then
        let s = upd_kbd (\<lambda>k. k\<lparr>extended_mode := False\<rparr>) s in
        if scancode = SCANCODE_PAGE_UP then Some (upd_term (terminal_scroll_up 10) s)
        else if scancode = SCANCODE_PAGE_DOWN then Some (upd_term (terminal_scroll_down 10) s)
        else if scancode = SCANCODE_HOME then Some (if ctrl_pressed (k_kbd s) then upd_term terminal_scroll_to_top s else s)
        else if scancode = SCANCODE_END then Some (if ctrl_pressed (k_kbd s) then upd_term terminal_scroll_to_bottom s else s)
        else if scancode = SCANCODE_UP_ARROW then Some (shell_history_up s)
        else if scancode = SCANCODE_DOWN_ARROW then Some (shell_history_down s)
        else plain_key env scancode s
      else plain_key env scancode s)"

definition init_keyboard :: "kernel \<Rightarrow> kernel" where
  "init_keyboard s = register_interrupt_handler 33 ISR_KEYBOARD (upd_kbd (\<lambda>k. k\<lparr>ctrl_pressed := False, extended_mode := False\<rparr>) s)"

text \<open>A sequence of interrupts, one for each scancode.\<close>

fun keyboard_run :: "env \<Rightarrow> u8 list \<Rightarrow> kernel \<Rightarrow> kernel option" where
  "keyboard_run env [] s = Some s"
| "keyboard_run env (code # codes) s = do { s \<leftarrow> keyboard_callback env code s; keyboard_run env codes s }"

lemma keyboard_run_append: "keyboard_run env (xs @ ys) s = Option.bind (keyboard_run env xs s) (keyboard_run env ys)"
proof (induction xs arbitrary: s)
  case (Cons x xs)
  then show ?case by (cases "keyboard_callback env x s") simp_all
qed simp

section \<open>Keys\<close>

text \<open>
  What a keyboard sends for a key that is pressed and released: the position of the key in the table, or one of the
  two arrows, whose codes follow the prefix 0xE0.
\<close>

datatype key = Key nat | Arrow_Up | Arrow_Down

fun codes_of :: "key \<Rightarrow> u8 list" where
  "codes_of (Key k) = [of_nat k, of_nat k + 0x80]"
| "codes_of Arrow_Up = [0xE0, 0x48, 0xE0, 0xC8]"
| "codes_of Arrow_Down = [0xE0, 0x50, 0xE0, 0xD0]"

text \<open>A key of the table that edits the line: it has a character, and that is not Enter.\<close>

fun edit_key :: "key \<Rightarrow> bool" where
  "edit_key (Key k) \<longleftrightarrow> k < 58 \<and> scancode_qwerty ! k \<noteq> NUL \<and> scancode_qwerty ! k \<noteq> newline"
| "edit_key _ \<longleftrightarrow> True"

fun edit_of :: "key \<Rightarrow> edit" where
  "edit_of (Key k) = (if scancode_qwerty ! k = backspace then Erase else Insert (scancode_qwerty ! k))"
| "edit_of Arrow_Up = Up"
| "edit_of Arrow_Down = Down"

lemma length_qwerty [simp]: "length scancode_qwerty = 58"
  by (simp add: scancode_qwerty_def)

lemma k_shell_upd [simp]:
  "k_shell (upd_kbd f s) = k_shell s" "k_shell (upd_term g s) = k_shell s" "k_kbd (upd_kbd f s) = f (k_kbd s)"
  "k_kbd (upd_term g s) = k_kbd s"
  by (simp_all add: upd_kbd_def upd_term_def)

lemma k_kbd_frame [simp]:
  "k_kbd (putc c s) = k_kbd s" "k_kbd (upd_shell h s) = k_kbd s"
  by (simp_all add: putc_def upd_shell_def)

lemma k_kbd_fold [simp]: "k_kbd (fold (\<lambda>i. putc (f i)) is s) = k_kbd s" "k_kbd (fold putc xs s) = k_kbd s"
  by (induction "is" arbitrary: s, simp_all) (induction xs arbitrary: s, simp_all)

lemma k_kbd_edit [simp]: "k_kbd (shell_edit e s) = k_kbd s"
  by (cases e) (simp_all add: insert_key_def erase_key_def shell_history_up_def shell_history_down_def Let_def display_buffer_def
      load_entry_def clear_input_line_def del: fold_replicate)

text \<open>The codes of a key of the table are none of the special ones, and only the second has its top bit set.\<close>

lemma table_codes:
  assumes "k < 58" and "k \<noteq> 29"
  shows "(of_nat k :: u8) \<notin> {0xE0, 0x1D, 0x9D}" "(of_nat k :: u8) AND 0x80 = 0" "(of_nat k + 0x80 :: u8) \<notin> {0xE0, 0x1D, 0x9D}"
    "(of_nat k + 0x80 :: u8) AND 0x80 \<noteq> 0" "unat (of_nat k :: u8) = k"
proof -
  have "list_all (\<lambda>k. k = 29 \<or> (of_nat k :: u8) \<noteq> 0xE0 \<and> (of_nat k :: u8) \<noteq> 0x1D \<and> (of_nat k :: u8) \<noteq> 0x9D \<and>
      (of_nat k :: u8) AND 0x80 = 0 \<and> (of_nat k + 0x80 :: u8) \<noteq> 0xE0 \<and> (of_nat k + 0x80 :: u8) \<noteq> 0x1D \<and>
      (of_nat k + 0x80 :: u8) \<noteq> 0x9D \<and> (of_nat k + 0x80 :: u8) AND 0x80 \<noteq> 0) [0..<58]"
    by code_simp
  then have "(of_nat k :: u8) \<noteq> 0xE0 \<and> (of_nat k :: u8) \<noteq> 0x1D \<and> (of_nat k :: u8) \<noteq> 0x9D \<and>
      (of_nat k :: u8) AND 0x80 = 0 \<and> (of_nat k + 0x80 :: u8) \<noteq> 0xE0 \<and> (of_nat k + 0x80 :: u8) \<noteq> 0x1D \<and>
      (of_nat k + 0x80 :: u8) \<noteq> 0x9D \<and> (of_nat k + 0x80 :: u8) AND 0x80 \<noteq> 0"
    using assms unfolding list_all_iff by (metis atLeastLessThan_iff atLeastLessThan_upt le0)
  then show "(of_nat k :: u8) \<notin> {0xE0, 0x1D, 0x9D}" "(of_nat k :: u8) AND 0x80 = 0" "(of_nat k + 0x80 :: u8) \<notin> {0xE0, 0x1D, 0x9D}"
    "(of_nat k + 0x80 :: u8) AND 0x80 \<noteq> 0" by blast+
  show "unat (of_nat k :: u8) = k" using assms(1) by (simp add: unat_of_nat)
qed

lemma ctrl_position: "edit_key (Key k) \<Longrightarrow> k \<noteq> 29"
  by (auto simp: scancode_qwerty_def)

lemma handle_edits:
  assumes "c \<noteq> newline"
  shows "\<exists>s0. shell_handle_key env c s = Some (shell_edit (if c = backspace then Erase else Insert c) s0) \<and>
    k_shell s0 = k_shell s \<and> k_kbd s0 = k_kbd s"
proof (cases "terminal_get_view_offset (k_term s) = 0")
  case True
  with assms show ?thesis by (auto simp: shell_handle_key_def)
next
  case False
  with assms show ?thesis
    by (intro exI [of _ "s\<lparr>k_term := terminal_scroll_to_bottom (k_term s)\<rparr>"]) (simp add: shell_handle_key_def)
qed

lemma key_edits:
  assumes "edit_key k" and "\<not> extended_mode (k_kbd s)"
  shows "\<exists>s0 s'. keyboard_run env (codes_of k) s = Some s' \<and> \<not> extended_mode (k_kbd s') \<and> k_shell s0 = k_shell s \<and>
    k_shell s' = k_shell (shell_edit (edit_of k) s0)"
proof (cases k)
  case (Key n)
  note c = table_codes [OF _ ctrl_position, of n]
  have n: "n < 58" "scancode_qwerty ! n \<noteq> NUL" "scancode_qwerty ! n \<noteq> newline" "edit_key (Key n)" using assms(1) Key by auto
  obtain s0 where s0: "shell_handle_key env (scancode_qwerty ! n) (upd_term terminal_scroll_to_bottom s) = Some (shell_edit (edit_of k) s0)"
    "k_shell s0 = k_shell s" "k_kbd s0 = k_kbd s"
    using handle_edits [OF n(3), of env "upd_term terminal_scroll_to_bottom s"] Key by auto
  have "keyboard_callback env (of_nat n) s = Some (shell_edit (edit_of k) s0)"
    using c n s0(1) assms(2) by (simp add: keyboard_callback_def plain_key_def scancodes)
  moreover have "keyboard_callback env (of_nat n + 0x80) (shell_edit (edit_of k) s0) =
      Some (upd_kbd (\<lambda>k. k\<lparr>extended_mode := False\<rparr>) (shell_edit (edit_of k) s0))"
    using c n by (simp add: keyboard_callback_def scancodes)
  ultimately show ?thesis using Key s0 by auto
next
  case Arrow_Up
  show ?thesis
    by (rule exI [of _ "upd_kbd (\<lambda>k. k\<lparr>extended_mode := False\<rparr>) (upd_kbd (\<lambda>k. k\<lparr>extended_mode := True\<rparr>) s)"])
      (simp add: Arrow_Up keyboard_callback_def scancodes)
next
  case Arrow_Down
  show ?thesis
    by (rule exI [of _ "upd_kbd (\<lambda>k. k\<lparr>extended_mode := False\<rparr>) (upd_kbd (\<lambda>k. k\<lparr>extended_mode := True\<rparr>) s)"])
      (simp add: Arrow_Down keyboard_callback_def scancodes)
qed

text \<open>
  The right Ctrl key sends the code of the left one behind the prefix, on press and on release, and neither branch resets
  \<open>extended_mode\<close>: the next key is taken for an extended one, and 8 on the keypad walks through the history.
\<close>

lemma right_ctrl_stays_extended:
  "\<exists>s'. keyboard_run env [0xE0, 0x1D, 0xE0, 0x9D] s = Some s' \<and> extended_mode (k_kbd s') \<and>
    keyboard_callback env 0x48 s' = Some (shell_history_up (upd_kbd (\<lambda>k. k\<lparr>extended_mode := False\<rparr>) s'))"
  by (simp add: keyboard_callback_def scancodes)

section \<open>Properties\<close>



end
