(* ===== verification/Kernel.thy ===== *)
theory Kernel
  imports Keyboard "HOL-Library.Sublist"
begin

text \<open>
  \<^verbatim>\<open>kernel.c\<close> without its screen functions: the boot sequence, the clock in the header, the two demonstration tasks, and the
  handlers of the kernel plugged into the interrupt dispatch. \<open>kernel_main\<close> is followed to the loop that halts, with
  no interrupt between \<open>sti\<close> and its last message.
\<close>

section \<open>Model: the clock\<close>

text \<open>The local buffer of \<open>uptime_display_cb\<close>; a number of hours above 99 has no digit for its tens.\<close>

definition uptime_text :: "u32 \<Rightarrow> char list" where
  "uptime_text sec =
     (let digit = (\<lambda>d. char_of (48 + unat d)); s = sec; m = s div 60; h = m div 60 in
      (if h > 0 then (if h \<ge> 10 then [digit (h div 10)] else []) @ [digit (h mod 10), CHR ''h''] else []) @
      (if m mod 60 \<ge> 10 then [digit (m mod 60 div 10)] else []) @ [digit (m mod 60 mod 10), CHR ''m''] @
      (if s mod 60 \<ge> 10 then [digit (s mod 60 div 10)] else []) @ [digit (s mod 60 mod 10), CHR ''s''])"

definition draw_clock :: "char list \<Rightarrow> terminal \<Rightarrow> terminal" where
  "draw_clock buf t =
     (let i = length buf; col = VGA_WIDTH - i - 1
      in fold (\<lambda>j t. t\<lparr>vga := (vga t)[VGA_WIDTH + col + j := vga_entry (buf ! j) VGA_COLOR_DEFAULT]\<rparr>) [0..<i] t)"

definition uptime_display_cb :: "kernel \<Rightarrow> kernel option" where
  "uptime_display_cb s = do {
     sec \<leftarrow> get_uptime_sec (m_timer s);
     if sec = last_sec s then Some s
     else Some (upd_term (draw_clock (uptime_text sec)) (s\<lparr>last_sec := sec\<rparr>))
   }"

section \<open>Model: the demonstration tasks\<close>

definition upd_tasking :: "(tasking \<Rightarrow> tasking) \<Rightarrow> kernel \<Rightarrow> kernel" where
  "upd_tasking f s = s\<lparr>m_tasking := f (m_tasking s)\<rparr>"

text \<open>\<open>task_sleep\<close> as a task sees it: it marks itself and raises interrupt 32, and goes on when it runs again.\<close>

definition sleep_here :: "env \<Rightarrow> u32 \<Rightarrow> kernel \<Rightarrow> kernel option" where
  "sleep_here env ticks s =
     (if ticks = 0 then Some s
      else int_32 env (upd_tasking (upd_task (k_cur s) (\<lambda>t. t\<lparr>t_sleep_ticks := ticks, t_state := TASK_SLEEPING\<rparr>)) s))"

abbreviation vga_lock :: "task_ptr \<Rightarrow> kernel interference \<Rightarrow> kernel \<Rightarrow> kernel option" where
  "vga_lock \<equiv> mutex_lock vga_mutex (\<lambda>m s. s\<lparr>vga_mutex := m\<rparr>)"

abbreviation vga_unlock :: "task_ptr \<Rightarrow> kernel \<Rightarrow> kernel" where
  "vga_unlock cur s \<equiv> s\<lparr>vga_mutex := mutex_unlock cur (vga_mutex s)\<rparr>"

text \<open>One round of each loop; \<open>wq\<close> and \<open>wv\<close> are what others do while the queue and the screen are locked.\<close>

definition task_a :: "env \<Rightarrow> queue interference \<Rightarrow> kernel interference \<Rightarrow> u32 \<Rightarrow> kernel \<Rightarrow> (u32 \<times> kernel) option" where
  "task_a env wq wv count s = do {
     (ok, q) \<leftarrow> queue_push (k_cur s) wq count (msg_queue s);
     let s = s\<lparr>msg_queue := q\<rparr>;
     s \<leftarrow> vga_lock (k_cur s) wv s;
     let s = upd_term (terminal_write_dec count 2 26) s;
     let s = vga_unlock (k_cur s) s;
     let count = count + 1;
     s \<leftarrow> sleep_here env 50 s;
     Some (count, s)
   }"

definition task_b :: "env \<Rightarrow> queue interference \<Rightarrow> kernel interference \<Rightarrow> u32 \<Rightarrow> kernel \<Rightarrow> (u32 \<times> kernel) option" where
  "task_b env wq wv val s = do {
     (r, q) \<leftarrow> queue_pop (k_cur s) wq (msg_queue s);
     let s = s\<lparr>msg_queue := q\<rparr>;
     (val, s) \<leftarrow> (case r of
        None \<Rightarrow> Some (val, s)
      | Some v \<Rightarrow> do {
          s \<leftarrow> vga_lock (k_cur s) wv s;
          let s = upd_term (terminal_write_dec v 3 26) s;
          Some (v, vga_unlock (k_cur s) s)
        });
     s \<leftarrow> sleep_here env 75 s;
     Some (val, s)
   }"

section \<open>Model: interrupts\<close>

text \<open>The addresses the linker chose.\<close>

record layout =
  gdt_addr :: u32
  idt_addr :: u32
  isr_addr :: "nat \<Rightarrow> u32"
  irq_addr :: "nat \<Rightarrow> u32"
  page_table_addr :: "nat \<Rightarrow> u32"
  page_dir_addr :: u32
  tss_addr :: u32
  uptime_addr :: u32
  task_a_addr :: u32
  task_b_addr :: u32
  task_stack_addr :: "task_ptr \<Rightarrow> u32"

text \<open>The only callback of the kernel is the clock. A jump to any other address is no part of this program.\<close>

definition kernel_callback :: "layout \<Rightarrow> u32 \<Rightarrow> kernel \<Rightarrow> kernel option" where
  "kernel_callback L f s = (if f = uptime_addr L then uptime_display_cb s else None)"

text \<open>An interrupt of the timer or the keyboard; \<open>code\<close> is what port 0x60 holds.\<close>

definition kernel_irq :: "layout \<Rightarrow> env \<Rightarrow> u8 \<Rightarrow> u32 \<Rightarrow> registers \<Rightarrow> kernel \<Rightarrow> (u32 \<times> kernel) option" where
  "kernel_irq L env code esp regs s = irq_handler (kernel_callback L) (keyboard_callback env code) esp regs s"

section \<open>Model: boot\<close>

definition upd_log :: "(logging \<Rightarrow> logging) \<Rightarrow> kernel \<Rightarrow> kernel" where
  "upd_log f s = s\<lparr>k_sig := (k_sig s)\<lparr>sig_log := f (k_log s)\<rparr>\<rparr>"

definition vga_disable_hw_cursor :: "kernel \<Rightarrow> kernel" where
  "vga_disable_hw_cursor s = outb 0x3D5 0x20 (outb 0x3D4 0x0A s)"

text \<open>The three subsystems write to the one log: it is handed to them and taken back.\<close>

definition boot_paging_init :: "layout \<Rightarrow> kernel \<Rightarrow> error_t \<times> kernel" where
  "boot_paging_init L s =
     (let (err, p) = paging_init (page_table_addr L) (page_dir_addr L) (k_ticks s) ((k_paging s)\<lparr>pg_log := k_log s\<rparr>)
      in (err, upd_log (\<lambda>_. pg_log p) (s\<lparr>k_paging := p\<rparr>)))"

definition boot_signal_init :: "kernel \<Rightarrow> error_t \<times> kernel" where
  "boot_signal_init s = (let (err, g) = signal_init (k_ticks s) (k_sig s) in (err, s\<lparr>k_sig := g\<rparr>))"

definition boot_ring_init :: "layout \<Rightarrow> kernel \<Rightarrow> error_t \<times> kernel" where
  "boot_ring_init L s =
     (let (err, g) = ring_init (tss_addr L) (k_ticks s) ((k_segments s)\<lparr>ring_log := k_log s\<rparr>)
      in (err, upd_log (\<lambda>_. ring_log g) (s\<lparr>k_segments := g\<rparr>)))"

definition report :: "error_t \<Rightarrow> string \<Rightarrow> string \<Rightarrow> kernel \<Rightarrow> kernel" where
  "report err bad good s = (if err \<noteq> E_OK then k_log_msg LOG_ERROR bad s else k_log_msg LOG_INFO good s)"

text \<open>Screen, interrupts and the subsystems that report to the log.\<close>

definition boot_first :: "layout \<Rightarrow> kernel \<Rightarrow> kernel" where
  "boot_first L s =
     (let s = s\<lparr>k_segments := init_gdt (gdt_addr L) (k_segments s)\<rparr>;
          s = init_idt (isr_addr L) (irq_addr L) (idt_addr L) s;
          s = init_panic_handlers s;
          s = upd_term terminal_clear s;
          s = vga_disable_hw_cursor s;
          s = upd_term draw_header s;
          s = upd_term scrollback_init s;
          s = upd_log log_init s;
          s = k_log_msg LOG_INFO ''RTOS v3.1 starting'' s;
          (err, s) = boot_paging_init L s;
          s = report err ''Paging init failed'' ''Paging initialized'' s;
          (err, s) = boot_signal_init s;
          s = report err ''Signal init failed'' ''Signals initialized'' s;
          (err, s) = boot_ring_init L s
      in report err ''Ring init failed'' ''x86 Rings initialized'' s)"

definition kernel_main :: "layout \<Rightarrow> kernel \<Rightarrow> kernel option" where
  "kernel_main L s = do {
     let s = boot_first L s;
     s \<leftarrow> init_timer 100 s;
     let s = s\<lparr>m_timer := snd (timer_register_callback (uptime_addr L) (m_timer s))\<rparr>;
     let s = init_keyboard s;
     let s = s\<lparr>k_heap := init_heap (k_heap s)\<rparr>;
     let s = s\<lparr>k_files := vfs_init (k_files s)\<rparr>;
     let s = s\<lparr>vga_mutex := mutex_init (vga_mutex s)\<rparr>;
     let s = s\<lparr>msg_queue := queue_init (msg_queue s)\<rparr>;
     let s = upd_tasking init_tasking s;
     let s = upd_tasking (create_task (task_stack_addr L) (task_a_addr L) 3) s;
     let s = upd_tasking (create_task (task_stack_addr L) (task_b_addr L) 2) s;
     let s = set_procs (process_init (k_procs s)) s;
     let s = init_shell s;
     let s = k_log_msg LOG_INFO ''Enabling interrupts'' s;
     Some (k_log_msg LOG_INFO ''Kernel ready. CLI active.'' s)
   }"

section \<open>The clock\<close>

definition clock_text :: "nat \<Rightarrow> string" where
  "clock_text sec = (if sec \<ge> 3600 then dec_string (sec div 3600) @ ''h'' else []) @
     dec_string (sec div 60 mod 60) @ ''m'' @ dec_string (sec mod 60) @ ''s''"

lemma two_digits:
  fixes x :: u32
  assumes "unat x < 100"
  shows "(if x \<ge> 10 then [char_of (48 + unat (x div 10))] else []) @ char_of (48 + unat (x mod 10)) # tail = dec_string (unat x) @ tail"
proof (cases "unat x < 10")
  case True
  then show ?thesis by (simp add: word_le_nat_alt unat_mod dec_string.simps [of "unat x"] digit_char_def)
next
  case False
  have "unat x div 10 < 10" using assms by simp
  with False show ?thesis
    by (simp add: word_le_nat_alt unat_mod unat_div dec_string.simps [of "unat x"] dec_string.simps [of "unat x div 10"] digit_char_def)
qed

lemma uptime_text_clock:
  assumes "unat sec < 360000"
  shows "uptime_text sec = clock_text (unat sec)"
proof -
  have d: "unat (sec div 60 div 60) = unat sec div 3600" "unat (sec mod 60) = unat sec mod 60"
    "unat (sec div 60 mod 60) = unat sec div 60 mod 60"
    by (simp_all add: unat_div unat_mod div_mult2_eq [symmetric])
  have "unat (sec div 60 div 60) < 100" "unat (sec mod 60) < 100" "unat (sec div 60 mod 60) < 100"
    using assms unfolding d by (auto intro: less_trans [of _ 60])
  note digits = this [THEN two_digits, unfolded d]
  have h: "sec div 60 div 60 > 0 \<longleftrightarrow> unat sec \<ge> 3600"
    unfolding word_less_nat_alt d by (simp add: div_greater_zero_iff)
  show ?thesis
    unfolding uptime_text_def Let_def append_Cons append_Nil digits h clock_text_def ..
qed

lemma same_text_clock: "same_text (draw_clock buf t) t"
  unfolding draw_clock_def Let_def by (rule same_text_fold) (simp add: same_text_vga)

lemma uptime_frame:
  assumes "uptime_display_cb s = Some s'"
  shows "s' = s\<lparr>k_term := k_term s', last_sec := last_sec s'\<rparr> \<and> same_text (k_term s') (k_term s)"
  using assms by (auto simp: uptime_display_cb_def bind_eq_Some_conv upd_term_def same_text_clock split: if_splits)

interpretation ktimer: timer_user m_timer "\<lambda>t s. s\<lparr>m_timer := t\<rparr>" "kernel_callback L"
proof
  fix f and s s' :: kernel
  assume "kernel_callback L f s = Some s'"
  then have "uptime_display_cb s = Some s'" by (auto simp: kernel_callback_def split: if_splits)
  then have "s' = s\<lparr>k_term := k_term s', last_sec := last_sec s'\<rparr>" using uptime_frame by blast
  from arg_cong [OF this, of m_timer] show "m_timer s' = m_timer s" by simp
qed simp

section \<open>The timer interrupt\<close>

text \<open>The kernel's two handlers are in place and the clock is the one callback.\<close>

definition handlers_ok :: "layout \<Rightarrow> kernel \<Rightarrow> bool" where
  "handlers_ok L s \<longleftrightarrow> interrupt_handlers s ! 32 = ISR_TIMER \<and> interrupt_handlers s ! 33 = ISR_KEYBOARD \<and>
     timer_inv (m_timer s) \<and> active (m_timer s) = [uptime_addr L] \<and> uptime_addr L \<noteq> 0"

definition clock_tick :: "kernel \<Rightarrow> kernel" where
  "clock_tick s =
     (let sec = (timer_ticks (m_timer s) + 1) div timer_freq_hz (m_timer s) in
      s\<lparr>m_timer := (m_timer s)\<lparr>timer_ticks := timer_ticks (m_timer s) + 1\<rparr>,
        k_term := (if sec = last_sec s then k_term s else draw_clock (uptime_text sec) (k_term s)), last_sec := sec\<rparr>)"

lemma timer_callback_tick:
  assumes "handlers_ok L s"
  shows "timer_irq_callback m_timer (\<lambda>t s. s\<lparr>m_timer := t\<rparr>) (kernel_callback L) s = Some (clock_tick s)"
proof -
  let ?s = "s\<lparr>m_timer := (m_timer s)\<lparr>timer_ticks := timer_ticks (m_timer s) + 1\<rparr>\<rparr>"
  have "timer_irq_callback m_timer (\<lambda>t s. s\<lparr>m_timer := t\<rparr>) (kernel_callback L) s = uptime_display_cb ?s"
    using assms ktimer.irq_runs_all [of s L]
    by (cases "uptime_display_cb ?s") (simp_all add: handlers_ok_def kernel_callback_def)
  also have "\<dots> = Some (clock_tick s)"
    using assms by (simp add: uptime_display_cb_def get_uptime_sec_def handlers_ok_def timer_inv_def clock_tick_def upd_term_def Let_def)
  finally show ?thesis .
qed

lemma handlers_outb [simp]:
  "handlers_ok L (outb p v s) = handlers_ok L s" "interrupt_handlers (outb p v s) = interrupt_handlers s"
  "m_tasking (outb p v s) = m_tasking s"
  by (simp_all add: outb_def handlers_ok_def)

lemma clock_tick_outb: "clock_tick (outb p v s) = outb p v (clock_tick s)"
  by (simp add: clock_tick_def outb_def Let_def)

lemma clock_tick_tasking [simp]: "m_tasking (clock_tick s) = m_tasking s"
  by (simp add: clock_tick_def Let_def)

lemma schedule_returns: "tasking_inv t \<Longrightarrow> \<exists>e t'. schedule esp t = Some (e, t') \<and> tasking_inv t'"
  using tasking_invE schedule_runs schedule_inv by metis

lemma timer_irq:
  assumes "handlers_ok L s" and "r_int_no regs = 32"
  shows "kernel_irq L env code esp regs s = do {
     (e, t) \<leftarrow> schedule esp (m_tasking s);
     Some (e, (outb 0x20 0x20 (clock_tick s))\<lparr>m_tasking := t\<rparr>)
   }"
proof -
  have "isr_handler (kernel_callback L) (keyboard_callback env code) regs (outb 0x20 0x20 s) = Some (outb 0x20 0x20 (clock_tick s))"
  proof -
    have "interrupt_handlers s ! 32 = ISR_TIMER" "handlers_ok L (outb 0x20 0x20 s)" using assms(1) by (simp_all add: handlers_ok_def [of L s])
    with timer_callback_tick [OF this(2)] assms(2) show ?thesis by (simp add: isr_handler_def call_isr_def clock_tick_outb)
  qed
  with assms(2) show ?thesis by (simp add: kernel_irq_def irq_handler_def)
qed

lemma key_irq:
  assumes "handlers_ok L s" and "r_int_no regs = 33"
  shows "kernel_irq L env code esp regs s = map_option (Pair esp) (keyboard_callback env code (outb 0x20 0x20 s))"
proof -
  have "isr_handler (kernel_callback L) (keyboard_callback env code) regs (outb 0x20 0x20 s) = keyboard_callback env code (outb 0x20 0x20 s)"
    using assms by (simp add: isr_handler_def call_isr_def handlers_ok_def)
  with assms(2) show ?thesis
    by (cases "keyboard_callback env code (outb 0x20 0x20 s)") (simp_all add: kernel_irq_def irq_handler_def)
qed

section \<open>Messages from the producer to the consumer\<close>

text \<open>What the rest of the system promises while a task sleeps: it comes back, and the queue and the screen lock are untouched.\<close>

definition quiet_sleep :: "env \<Rightarrow> bool" where
  "quiet_sleep env \<longleftrightarrow> (\<forall>s. \<exists>s'. int_32 env s = Some s' \<and> msg_queue s' = msg_queue s \<and> vga_mutex s' = vga_mutex s)"

definition demo_ok :: "kernel \<Rightarrow> bool" where
  "demo_ok s \<longleftrightarrow> queue_inv (msg_queue s) \<and> mutex_free (vga_mutex s)"

interpretation vlock: mutex_guarded vga_mutex "\<lambda>m s :: kernel. s\<lparr>vga_mutex := m\<rparr>"
  by unfold_locales simp_all

lemma sleep_quiet:
  assumes "quiet_sleep env"
  shows "\<exists>s'. sleep_here env n s = Some s' \<and> msg_queue s' = msg_queue s \<and> vga_mutex s' = vga_mutex s"
  using assms [unfolded quiet_sleep_def, rule_format, of "upd_tasking (upd_task (k_cur s) (\<lambda>t. t\<lparr>t_sleep_ticks := n, t_state := TASK_SLEEPING\<rparr>)) s"]
  by (auto simp: sleep_here_def upd_tasking_def)

abbreviation drawn :: "(terminal \<Rightarrow> terminal) \<Rightarrow> kernel \<Rightarrow> kernel" where
  "drawn f s \<equiv> vga_unlock (k_cur (upd_term f s)) (upd_term f s)"

text \<open>Drawing a number under the lock: the lock is taken at once and free again afterwards.\<close>

lemma draw_locked:
  assumes "mutex_free (vga_mutex s)"
  shows "\<exists>s1. vga_lock (k_cur s) wv s = Some s1 \<and> msg_queue (upd_term f s1) = msg_queue s \<and>
    mutex_free (vga_mutex (drawn f s1))"
  using vlock.lock_free [OF assms, of "k_cur s" wv] by (simp add: upd_term_def mutex_unlock_def mutex_free_eq)

lemma task_a_round:
  assumes "quiet_sleep env" and "demo_ok s"
  shows "\<exists>s'. task_a env wq wv count s = Some (count + 1, s') \<and> demo_ok s' \<and> queue_list (msg_queue s') =
    (if length (queue_list (msg_queue s)) < QUEUE_SIZE then queue_list (msg_queue s) @ [count] else queue_list (msg_queue s))"
proof -
  from queue_push_correct [of "msg_queue s" "k_cur s" wq count] assms(2) obtain ok q where
    q: "queue_push (k_cur s) wq count (msg_queue s) = Some (ok, q)" "queue_inv q" "ok = (length (queue_list (msg_queue s)) < QUEUE_SIZE)"
      "queue_list q = (if ok then queue_list (msg_queue s) @ [count] else queue_list (msg_queue s))" by (auto simp: demo_ok_def)
  have "mutex_free (vga_mutex (s\<lparr>msg_queue := q\<rparr>))" using assms(2) by (simp add: demo_ok_def)
  from draw_locked [OF this, of wv "terminal_write_dec count 2 26"] obtain s1 where
    s1: "vga_lock (k_cur s) wv (s\<lparr>msg_queue := q\<rparr>) = Some s1" "msg_queue (upd_term (terminal_write_dec count 2 26) s1) = q"
      "mutex_free (vga_mutex (drawn (terminal_write_dec count 2 26) s1))" by auto
  from sleep_quiet [OF assms(1), of 50 "drawn (terminal_write_dec count 2 26) s1"]
  obtain s2 where "sleep_here env 50 (drawn (terminal_write_dec count 2 26) s1) = Some s2"
    "msg_queue s2 = q" "mutex_free (vga_mutex s2)" using s1 by auto
  with q s1(1) show ?thesis by (simp add: task_a_def demo_ok_def Let_def)
qed

lemma task_b_round:
  assumes "quiet_sleep env" and "demo_ok s"
  shows "\<exists>s'. task_b env wq wv val s = Some (case queue_list (msg_queue s) of [] \<Rightarrow> val | v # vs \<Rightarrow> v, s') \<and> demo_ok s' \<and>
    queue_list (msg_queue s') = tl (queue_list (msg_queue s))"
proof -
  from queue_pop_correct [of "msg_queue s" "k_cur s" wq] assms(2) obtain q where
    q: "queue_pop (k_cur s) wq (msg_queue s) = Some (case queue_list (msg_queue s) of [] \<Rightarrow> None | v # vs \<Rightarrow> Some v, q)" "queue_inv q"
      "queue_list q = tl (queue_list (msg_queue s))" by (auto simp: demo_ok_def)
  show ?thesis
  proof (cases "queue_list (msg_queue s)")
    case Nil
    with q assms(2) sleep_quiet [OF assms(1), of 75 "s\<lparr>msg_queue := q\<rparr>"] show ?thesis by (auto simp: task_b_def demo_ok_def)
  next
    case (Cons v vs)
    have "mutex_free (vga_mutex (s\<lparr>msg_queue := q\<rparr>))" using assms(2) by (simp add: demo_ok_def)
    from draw_locked [OF this, of wv "terminal_write_dec v 3 26"] obtain s1 where
      s1: "vga_lock (k_cur s) wv (s\<lparr>msg_queue := q\<rparr>) = Some s1" "msg_queue (upd_term (terminal_write_dec v 3 26) s1) = q"
        "mutex_free (vga_mutex (drawn (terminal_write_dec v 3 26) s1))" by auto
    from sleep_quiet [OF assms(1), of 75 "drawn (terminal_write_dec v 3 26) s1"]
    obtain s2 where "sleep_here env 75 (drawn (terminal_write_dec v 3 26) s1) = Some s2"
      "msg_queue s2 = q" "mutex_free (vga_mutex s2)" using s1 by auto
    with q Cons s1(1) show ?thesis by (simp add: task_b_def demo_ok_def Let_def)
  qed
qed

text \<open>
  Rounds of the two tasks in any order: the counter of the producer, the last value of the consumer, and as a record for
  the statement the values the consumer took.
\<close>

datatype who = Producer | Consumer

fun demo_run :: "env \<Rightarrow> who list \<Rightarrow> u32 \<Rightarrow> u32 \<Rightarrow> kernel \<Rightarrow> (u32 list \<times> u32 \<times> kernel) option" where
  "demo_run env [] count val s = Some ([], count, s)"
| "demo_run env (Producer # ws) count val s = do {
     (count, s) \<leftarrow> task_a env [] [] count s;
     demo_run env ws count val s
   }"
| "demo_run env (Consumer # ws) count val s = do {
     let waiting = queue_list (msg_queue s);
     (val, s) \<leftarrow> task_b env [] [] val s;
     (vs, count, s) \<leftarrow> demo_run env ws count val s;
     Some (if waiting = [] then vs else val # vs, count, s)
   }"

lemma demo_run_order:
  assumes "quiet_sleep env" and "demo_ok s"
  shows "\<exists>vs s'. demo_run env ws count val s = Some (vs, count + of_nat (count_list ws Producer), s') \<and> demo_ok s' \<and>
    subseq (vs @ queue_list (msg_queue s')) (queue_list (msg_queue s) @ map (\<lambda>i. count + of_nat i) [0..<count_list ws Producer])"
  using assms(2)
proof (induction ws arbitrary: count val s)
  case Nil
  then show ?case by simp
next
  case (Cons w ws)
  let ?q = "queue_list (msg_queue s)" and ?n = "count_list ws Producer"
  show ?case
  proof (cases w)
    case Producer
    from task_a_round [OF assms(1) Cons.prems, of "[]" "[]" count] obtain s1 where
      s1: "task_a env [] [] count s = Some (count + 1, s1)" "demo_ok s1"
        "queue_list (msg_queue s1) = (if length ?q < QUEUE_SIZE then ?q @ [count] else ?q)" by blast
    from Cons.IH [OF s1(2), of "count + 1" val] obtain vs s' where
      r: "demo_run env ws (count + 1) val s1 = Some (vs, count + 1 + of_nat ?n, s')" "demo_ok s'"
        "subseq (vs @ queue_list (msg_queue s')) (queue_list (msg_queue s1) @ map (\<lambda>i. count + 1 + of_nat i) [0..<?n])" by blast
    have m: "map (\<lambda>i. count + of_nat i) [0..<Suc ?n] = count # map (\<lambda>i. count + 1 + of_nat i) [0..<?n]"
      by (simp add: map_upt_Suc add.assoc del: upt_Suc)
    have "subseq (queue_list (msg_queue s1) @ map (\<lambda>i. count + 1 + of_nat i) [0..<?n]) (?q @ map (\<lambda>i. count + of_nat i) [0..<Suc ?n])"
      unfolding m s1(3) by (auto intro: list_emb_append_mono)
    with r(3) have "subseq (vs @ queue_list (msg_queue s')) (?q @ map (\<lambda>i. count + of_nat i) [0..<Suc ?n])" by (rule subseq_order.trans)
    with Producer s1(1) r show ?thesis by (simp add: add.assoc del: upt_Suc)
  next
    case Consumer
    from task_b_round [OF assms(1) Cons.prems, of "[]" "[]" val] obtain s1 where
      s1: "task_b env [] [] val s = Some (case ?q of [] \<Rightarrow> val | v # vs \<Rightarrow> v, s1)" "demo_ok s1" "queue_list (msg_queue s1) = tl ?q" by blast
    from Cons.IH [OF s1(2), of count "case ?q of [] \<Rightarrow> val | v # vs \<Rightarrow> v"] obtain vs s' where
      r: "demo_run env ws count (case ?q of [] \<Rightarrow> val | v # vs \<Rightarrow> v) s1 = Some (vs, count + of_nat ?n, s')" "demo_ok s'"
        "subseq (vs @ queue_list (msg_queue s')) (queue_list (msg_queue s1) @ map (\<lambda>i. count + of_nat i) [0..<?n])" by blast
    with Consumer s1 show ?thesis by (cases ?q) (simp_all add: Let_def)
  qed
qed

section \<open>Properties\<close>

text \<open>
  Messages arrive in order: however the rounds of the producer and the consumer alternate, every round returns, and the
  values the consumer has taken, followed by those still in the queue, are a subsequence of 0, 1, 2, ..., the values
  the producer counted: none is invented, repeated or overtaken. What is counted while the queue is full is dropped
  (\<open>task_a_round\<close>).
\<close>

theorem messages_in_order:
  assumes "quiet_sleep env" and "demo_ok s" and "queue_list (msg_queue s) = []"
  shows "\<exists>vs s'. demo_run env ws 0 val s = Some (vs, of_nat (count_list ws Producer), s') \<and> demo_ok s' \<and>
    subseq (vs @ queue_list (msg_queue s')) (map of_nat [0..<count_list ws Producer])"
  using demo_run_order [OF assms(1,2), of ws 0 val] assms(3) by simp

theorem messages_in_order_witness:
  "\<exists>vs s'. demo_run quiet_env [Producer, Producer, Consumer] 0 0 quiet_kernel = Some (vs, 2, s') \<and>
    subseq (vs @ queue_list (msg_queue s')) [0, 1]"
proof -
  have "quiet_sleep quiet_env" by (simp add: quiet_sleep_def quiet_env_def)
  moreover have "demo_ok quiet_kernel" "queue_list (msg_queue quiet_kernel) = []"
    using empty_queue_inv by (simp_all add: demo_ok_def quiet_kernel_def mutex_free_def) (simp add: empty_queue_def queue_init_empty)
  ultimately show ?thesis using messages_in_order [of quiet_env quiet_kernel "[Producer, Producer, Consumer]" 0] by (auto simp: upt_rec)
qed

end
