(* ===== verification/Services.thy ===== *)
theory Services
  imports Kernel
begin

text \<open>
  The services behind the shell: paging, signals, processes, the log and the files. Their invariants, with every lock
  they use free, hold between commands; so a command never waits, whoever holds the locks of the message queue and of the
  screen, which no command takes. It returns unless it is one of the four that cannot.
\<close>

section \<open>The invariant of the services\<close>

text \<open>
  Since boot no process has been reaped, so that the numbers given out are those of the processes in the list, and the
  idle process is still the current one.
\<close>

definition procs_ok :: "proc_table \<Rightarrow> bool" where
  "procs_ok p \<longleftrightarrow> current_proc p = slot 0 \<and> (\<exists>xs. proc_inv p xs \<and> unat (proc_next_pid p) = length xs)"

definition services_ok :: "kernel \<Rightarrow> bool" where
  "services_ok s \<longleftrightarrow> paging_inv (k_paging s) \<and> sig_inv (k_sig s) \<and> procs_ok (k_procs s) \<and> log_inv (k_log s) \<and>
     vfs_inv (k_files s)"

lemma services_okD:
  assumes "services_ok s"
  shows "paging_inv (k_paging s)" "sig_inv (k_sig s)" "procs_ok (k_procs s)" "log_inv (k_log s)" "vfs_inv (k_files s)"
  using assms by (simp_all add: services_ok_def)

lemma services_ok_frame [simp]:
  "services_ok (s\<lparr>m_timer := t\<rparr>) = services_ok s" "services_ok (s\<lparr>out_ports := x\<rparr>) = services_ok s"
  "services_ok (s\<lparr>m_tasking := k\<rparr>) = services_ok s" "services_ok (s\<lparr>last_sec := n\<rparr>) = services_ok s"
  "services_ok (s\<lparr>k_kbd := b\<rparr>) = services_ok s" "services_ok (s\<lparr>k_term := c\<rparr>) = services_ok s"
  "services_ok (s\<lparr>msg_queue := q\<rparr>) = services_ok s" "services_ok (s\<lparr>vga_mutex := v\<rparr>) = services_ok s"
  by (simp_all add: services_ok_def)

text \<open>The state they look at, with the two structures the demonstration tasks share.\<close>

definition services :: "kernel \<Rightarrow> paging \<times> sigsys \<times> vfs \<times> queue \<times> mutex" where
  "services s = (k_paging s, k_sig s, k_files s, msg_queue s, vga_mutex s)"

lemma services_ok_cong: "services s' = services s \<Longrightarrow> services_ok s' = services_ok s"
  by (simp add: services_ok_def services_def)

lemma services_upd [simp]:
  "services (s\<lparr>k_term := a\<rparr>) = services s" "services (s\<lparr>k_heap := b\<rparr>) = services s" "services (s\<lparr>k_shell := c\<rparr>) = services s"
  "services (upd_shell f s) = services s" "services (putc x s) = services s" "services (set_test_alloc q s) = services s"
  by (simp_all add: services_def upd_shell_def putc_def set_test_alloc_def)

lemma services_fold: "(\<And>x s. services (f x s) = services s) \<Longrightarrow> services (fold f xs s) = services s"
  by (induction xs arbitrary: s) simp_all

lemma services_print [simp]:
  "services (print_str x s) = services s" "services (print_dec n s) = services s" "services (print_hex n s) = services s"
  "services (fold print_str xs s) = services s"
  by (simp_all add: print_str_term print_dec_text print_hex_text services_fold)

lemma services_reports [simp]:
  "services (cmd_help s) = services s" "services (cmd_history s) = services s" "services (cmd_logs s) = services s"
  "services (cmd_ring env s) = services s" "services (cmd_siglist s) = services s" "services (cmd_ps s) = services s"
  "services (cmd_ls s) = services s" "services (cmd_cat args s) = services s" "services (cmd_echo args s) = services s"
  "services (cmd_unknown a s) = services s" "services (task_row t s) = services s"
  by (simp_all add: cmd_help_def cmd_history_def cmd_logs_def cmd_ring_def cmd_siglist_def cmd_ps_def
      cmd_ls_def cmd_cat_def cmd_echo_def cmd_unknown_def task_row_def services_fold Let_def
      split: option.split task_state.split)

lemma services_rows [simp]:
  "services (sem_row l sem s) = services s" "services (print_result r s) = services s" "services (print_byte b s) = services s"
  "services (print_range lab x1 x2 s) = services s" "services (dump_row env x1 row s) = services s"
  "services (cmd_hexdump env adr s) = services s"
  by (simp_all add: sem_row_def print_result_def print_byte_def print_range_def dump_row_def cmd_hexdump_def services_fold Let_def)

text \<open>A command that returns and leaves the services in order.\<close>

definition served :: "kernel option \<Rightarrow> bool" where
  "served r \<longleftrightarrow> (\<exists>s. r = Some s \<and> services_ok s)"

lemma served_Some: "served (Some s) = services_ok s"
  by (simp add: served_def)

lemma served_same: "services_ok s \<Longrightarrow> services s' = services s \<Longrightarrow> served (Some s')"
  unfolding served_Some using services_ok_cong by blast

lemma served_print:
  "services_ok s \<Longrightarrow> served (Some (print_str x s))" "services_ok s \<Longrightarrow> served (Some (print_dec n (print_str x s)))"
  by (rule served_same, assumption, simp)+

lemma served_if: "(c \<Longrightarrow> served a) \<Longrightarrow> (\<not> c \<Longrightarrow> served b) \<Longrightarrow> served (if c then a else b)"
  by simp

section \<open>Commands that print\<close>

lemma served_calc:
  assumes "services_ok s" and "\<not> (parse_int32 (args ! 1) = 0x80000000 \<and> parse_int32 (args ! 3) = - 1 \<and> take 1 (args ! 2) = ''/'')"
  shows "served (cmd_calc args s)"
  using assms by (auto simp: cmd_calc_def Let_def div_int32_def split: list.split intro!: served_same [OF assms(1)])

lemma served_sem: "services_ok s \<Longrightarrow> served (cmd_sem s)"
  by (auto simp: cmd_sem_def Let_def sem_wait.simps sem_init_def sem_post_def sem_trywait_def case_prod_beta
      intro!: served_same [of s])

lemma served_sys:
  assumes "services_ok s" and "string_at (mem_byte env) (hello_at env) str"
  shows "served (cmd_sys env s)"
  using assms
  by (auto simp: cmd_sys_def sys_print_def sys_ticks_def sys_getpid_def int_0x80_def syscall_handler_def sys_numbers Let_def
      print_from_string services_fold intro!: served_same [OF assms(1)])

lemma served_uptime: "services_ok s \<Longrightarrow> timer_freq_hz (m_timer s) \<noteq> 0 \<Longrightarrow> served (cmd_uptime s)"
  by (auto simp: cmd_uptime_def get_uptime_sec_def Let_def intro!: served_same [of s])

section \<open>Commands that use a service\<close>

lemma pages_runs:
  assumes "paging_inv (k_paging s)"
  shows "get_free_pages env s = Some (num_free_pages (k_paging s), s)"
    "get_used_pages env s = Some (num_pages (k_paging s) - num_free_pages (k_paging s), s)"
proof -
  have free: "mutex_free (paging_lock (k_paging s))" using assms by (simp add: paging_inv_def)
  show "get_free_pages env s = Some (num_free_pages (k_paging s), s)"
    "get_used_pages env s = Some (num_pages (k_paging s) - num_free_pages (k_paging s), s)"
    using glock.unlock_restores [OF free, of "k_cur s"]
    by (simp_all add: get_free_pages_def get_used_pages_def paging_get_free_pages_def paging_get_used_pages_def pg_lock_free [OF free] Let_def)
qed

lemma served_pages:
  assumes "services_ok s"
  shows "served (cmd_sysinfo env s)" "served (cmd_pages env s)" "served (cmd_vmmap env s)"
proof -
  have p: "paging_inv (k_paging s')" if "services s' = services s" for s'
    using services_okD(1) [OF assms] that by (simp add: services_def)
  show "served (cmd_sysinfo env s)" "served (cmd_pages env s)" "served (cmd_vmmap env s)"
    by (auto simp: cmd_sysinfo_def cmd_pages_def cmd_vmmap_def Let_def pages_runs p intro!: served_same [OF assms])
qed

lemma row_tasking [simp]: "m_tasking (task_row t s) = m_tasking s"
  using arg_cong [OF keeps_cmds(12) [of s t s, unfolded keeps_def, simplified], of m_tasking] by simp

interpretation rows: link_preserving "\<lambda>s. links (m_tasking s)" task_row
  by unfold_locales simp

lemma served_tasks:
  assumes "services_ok s" and "tasking_inv (m_tasking s)"
  shows "served (cmd_tasks s)"
proof -
  define s1 where "s1 = seq [print_str (newline # line '' ID   PRI  CPU   STATE''), print_str (line '' ---  ---  ---   ---------'')] s"
  have s1: "services s1 = services s" "m_tasking s1 = m_tasking s" by (simp_all add: s1_def print_str_term)
  obtain xs where "ring_at (m_tasking s) (k_cur s # xs)" using tasking_invE [OF assms(2)] by blast
  then have "circle (links (m_tasking s1)) (k_cur s # xs)" by (simp add: ring_at_def s1)
  from rows.walk_circle [OF this] have walk: "cmd_tasks s = Some (fold task_row (k_cur s # xs) s1)"
    unfolding cmd_tasks_def s1_def [symmetric] Let_def get_current_task_def s1(2) .
  show ?thesis unfolding walk by (rule served_same [OF assms(1)]) (simp add: services_fold s1(1))
qed

lemma log_at_inv: "log_inv (sig_log g) \<Longrightarrow> log_inv (sig_log (log_at t lv msg g))"
  by (simp add: log_at_def log_inv_msg)

lemma sig_log_inv [simp]: "sig_inv (g\<lparr>sig_log := l\<rparr>) = sig_inv g" "sig_inv (log_at t lv msg g) = sig_inv g"
  by (simp_all add: sig_inv_def log_at_def)

lemma kill_served:
  assumes "sig_inv g" and "log_inv (sig_log g)"
  shows "\<exists>err g'. kill cur w ticks pid (int SIGTERM) g = Some (err, g') \<and> sig_inv g' \<and> log_inv (sig_log g') \<and> sig_procs g' = sig_procs g"
proof (cases "pid \<ge> 16 \<or> process_get pid (sig_procs g) = 0")
  case True
  with assms show ?thesis by (auto simp: kill_def SIGTERM_def NUM_SIGNALS_def)
next
  case False
  then have pid: "pid < 16" "unat pid < 16" by (simp_all add: not_le word_less_nat_alt)
  from False assms(1) kill_ok [of g "int SIGTERM" pid cur w ticks] pid(1)
  have "kill cur w ticks pid (int SIGTERM) g = Some (E_OK, log_at ticks LOG_DEBUG (''Signal envoy'' @ e_acute)
      (upd_ctx (unat pid) (\<lambda>c. c\<lparr>pending_signals := pending_signals c OR sig_bit (nat (int SIGTERM))\<rparr>) g))"
    by (simp add: sig_inv_def SIGTERM_def)
  moreover have "sig_inv (upd_ctx (unat pid) (\<lambda>c. c\<lparr>pending_signals := pending_signals c OR sig_bit (nat (int SIGTERM))\<rparr>) g)"
    by (rule sig_inv_upd [OF assms(1) pid(2)]) simp
  ultimately show ?thesis using assms(2) by (auto intro: log_at_inv)
qed

lemma services_ok_sig: "services_ok s \<Longrightarrow> sig_inv g \<Longrightarrow> log_inv (sig_log g) \<Longrightarrow> procs_ok (sig_procs g) \<Longrightarrow> services_ok (s\<lparr>k_sig := g\<rparr>)"
  by (simp add: services_ok_def)

lemma served_testsig:
  assumes "services_ok s"
  shows "served (cmd_testsig env args s)"
proof (cases "length args < 2")
  case True
  then show ?thesis by (auto simp: cmd_testsig_def intro: served_same [OF assms])
next
  case False
  note d = services_okD [OF assms]
  from kill_served [OF d(2,4), of "k_cur s" "e_sig env" "k_ticks s" "parse_u32 0 (args ! 1)"] obtain err g where
    k: "kill (k_cur s) (e_sig env) (k_ticks s) (parse_u32 0 (args ! 1)) (int SIGTERM) (k_sig s) = Some (err, g)"
    and g: "sig_inv g" "log_inv (sig_log g)" "procs_ok (sig_procs g)" using d(3) by metis
  show ?thesis
    using False k by (auto simp: cmd_testsig_def Let_def intro!: served_same [OF services_ok_sig [OF assms g]])
qed

lemma process_create_served:
  assumes "proc_inv p xs" and "unat (proc_next_pid p) = length xs" and "current_proc p = slot 0"
  shows "\<exists>pid p'. process_create stack_at name entry prio ppid p = Some (pid, p') \<and> procs_ok p'"
proof (cases "free_slot p")
  case None
  with assms show ?thesis by (auto simp: process_create_def procs_ok_def)
next
  case (Some i)
  have pid: "unat (proc_next_pid p) < 2 ^ 31" using assms(2) proc_inv_length [OF assms(1)] by (simp add: MAX_PROCESSES_def)
  note c = process_create_slot [OF assms(1) pid Some, of stack_at name entry prio ppid]
  have "unat (proc_next_pid p + 1) = length (xs @ [slot i])" using assms(2) pid by (simp add: unat_u32_plus)
  with c assms(3) show ?thesis by (auto simp: procs_ok_def after_create_def intro!: exI [of _ "xs @ [slot i]"])
qed

lemma served_spawn:
  assumes "services_ok s"
  shows "served (cmd_spawn env args s)"
proof -
  define name where "name = (if length args \<ge> 2 then args ! 1 else ''proc'')"
  note d = services_okD [OF assms]
  obtain xs where xs: "proc_inv (k_procs s) xs" "unat (proc_next_pid (k_procs s)) = length xs" "current_proc (k_procs s) = slot 0" using d(3) by (auto simp: procs_ok_def)
  from process_create_served [OF xs, of "proc_stack_at env" name "spawned_entry env" 1 0] obtain pid p where
    p: "process_create (proc_stack_at env) name (spawned_entry env) 1 0 (k_procs s) = Some (pid, p)" "procs_ok p" by blast
  have "services_ok (set_procs p s)"
    unfolding set_procs_def using d p(2) by (intro services_ok_sig [OF assms]) (simp_all add: sig_inv_def)
  then show ?thesis using p(1) by (auto simp: cmd_spawn_def name_def [symmetric] Let_def intro: served_same)
qed

lemma served_log:
  assumes "services_ok s"
  shows "served (Some (cmd_loglevel args s))"
    "served (Some (print_str x (s\<lparr>k_sig := (k_sig s)\<lparr>sig_log := log_clear (k_log s)\<rparr>\<rparr>)))"
proof -
  note d = services_okD [OF assms]
  have "services_ok (s\<lparr>k_sig := (k_sig s)\<lparr>sig_log := l\<rparr>\<rparr>)" if "log_inv l" for l
    using d that by (intro services_ok_sig [OF assms]) simp_all
  moreover have "log_inv (log_set_level lv (k_log s))" "log_inv (log_clear (k_log s))" for lv
    using d(4) log_inv_clear by (simp_all add: log_set_level_def log_inv_def)
  ultimately show "served (Some (cmd_loglevel args s))"
    "served (Some (print_str x (s\<lparr>k_sig := (k_sig s)\<lparr>sig_log := log_clear (k_log s)\<rparr>\<rparr>)))"
    by (auto simp: cmd_loglevel_def Let_def intro: served_same [OF assms] served_print)
qed

lemma served_heap:
  assumes "services_ok s" and "shell_heap_ok s"
  shows "served (cmd_mem env s)" "served (cmd_alloc env args s)" "served (cmd_free env s)"
proof -
  have "services s' = services s" if "cmd_mem env s = Some s' \<or> cmd_alloc env args s = Some s' \<or> cmd_free env s = Some s'" for s'
    using that by (auto simp: cmd_mem_def cmd_alloc_def cmd_free_def Let_def bind_eq_Some_conv services_fold split: if_splits)
  with heap_cmds_safe [OF assms(2)] served_same [OF assms(1)]
  show "served (cmd_mem env s)" "served (cmd_alloc env args s)" "served (cmd_free env s)" by metis+
qed

section \<open>Every command\<close>

text \<open>What keeps a command from returning; the greeting of \<open>sys\<close> is a string of the program.\<close>

definition ends_session :: "string list \<Rightarrow> bool" where
  "ends_session args \<longleftrightarrow> args \<noteq> [] \<and> (cmd_is args ''reboot'' \<or> cmd_is args ''shutdown'' \<or>
     (cmd_is args ''calc'' \<and> 4 \<le> length args \<and> parse_int32 (args ! 1) = 0x80000000 \<and> parse_int32 (args ! 3) = - 1 \<and>
      take 1 (args ! 2) = ''/''))"

lemma run_others:
  assumes "services_ok s" and "shell_heap_ok s" and "tasking_inv (m_tasking s)"
    and out: "\<not> cmd_is args ''reboot''" "\<not> cmd_is args ''shutdown''" "\<not> cmd_is args ''sys''" "\<not> cmd_is args ''calc''" "\<not> cmd_is args ''uptime''"
  shows "served (run_command env args s)"
proof -
  note same = served_same [OF assms(1)]
  show ?thesis
    unfolding run_command_def Let_def
    apply (intro served_if)
    apply (simp_all only: out served_pages [OF assms(1)] served_tasks [OF assms(1,3)] served_testsig [OF assms(1)] served_spawn [OF assms(1)]
        served_log [OF assms(1)] served_heap [OF assms(1,2)] served_sem [OF assms(1)])
    by (auto intro!: same)
qed

lemma run_printers:
  "cmd_is args ''sys'' \<Longrightarrow> run_command env args s = cmd_sys env s" "cmd_is args ''calc'' \<Longrightarrow> run_command env args s = cmd_calc args s"
  "cmd_is args ''uptime'' \<Longrightarrow> run_command env args s = cmd_uptime s" "cmd_is args ''reboot'' \<Longrightarrow> run_command env args s = None"
  "cmd_is args ''shutdown'' \<Longrightarrow> run_command env args s = None"
  by (simp_all add: run_command_def Let_def sh_strcmp_def strcmp_0 cmd_reboot_def cmd_shutdown_def)

lemma run_served:
  assumes "services_ok s" and "shell_heap_ok s" and "tasking_inv (m_tasking s)" and "timer_freq_hz (m_timer s) \<noteq> 0"
    and "string_at (mem_byte env) (hello_at env) str" and "\<not> ends_session args" and "args \<noteq> []"
  shows "served (run_command env args s)"
proof -
  consider (sys) "cmd_is args ''sys''" | (calc) "cmd_is args ''calc''" | (uptime) "cmd_is args ''uptime''"
    | (other) "\<not> cmd_is args ''sys''" "\<not> cmd_is args ''calc''" "\<not> cmd_is args ''uptime''" by blast
  then show ?thesis
  proof cases
    case sys
    with served_sys [OF assms(1,5)] show ?thesis by (simp add: run_printers)
  next
    case calc
    have "served (cmd_calc args s)"
    proof (cases "4 \<le> length args")
      case True
      with calc assms(6,7) show ?thesis by (intro served_calc [OF assms(1)]) (simp add: ends_session_def)
    qed (auto simp: cmd_calc_def intro: served_same [OF assms(1)])
    with calc show ?thesis by (simp add: run_printers)
  next
    case uptime
    with served_uptime [OF assms(1,4)] show ?thesis by (simp add: run_printers)
  next
    case other
    with assms(6,7) run_others [OF assms(1-3)] show ?thesis by (simp add: ends_session_def)
  qed
qed

text \<open>And whenever one returns, whatever memory holds, the services are in order.\<close>

lemma printers_services:
  "cmd_sys env s = Some s' \<Longrightarrow> services s' = services s" "cmd_calc args s = Some s' \<Longrightarrow> services s' = services s"
  "cmd_uptime s = Some s' \<Longrightarrow> services s' = services s"
  by (auto simp: cmd_sys_def sys_print_def sys_ticks_def sys_getpid_def int_0x80_def syscall_handler_def sys_numbers
      cmd_calc_def cmd_uptime_def Let_def bind_eq_Some_conv dest!: print_from_frame split: if_splits)

lemma run_services:
  assumes "services_ok s" and "shell_heap_ok s" and "tasking_inv (m_tasking s)" and run: "run_command env args s = Some s'"
  shows "services_ok s'"
proof (cases "cmd_is args ''sys'' \<or> cmd_is args ''calc'' \<or> cmd_is args ''uptime''")
  case True
  with run have "services s' = services s" by (auto simp: run_printers dest: printers_services)
  with assms(1) show ?thesis using services_ok_cong by blast
next
  case False
  moreover have "\<not> cmd_is args ''reboot''" "\<not> cmd_is args ''shutdown''" using run by (auto simp: run_printers)
  ultimately show ?thesis using run_others [OF assms(1-3), of args env] run by (simp add: served_Some)
qed

end
