(* ===== verification/Display.thy ===== *)
theory Display
  imports Services
begin

text \<open>
  What every command leaves of the screen: the text of the terminal stays well formed, whatever is printed.
\<close>

section \<open>The screen\<close>

abbreviation screen_ok :: "kernel \<Rightarrow> bool" where
  "screen_ok s \<equiv> term_inv (k_term s)"

lemma screen_putc: "screen_ok s \<Longrightarrow> c \<noteq> NUL \<Longrightarrow> screen_ok (putc c s)"
  by (simp add: putc_def putchar_refines)

lemma screen_fold: "(\<And>x s. screen_ok s \<Longrightarrow> screen_ok (f x s)) \<Longrightarrow> screen_ok s \<Longrightarrow> screen_ok (fold f xs s)"
  by (induction xs arbitrary: s) simp_all

lemma screen_chars: "NUL \<notin> set xs \<Longrightarrow> screen_ok s \<Longrightarrow> screen_ok (fold putc xs s)"
  by (induction xs arbitrary: s) (auto simp: screen_putc)

lemma screen_print [simp]:
  "screen_ok s \<Longrightarrow> screen_ok (print_str x s)" "screen_ok s \<Longrightarrow> screen_ok (print_dec n s)" "screen_ok s \<Longrightarrow> screen_ok (print_hex n s)"
  "screen_ok s \<Longrightarrow> screen_ok (fold print_str xs s)"
  by (simp_all add: print_str_def print_dec_text print_hex_text screen_chars dec_string_no_NUL hex_text_no_NUL screen_fold)

lemma screen_help [simp]: "screen_ok s \<Longrightarrow> screen_ok (cmd_help s)"
  unfolding cmd_help_def by (rule screen_print)

lemma screen_reports [simp]:
  "screen_ok s \<Longrightarrow> screen_ok (cmd_history s)" "screen_ok s \<Longrightarrow> screen_ok (cmd_logs s)"
  "screen_ok s \<Longrightarrow> screen_ok (cmd_loglevel args s)" "screen_ok s \<Longrightarrow> screen_ok (cmd_ring env s)" "screen_ok s \<Longrightarrow> screen_ok (cmd_siglist s)"
  "screen_ok s \<Longrightarrow> screen_ok (cmd_ps s)" "screen_ok s \<Longrightarrow> screen_ok (cmd_ls s)" "screen_ok s \<Longrightarrow> screen_ok (cmd_cat args s)"
  "screen_ok s \<Longrightarrow> screen_ok (cmd_echo args s)" "screen_ok s \<Longrightarrow> screen_ok (cmd_unknown a s)" "screen_ok s \<Longrightarrow> screen_ok (task_row t s)"
  by (simp_all add: cmd_history_def cmd_logs_def cmd_loglevel_def cmd_ring_def cmd_siglist_def cmd_ps_def
      cmd_ls_def cmd_cat_def cmd_echo_def cmd_unknown_def task_row_def screen_fold screen_putc Let_def
      split: option.split task_state.split)

lemma printable_plain: "printable b \<noteq> NUL"
proof -
  have "char_of (unat b) \<noteq> NUL" if "b \<ge> 32" "b < 127"
  proof
    assume "char_of (unat b) = NUL"
    then have "unat b mod 256 = 0" by (simp add: char_of_eq_iff take_bit_eq_mod)
    with that show False by (simp add: word_le_nat_alt word_less_nat_alt)
  qed
  then show ?thesis by (simp add: printable_def)
qed

lemma hex_digit_at: "unat b < 16 \<Longrightarrow> hex_digits ! unat b \<noteq> NUL"
  by (rule hex_digit_plain)

lemma screen_helpers [simp]:
  "screen_ok s \<Longrightarrow> screen_ok (sem_row l sem s)" "screen_ok s \<Longrightarrow> screen_ok (print_result r s)"
  "screen_ok s \<Longrightarrow> screen_ok (set_procs p s)" "screen_ok s \<Longrightarrow> screen_ok (k_log_msg lv m s)"
  "screen_ok s \<Longrightarrow> screen_ok (print_range lab x1 x2 s)" "screen_ok s \<Longrightarrow> screen_ok (set_test_alloc q s)"
  "screen_ok s \<Longrightarrow> screen_ok (upd_shell f s)" "screen_ok s \<Longrightarrow> screen_ok (print_prompt s)"
  by (simp_all add: sem_row_def print_result_def set_procs_def k_log_msg_def print_range_def set_test_alloc_def upd_shell_def
      print_prompt_def screen_putc Let_def)

lemma screen_dump [simp]:
  "screen_ok s \<Longrightarrow> screen_ok (print_byte b s)" "screen_ok s \<Longrightarrow> screen_ok (dump_row env a row s)" "screen_ok s \<Longrightarrow> screen_ok (cmd_hexdump env adr s)"
proof -
  have n: "unat (drop_bit 4 b) < 16" "unat (b AND 0xF) < 16" for b :: u8
    unfolding byte_masks using unsigned_less [of b, where ?'a = nat]
    by (simp_all add: unat_drop_bit_eq drop_bit_eq_div take_bit_eq_mask [symmetric] unsigned_take_bit_eq take_bit_eq_mod unat_div unat_mod)
  have byte: "screen_ok (print_byte b s)" if "screen_ok s" for b s
    unfolding print_byte_def seq_simps by (intro screen_putc that hex_digit_plain n) simp
  have row: "screen_ok (dump_row env a row s)" if "screen_ok s" for a row s
    using that by (simp add: dump_row_def Let_def screen_fold byte screen_putc printable_plain)
  show "screen_ok s \<Longrightarrow> screen_ok (print_byte b s)" by (rule byte)
  show "screen_ok s \<Longrightarrow> screen_ok (dump_row env a row s)" by (rule row)
  show "screen_ok s \<Longrightarrow> screen_ok (cmd_hexdump env adr s)" by (simp add: cmd_hexdump_def Let_def screen_fold row del: upt_conv_Cons)
qed

lemma screen_pages [simp]:
  "get_free_pages env s = Some (n, s') \<Longrightarrow> k_term s' = k_term s" "get_used_pages env s = Some (n, s') \<Longrightarrow> k_term s' = k_term s"
  by (auto simp: get_free_pages_def get_used_pages_def bind_eq_Some_conv)

lemma screen_options:
  assumes "screen_ok s"
  shows "cmd_uptime s = Some s' \<Longrightarrow> screen_ok s'" "cmd_sysinfo env s = Some s' \<Longrightarrow> screen_ok s'" "cmd_pages env s = Some s' \<Longrightarrow> screen_ok s'"
    "cmd_vmmap env s = Some s' \<Longrightarrow> screen_ok s'" "cmd_testsig env args s = Some s' \<Longrightarrow> screen_ok s'"
    "cmd_spawn env args s = Some s' \<Longrightarrow> screen_ok s'" "cmd_calc args s = Some s' \<Longrightarrow> screen_ok s'" "cmd_sem s = Some s' \<Longrightarrow> screen_ok s'"
    "cmd_alloc env args s = Some s' \<Longrightarrow> screen_ok s'" "cmd_free env s = Some s' \<Longrightarrow> screen_ok s'"
  using assms
  by (auto simp: cmd_uptime_def cmd_sysinfo_def cmd_pages_def cmd_vmmap_def cmd_testsig_def cmd_spawn_def cmd_calc_def cmd_sem_def
      cmd_alloc_def cmd_free_def Let_def bind_eq_Some_conv case_prod_beta split: if_splits)

lemma screen_tasks: "screen_ok s \<Longrightarrow> cmd_tasks s = Some s' \<Longrightarrow> screen_ok s'"
  using ring_walk_invariant [where P = screen_ok and body = task_row] by (auto simp: cmd_tasks_def Let_def)

lemma screen_print_from: "print_from mem a s = Some s' \<Longrightarrow> screen_ok s \<Longrightarrow> screen_ok s'"
proof -
  assume "print_from mem a s = Some s'"
  then have "screen_ok s \<longrightarrow> screen_ok s'"
  proof (rule print_from.raw_induct [where P = "\<lambda>_ _ s s'. screen_ok s \<longrightarrow> screen_ok s'", rotated])
    fix pf :: "(u32 \<Rightarrow> u8) \<Rightarrow> u32 \<Rightarrow> kernel \<Rightarrow> kernel option" and mem a s s'
    assume IH: "\<And>mem a s s'. pf mem a s = Some s' \<Longrightarrow> screen_ok s \<longrightarrow> screen_ok s'"
      and step: "(if mem a \<noteq> 0 then pf mem (a + 1) (putc (char_of (unat (mem a))) s) else Some s) = Some s'"
    have "char_of (unat (mem a)) \<noteq> NUL" if "mem a \<noteq> 0"
      using that unsigned_less [of "mem a", where ?'a = nat] by (simp add: char_of_eq_iff take_bit_eq_mod unat_eq_zero)
    with step IH show "screen_ok s \<longrightarrow> screen_ok s'" by (auto simp: screen_putc split: if_splits)
  qed
  then show "screen_ok s \<Longrightarrow> screen_ok s'" by blast
qed

lemma screen_sys: "screen_ok s \<Longrightarrow> cmd_sys env s = Some s' \<Longrightarrow> screen_ok s'"
  by (auto simp: cmd_sys_def sys_print_def sys_ticks_def sys_getpid_def int_0x80_def syscall_handler_def sys_numbers Let_def
      bind_eq_Some_conv dest!: screen_print_from)

lemma screen_mem: "screen_ok s \<Longrightarrow> cmd_mem env s = Some s' \<Longrightarrow> screen_ok s'"
  by (auto simp: cmd_mem_def Let_def bind_eq_Some_conv screen_fold screen_putc simp del: upt_conv_Cons)

lemma header_text: "same_text (draw_header t) t"
  unfolding draw_header_def Let_def terminal_write_at_col_def
  by (intro same_text_trans [OF same_text_fill] same_text_trans [OF same_text_put_string] same_text_fill)

lemma screen_clear: "screen_ok s \<Longrightarrow> term_inv (draw_header (terminal_clear (k_term s)))"
  unfolding term_inv_cong [OF header_text] by (rule terminal_clear_text) (simp only: term_inv_def)

lemma screen_run:
  assumes "screen_ok s" and "run_command env args s = Some s'"
  shows "screen_ok s'"
proof -
  note opts = screen_options [OF assms(1)] screen_tasks [OF assms(1)] screen_sys [OF assms(1)] screen_mem [OF assms(1)]
  show ?thesis
    using assms unfolding run_command_def Let_def
    by (auto simp: cmd_reboot_def cmd_shutdown_def screen_clear split: if_splits intro: opts)
qed

end
