(* ===== verification/System.thy ===== *)
theory System
  imports Display
begin

text \<open>
  The kernel as a whole: what holds after boot and between interrupts.
\<close>

section \<open>The invariant of the kernel\<close>

text \<open>
  What holds at every moment outside an interrupt, also while a task is inside its critical section: the handlers are in
  place, the tasks form their circle, the command line, the heap with the shell's pointer, the screen and every service are
  well formed, and the locks the services use are free.
\<close>

definition kernel_inv :: "layout \<Rightarrow> kernel \<Rightarrow> bool" where
  "kernel_inv L s \<longleftrightarrow> handlers_ok L s \<and> tasking_inv (m_tasking s) \<and> shell_inv (k_shell s) \<and> shell_heap_ok s \<and> screen_ok s \<and>
     services_ok s"

text \<open>What the demonstration tasks share; between their rounds \<open>demo_ok\<close> holds of it.\<close>

definition shared :: "kernel \<Rightarrow> queue \<times> mutex" where
  "shared s = (msg_queue s, vga_mutex s)"

lemma demo_ok_cong: "shared s' = shared s \<Longrightarrow> demo_ok s' = demo_ok s"
  by (simp add: shared_def demo_ok_def)

text \<open>What neither editing nor printing touches.\<close>

definition core :: "kernel \<Rightarrow> isr_t list \<times> timer \<times> tasking \<times> heap \<times> u32 \<times> (paging \<times> sigsys \<times> vfs \<times> queue \<times> mutex)" where
  "core s = (interrupt_handlers s, m_timer s, m_tasking s, k_heap s, test_alloc_ptr (k_shell s), services s)"

lemma core_services: "core s' = core s \<Longrightarrow> services_ok s' = services_ok s"
  by (rule services_ok_cong) (simp add: core_def)

text \<open>What no key touches.\<close>

definition aside :: "kernel \<Rightarrow> tasking \<times> queue \<times> mutex" where
  "aside s = (m_tasking s, shared s)"

lemma core_aside: "core s' = core s \<Longrightarrow> aside s' = aside s"
  by (simp add: core_def services_def shared_def aside_def)

lemma kernel_inv_core:
  assumes "kernel_inv L s" and "core s' = core s" and "shell_inv (k_shell s')" and "screen_ok s'"
  shows "kernel_inv L s'"
  using assms core_services [OF assms(2)] by (simp add: kernel_inv_def handlers_ok_def shell_heap_ok_def core_def)

lemma core_simps [simp]:
  "core (putc c s) = core s" "core (upd_term g s) = core s" "core (upd_kbd k s) = core s" "core (outb p v s) = core s"
  "core (s\<lparr>k_term := x\<rparr>) = core s"
  by (simp_all add: core_def services_def putc_def upd_term_def upd_kbd_def outb_def)

lemma core_fold: "(\<And>x s. core (f x s) = core s) \<Longrightarrow> core (fold f xs s) = core s"
  by (induction xs arbitrary: s) simp_all

lemma core_print [simp]: "core (print_str x s) = core s" "core (print_prompt s) = core s"
  by (simp_all add: print_prompt_def print_str_def core_fold)

lemma core_upd_shell: "test_alloc_ptr (f (k_shell s)) = test_alloc_ptr (k_shell s) \<Longrightarrow> core (upd_shell f s) = core s"
  by (simp add: core_def services_def upd_shell_def)

lemma core_edit: "core (shell_edit e s) = core s"
  by (cases e) (simp_all add: insert_key_def erase_key_def shell_history_up_def shell_history_down_def Let_def display_buffer_def
      load_entry_def clear_input_line_def core_upd_shell core_fold del: fold_replicate)

section \<open>Editing keeps it\<close>

lemma screen_display: "shell_inv (k_shell s) \<Longrightarrow> screen_ok s \<Longrightarrow> screen_ok (display_buffer s)"
proof -
  let ?b = "buffer (k_shell s)" and ?n = "buf_idx (k_shell s)"
  assume "shell_inv (k_shell s)" and ok: "screen_ok s"
  then have b: "length ?b = 128" "?n \<le> 127" "NUL \<notin> set (take ?n ?b)" by (auto simp: shell_inv_def line_buffer_def)
  have "fold (\<lambda>i. putc (?b ! i)) [0..<?n] s = fold putc (map ((!) ?b) [0..<?n]) s" by (simp add: fold_map comp_def)
  moreover have "map ((!) ?b) [0..<?n] = take ?n ?b" using b by (intro nth_equalityI) simp_all
  ultimately show ?thesis using b(3) ok by (simp add: display_buffer_def screen_chars)
qed

lemma screen_clear_line: "screen_ok s \<Longrightarrow> screen_ok (clear_input_line s)"
  by (simp add: clear_input_line_def screen_chars del: fold_replicate)

lemma screen_load: "screen_ok s \<Longrightarrow> screen_ok (load_entry s)"
  by (simp add: load_entry_def)

lemma screen_edit:
  assumes "shell_inv (k_shell s)" and "screen_ok s" and "edit_ok e"
  shows "screen_ok (shell_edit e s)"
proof (cases e)
  case (Insert c)
  with assms show ?thesis by (simp add: insert_key_def screen_putc edit_ok_def)
next
  case Erase
  with assms show ?thesis by (simp add: erase_key_def screen_putc)
next
  case Up
  have "shell_inv (k_shell (shell_history_up s))" using up_refines [OF assms(1)] by simp
  with Up assms show ?thesis
    by (auto simp: shell_history_up_def Let_def screen_clear_line screen_load intro!: screen_display split: if_splits)
next
  case Down
  have "shell_inv (k_shell (shell_history_down s))" using down_refines [OF assms(1)] by simp
  with Down assms show ?thesis
    by (auto simp: shell_history_down_def Let_def screen_clear_line screen_load intro!: screen_display split: if_splits)
qed

lemma kernel_invD:
  assumes "kernel_inv L s"
  shows "handlers_ok L s" "tasking_inv (m_tasking s)" "shell_inv (k_shell s)" "shell_heap_ok s" "screen_ok s"
    "services_ok s"
  using assms unfolding kernel_inv_def by blast+

lemma edit_inv:
  assumes "kernel_inv L s" and "edit_ok e"
  shows "kernel_inv L (shell_edit e s)"
proof (rule kernel_inv_core [OF assms(1) core_edit])
  note d = kernel_invD [OF assms(1)]
  show "shell_inv (k_shell (shell_edit e s))" using ed.step_simulates [OF d(3) assms(2)] by blast
  show "screen_ok (shell_edit e s)" by (rule screen_edit [OF d(3,5) assms(2)])
qed

section \<open>Commands keep it\<close>

lemma run_machine:
  assumes "run_command env args s = Some s'"
  shows "interrupt_handlers s' = interrupt_handlers s" "m_timer s' = m_timer s" "m_tasking s' = m_tasking s"
proof -
  note k = run_keeps_rest [OF assms, unfolded keeps_def]
  from arg_cong [OF k, of interrupt_handlers] arg_cong [OF k, of m_timer] arg_cong [OF k, of m_tasking]
  show "interrupt_handlers s' = interrupt_handlers s" "m_timer s' = m_timer s" "m_tasking s' = m_tasking s" by simp_all
qed

lemma execute_cases:
  assumes "execute_command env s = Some s'" and "screen_ok s"
  obtains (prompt) "core s' = core s" "screen_ok s'"
    | (command) s2 args s3 where "core s2 = core s" "screen_ok s2" "run_command env args s2 = Some s3"
        "s' = print_prompt (upd_shell (\<lambda>h. h\<lparr>buf_idx := 0\<rparr>) s3)"
proof -
  define s1 where "s1 = upd_shell (\<lambda>h. h\<lparr>buffer := (buffer h)[buf_idx h := NUL], history_index := -1, saved_buf_idx := 0,
    saved_buffer := (saved_buffer h)[0 := NUL]\<rparr>) s"
  define s2 where "s2 = upd_shell (history_add (buffer (k_shell s1))) s1"
  have "test_alloc_ptr (history_add c h) = test_alloc_ptr h" for c h by (subst history_add_frame) simp
  then have c: "core s1 = core s" "core s2 = core s" "screen_ok s1" "screen_ok s2"
    using assms(2) by (simp_all add: s2_def s1_def core_upd_shell)
  have "s' = print_prompt s1 \<or> s' = print_prompt s2 \<or>
      (\<exists>s3. run_command env (split_args (buffer (k_shell s2))) s2 = Some s3 \<and> s' = print_prompt (upd_shell (\<lambda>h. h\<lparr>buf_idx := 0\<rparr>) s3))"
    using assms(1) unfolding execute_command_def Let_def s1_def [symmetric] s2_def [symmetric]
    by (auto simp: bind_eq_Some_conv split: if_splits)
  with c prompt command show thesis by auto
qed

lemma execute_inv:
  assumes "kernel_inv L s" and run: "execute_command env s = Some s'"
  shows "kernel_inv L s'"
proof -
  note d = kernel_invD [OF assms(1)]
  have sh: "shell_inv (k_shell s')" using execute_refines [OF d(3) run] by blast
  show ?thesis
    using run d(5)
  proof (cases rule: execute_cases)
    case prompt
    show ?thesis by (rule kernel_inv_core [OF assms(1) prompt(1) sh prompt(2)])
  next
    case (command s2 args s3)
    have 2: "handlers_ok L s2" "tasking_inv (m_tasking s2)" "shell_heap_ok s2" "services_ok s2"
      using d command(1) core_services [OF command(1)] by (auto simp: handlers_ok_def shell_heap_ok_def core_def)
    with run_machine [OF command(3)] run_heap_ok [OF _ command(3)] run_services [OF 2(4,3,2) command(3)]
    have 3: "handlers_ok L s3" "tasking_inv (m_tasking s3)" "shell_heap_ok s3" "services_ok s3" by (simp_all add: handlers_ok_def)
    have c: "core s' = core s3" by (simp add: command(4) core_upd_shell)
    then have "handlers_ok L s'" "tasking_inv (m_tasking s')" "shell_heap_ok s'" "services_ok s'"
      using 3 core_services [OF c] by (auto simp: handlers_ok_def shell_heap_ok_def core_def)
    moreover have "screen_ok s'" using screen_run [OF command(2,3)] by (simp add: command(4))
    ultimately show ?thesis using sh by (simp add: kernel_inv_def)
  qed
qed

section \<open>Keys keep it\<close>

lemma scroll_screen:
  assumes "term_inv t"
  shows "term_inv (terminal_scroll_to_bottom t)" "term_inv (terminal_scroll_to_top t)" "term_inv (terminal_scroll_up 10 t)"
    "term_inv (terminal_scroll_down 10 t)"
  using assms by (auto simp: terminal_scroll_to_bottom_def terminal_scroll_to_top_def terminal_scroll_up_def terminal_scroll_down_def
      Let_def term_inv_def max_offset_def)

lemma scroll_inv:
  assumes "kernel_inv L s"
  shows "kernel_inv L (upd_term terminal_scroll_to_bottom s)" "kernel_inv L (upd_term terminal_scroll_to_top s)"
    "kernel_inv L (upd_term (terminal_scroll_up 10) s)" "kernel_inv L (upd_term (terminal_scroll_down 10) s)"
proof -
  have "kernel_inv L (upd_term f s)" if "term_inv (f (k_term s))" for f
    using kernel_invD [OF assms] that by (intro kernel_inv_core [OF assms]) (simp_all add: upd_term_def core_def)
  with scroll_screen [OF kernel_invD(5) [OF assms]]
  show "kernel_inv L (upd_term terminal_scroll_to_bottom s)" "kernel_inv L (upd_term terminal_scroll_to_top s)"
    "kernel_inv L (upd_term (terminal_scroll_up 10) s)" "kernel_inv L (upd_term (terminal_scroll_down 10) s)" by blast+
qed

lemma handle_inv:
  assumes "kernel_inv L s" and "c \<noteq> NUL" and "shell_handle_key env c s = Some s'"
  shows "kernel_inv L s'"
proof -
  define s1 where "s1 = (if terminal_get_view_offset (k_term s) \<noteq> 0 then upd_term terminal_scroll_to_bottom s else s)"
  have s1: "kernel_inv L s1" using assms(1) scroll_inv by (simp add: s1_def)
  have "(if c = newline then execute_command env s1 else if c = backspace then Some (shell_edit Erase s1)
      else Some (shell_edit (Insert c) s1)) = Some s'"
    using assms(3) by (simp add: shell_handle_key_def s1_def upd_term_def Let_def cong: if_cong)
  with execute_inv [OF s1] edit_inv [OF s1, of Erase] edit_inv [OF s1, of "Insert c"] assms(2) show ?thesis
    by (simp add: edit_ok_def split: if_splits)
qed

lemma kbd_inv: "kernel_inv L (upd_kbd f s) = kernel_inv L s"
  by (simp add: kernel_inv_def handlers_ok_def shell_heap_ok_def upd_kbd_def)

lemma keyboard_inv:
  assumes "kernel_inv L s" and "keyboard_callback env code s = Some s'"
  shows "kernel_inv L s'"
proof -
  have plain: "kernel_inv L s'" if "plain_key env code s = Some s'" "kernel_inv L s" for s
    using that handle_inv [OF scroll_inv(1) [OF that(2)]] by (auto simp: plain_key_def Let_def split: if_splits)
  let ?s = "upd_kbd (\<lambda>k. k\<lparr>extended_mode := False\<rparr>) s"
  have s: "kernel_inv L ?s" using assms(1) by (simp add: kbd_inv)
  have "kernel_inv L (shell_history_up ?s)" "kernel_inv L (shell_history_down ?s)"
    using edit_inv [OF s, of Up] edit_inv [OF s, of Down] by (simp_all add: edit_ok_def)
  with assms plain [OF _ s] plain [OF _ assms(1)] scroll_inv [OF s] s show ?thesis
    by (auto simp: keyboard_callback_def Let_def kbd_inv split: if_splits)
qed

section \<open>Interrupts keep it\<close>

lemma tick_inv: "kernel_inv L s \<Longrightarrow> tasking_inv t \<Longrightarrow> kernel_inv L ((outb 0x20 0x20 (clock_tick s))\<lparr>m_tasking := t\<rparr>)"
proof -
  assume s: "kernel_inv L s" and t: "tasking_inv t"
  note d = kernel_invD [OF s]
  have "same_text (k_term (clock_tick s)) (k_term s)" by (simp add: clock_tick_def Let_def same_text_clock)
  with d(5) have "screen_ok (clock_tick s)" by (simp add: term_inv_cong)
  moreover have "handlers_ok L (clock_tick s)" using d(1) by (simp add: handlers_ok_def clock_tick_def Let_def timer_inv_def active_def)
  ultimately show ?thesis
    using d t by (simp add: kernel_inv_def handlers_ok_def shell_heap_ok_def outb_def) (simp add: clock_tick_def Let_def)
qed

lemma irq_inv:
  assumes "kernel_inv L s" and "r_int_no regs \<in> {32, 33}" and "kernel_irq L env code esp regs s = Some (e, s')"
  shows "kernel_inv L s'"
proof (cases "r_int_no regs = 32")
  case True
  from schedule_returns [OF kernel_invD(2) [OF assms(1)], of esp] obtain e' t where
    t: "schedule esp (m_tasking s) = Some (e', t)" "tasking_inv t" by blast
  with timer_irq [OF kernel_invD(1) [OF assms(1)] True, of env code esp] assms(3) tick_inv [OF assms(1) t(2)] show ?thesis by simp
next
  case False
  have o: "kernel_inv L (outb 0x20 0x20 s)" using assms(1) by (simp add: kernel_inv_def shell_heap_ok_def) (simp add: outb_def)
  from False assms key_irq [OF kernel_invD(1) [OF assms(1)], of regs env code esp]
  have "keyboard_callback env code (outb 0x20 0x20 s) = Some s'" by auto
  with keyboard_inv [OF o] show ?thesis by blast
qed

section \<open>What interrupts leave alone\<close>

lemma execute_aside:
  assumes "execute_command env s = Some s'" and "screen_ok s"
  shows "aside s' = aside s"
  using assms
proof (cases rule: execute_cases)
  case prompt
  then show ?thesis using core_aside by blast
next
  case (command s2 args s3)
  note k = run_keeps_rest [OF command(3), unfolded keeps_def]
  have "aside s3 = aside s2"
    using arg_cong [OF k, of msg_queue] arg_cong [OF k, of vga_mutex] run_machine(3) [OF command(3)] by (simp add: shared_def aside_def)
  moreover have "core s' = core s3" by (simp add: command(4) core_upd_shell)
  ultimately show ?thesis using core_aside command(1) by metis
qed

lemma aside_upd [simp]:
  "aside (upd_term f s) = aside s" "aside (upd_kbd g s) = aside s" "aside (outb p v s) = aside s" "aside (shell_edit e s) = aside s"
  using core_aside [OF core_edit] by (simp_all add: shared_def aside_def upd_term_def upd_kbd_def outb_def)

lemma handle_aside:
  assumes "screen_ok s" and "shell_handle_key env c s = Some s'"
  shows "aside s' = aside s"
proof -
  define s1 where "s1 = (if terminal_get_view_offset (k_term s) \<noteq> 0 then upd_term terminal_scroll_to_bottom s else s)"
  have s1: "screen_ok s1" "aside s1 = aside s" using assms(1) scroll_screen by (simp_all add: s1_def) (simp add: upd_term_def)
  have "(if c = newline then execute_command env s1 else if c = backspace then Some (shell_edit Erase s1)
      else Some (shell_edit (Insert c) s1)) = Some s'"
    using assms(2) by (simp add: shell_handle_key_def s1_def upd_term_def Let_def cong: if_cong)
  with execute_aside [OF _ s1(1)] s1(2) show ?thesis
    using aside_upd(4) [of Erase s1] aside_upd(4) [of "Insert c" s1] by (auto split: if_splits simp del: aside_upd(4) shell_edit.simps)
qed

lemma keyboard_aside:
  assumes "screen_ok s" and "keyboard_callback env code s = Some s'"
  shows "aside s' = aside s"
proof -
  have plain: "aside s' = aside s" if "plain_key env code s = Some s'" "screen_ok s" for s
  proof -
    have "screen_ok (upd_term terminal_scroll_to_bottom s)" using scroll_screen(1) [OF that(2)] by (simp add: upd_term_def)
    from handle_aside [OF this] that(1) show ?thesis by (auto simp: plain_key_def Let_def split: if_splits)
  qed
  let ?s = "upd_kbd (\<lambda>k. k\<lparr>extended_mode := False\<rparr>) s"
  have s: "screen_ok ?s" using assms(1) by (simp add: upd_kbd_def)
  have "aside (shell_history_up ?s) = aside s" "aside (shell_history_down ?s) = aside s"
    using aside_upd(4) [of Up ?s] aside_upd(4) [of Down ?s] by simp_all
  with assms plain [OF _ s] plain [OF _ assms(1)] show ?thesis
    by (auto simp: keyboard_callback_def Let_def split: if_splits)
qed

lemma key_irq_aside:
  assumes "kernel_inv L s" and "r_int_no regs = 33" and "kernel_irq L env code esp regs s = Some (e, s')"
  shows "aside s' = aside s" "e = esp"
proof -
  have "screen_ok (outb 0x20 0x20 s)" using kernel_invD(5) [OF assms(1)] by (simp add: outb_def)
  moreover from assms key_irq [OF kernel_invD(1) [OF assms(1)], of regs env code esp]
  have "keyboard_callback env code (outb 0x20 0x20 s) = Some s'" "e = esp" by auto
  ultimately show "aside s' = aside s" "e = esp" using keyboard_aside [of "outb 0x20 0x20 s"] by simp_all
qed

lemma timer_irq_shared:
  assumes "kernel_inv L s" and "r_int_no regs = 32" and "kernel_irq L env code esp regs s = Some (e, s')"
  shows "schedule esp (m_tasking s) = Some (e, m_tasking s')" "shared s' = shared s"
proof -
  from schedule_returns [OF kernel_invD(2) [OF assms(1)], of esp] obtain e' t where t: "schedule esp (m_tasking s) = Some (e', t)" by blast
  with timer_irq [OF kernel_invD(1) [OF assms(1)] assms(2), of env code esp] assms(3)
  have "e = e'" "s' = (outb 0x20 0x20 (clock_tick s))\<lparr>m_tasking := t\<rparr>" by simp_all
  with t show "schedule esp (m_tasking s) = Some (e, m_tasking s')" "shared s' = shared s"
    by (simp_all add: shared_def outb_def clock_tick_def Let_def)
qed

lemma irq_shared:
  "kernel_inv L s \<Longrightarrow> r_int_no regs \<in> {32, 33} \<Longrightarrow> kernel_irq L env code esp regs s = Some (e, s') \<Longrightarrow> shared s' = shared s"
  using key_irq_aside(1) [of L s regs env code esp e s'] timer_irq_shared(2) [of L s regs env code esp e s'] by (auto simp: aside_def)

section \<open>The demonstration tasks keep it\<close>

lemma shared_inv [simp]: "kernel_inv L (s\<lparr>msg_queue := q\<rparr>) = kernel_inv L s" "kernel_inv L (s\<lparr>vga_mutex := v\<rparr>) = kernel_inv L s"
  by (simp_all add: kernel_inv_def handlers_ok_def shell_heap_ok_def)

lemma write_dec_text: "same_text (terminal_write_dec n row col t) t"
  by (auto simp: terminal_write_dec_def Let_def intro!: same_text_trans [OF same_text_put] same_text_put same_text_fold)

lemma write_dec_inv: "kernel_inv L s \<Longrightarrow> kernel_inv L (upd_term (terminal_write_dec n row col) s)"
  by (rule kernel_inv_core [of L s]) (simp_all add: upd_term_def core_def kernel_inv_def term_inv_cong [OF write_dec_text])

text \<open>With the screen lock free, a task gets it at once and gives it back: only what it draws is left.\<close>

lemma vga_section:
  assumes free: "mutex_free (vga_mutex s)"
  shows "vga_lock cur w s = Some (s\<lparr>vga_mutex := \<lparr>locked = 1, owner = cur\<rparr>\<rparr>)"
    "cur = k_cur s \<Longrightarrow> drawn f (s\<lparr>vga_mutex := \<lparr>locked = 1, owner = cur\<rparr>\<rparr>) = upd_term f s"
proof -
  show "vga_lock cur w s = Some (s\<lparr>vga_mutex := \<lparr>locked = 1, owner = cur\<rparr>\<rparr>)" by (rule vlock.lock_free [OF free])
  let ?s = "upd_term f s"
  have "?s\<lparr>vga_mutex := \<lparr>locked = 0, owner = 0\<rparr>\<rparr> = ?s\<lparr>vga_mutex := vga_mutex ?s\<rparr>"
    using free unfolding mutex_free_eq by (simp add: upd_term_def)
  then have "?s\<lparr>vga_mutex := \<lparr>locked = 0, owner = 0\<rparr>\<rparr> = ?s" by simp
  then show "cur = k_cur s \<Longrightarrow> drawn f (s\<lparr>vga_mutex := \<lparr>locked = 1, owner = cur\<rparr>\<rparr>) = upd_term f s"
    by (simp add: upd_term_def mutex_unlock_def)
qed

text \<open>What the interrupt 32 has to do for a task that raises it.\<close>

definition int_32_ok :: "layout \<Rightarrow> env \<Rightarrow> bool" where
  "int_32_ok L env \<longleftrightarrow> (\<forall>s s'. kernel_inv L s \<longrightarrow> int_32 env s = Some s' \<longrightarrow> kernel_inv L s' \<and> shared s' = shared s)"

abbreviation asleep :: "u32 \<Rightarrow> kernel \<Rightarrow> kernel" where
  "asleep n s \<equiv> upd_tasking (upd_task (k_cur s) (\<lambda>t. t\<lparr>t_sleep_ticks := n, t_state := TASK_SLEEPING\<rparr>)) s"

lemma asleep_inv:
  assumes "kernel_inv L s"
  shows "kernel_inv L (asleep n s)"
proof -
  have "tasking_inv (m_tasking (asleep n s))"
    using kernel_invD(2) [OF assms] unfolding upd_tasking_def by simp (rule upd_task_inv, simp_all)
  with assms show ?thesis by (simp add: kernel_inv_def upd_tasking_def handlers_ok_def shell_heap_ok_def)
qed

lemma asleep_shared: "shared (asleep n s) = shared s"
  by (simp add: upd_tasking_def shared_def)

lemma sleep_inv:
  "int_32_ok L env \<Longrightarrow> kernel_inv L s \<Longrightarrow> sleep_here env n s = Some s' \<Longrightarrow> kernel_inv L s' \<and> shared s' = shared s"
  using asleep_inv [of L s n] asleep_shared by (auto simp: sleep_here_def int_32_ok_def split: if_splits)

text \<open>A round of either task is its queue operation, its drawing and its sleep; nothing in it waits.\<close>

lemma producer_round:
  assumes "kernel_inv L s" and "demo_ok s"
  shows "\<exists>s1. kernel_inv L s1 \<and> demo_ok s1 \<and> task_a env wq wv count s = map_option (\<lambda>s'. (count + 1, s')) (sleep_here env 50 s1)"
proof -
  have free: "queue_inv (msg_queue s)" "mutex_free (vga_mutex s)" using assms(2) by (simp_all add: demo_ok_def)
  from queue_push_correct [OF free(1), of "k_cur s" wq count] obtain ok q where
    q: "queue_push (k_cur s) wq count (msg_queue s) = Some (ok, q)" "queue_inv q" by blast
  let ?s = "upd_term (terminal_write_dec count 2 26) (s\<lparr>msg_queue := q\<rparr>)"
  have "kernel_inv L ?s" using assms(1) by (intro write_dec_inv) simp
  moreover have "demo_ok ?s" using q(2) free(2) by (simp add: demo_ok_def upd_term_def)
  moreover have "task_a env wq wv count s = map_option (\<lambda>s'. (count + 1, s')) (sleep_here env 50 ?s)"
    using vga_section [of "s\<lparr>msg_queue := q\<rparr>"] free(2)
    by (cases "sleep_here env 50 ?s"; simp add: task_a_def q(1) Let_def)
  ultimately show ?thesis by blast
qed

lemma consumer_round:
  assumes "kernel_inv L s" and "demo_ok s"
  shows "\<exists>s1 val'. kernel_inv L s1 \<and> demo_ok s1 \<and> task_b env wq wv val s = map_option (\<lambda>s'. (val', s')) (sleep_here env 75 s1)"
proof -
  have free: "queue_inv (msg_queue s)" "mutex_free (vga_mutex s)" using assms(2) by (simp_all add: demo_ok_def)
  from queue_pop_correct [OF free(1), of "k_cur s" wq] obtain r q where
    q: "queue_pop (k_cur s) wq (msg_queue s) = Some (r, q)" "queue_inv q" by blast
  let ?s = "s\<lparr>msg_queue := q\<rparr>"
  have s: "kernel_inv L ?s" "demo_ok ?s" using assms(1) q(2) free(2) by (simp_all add: demo_ok_def)
  show ?thesis
  proof (cases r)
    case None
    with s q(1) show ?thesis
      by (intro exI [of _ ?s] exI [of _ val]) (cases "sleep_here env 75 ?s"; simp add: task_b_def)
  next
    case (Some v)
    have "kernel_inv L (upd_term (terminal_write_dec v 3 26) ?s)" "demo_ok (upd_term (terminal_write_dec v 3 26) ?s)"
      using write_dec_inv [OF s(1)] s(2) by (simp_all add: demo_ok_def upd_term_def)
    with Some q(1) vga_section [of ?s] free(2) show ?thesis
      by (intro exI [of _ "upd_term (terminal_write_dec v 3 26) ?s"] exI [of _ v])
        (cases "sleep_here env 75 (upd_term (terminal_write_dec v 3 26) ?s)"; simp add: task_b_def Let_def)
  qed
qed

lemma round_inv:
  assumes "int_32_ok L env" and "kernel_inv L s1" "demo_ok s1" and "map_option (\<lambda>s'. (v, s')) (sleep_here env n s1) = Some (v', s')"
  shows "kernel_inv L s' \<and> demo_ok s'"
  using assms sleep_inv [OF assms(1,2), of n s'] demo_ok_cong [of s' s1] by auto

lemma task_a_inv:
  assumes "int_32_ok L env" and "kernel_inv L s" "demo_ok s" and "task_a env wq wv count s = Some (count', s')"
  shows "kernel_inv L s' \<and> demo_ok s'"
proof -
  obtain s1 where "kernel_inv L s1" "demo_ok s1" "task_a env wq wv count s = map_option (\<lambda>s'. (count + 1, s')) (sleep_here env 50 s1)"
    using producer_round [OF assms(2,3)] by blast
  with assms(4) round_inv [OF assms(1)] show ?thesis by metis
qed

lemma task_b_inv:
  assumes "int_32_ok L env" and "kernel_inv L s" "demo_ok s" and "task_b env wq wv val s = Some (val', s')"
  shows "kernel_inv L s' \<and> demo_ok s'"
proof -
  obtain s1 v where "kernel_inv L s1" "demo_ok s1" "task_b env wq wv val s = map_option (\<lambda>s'. (v, s')) (sleep_here env 75 s1)"
    using consumer_round [OF assms(2,3)] by blast
  with assms(4) round_inv [OF assms(1)] show ?thesis by metis
qed

section \<open>Boot\<close>

text \<open>The sizes of the arrays, and the variables of the shell as the loader clears them.\<close>

definition loaded :: "kernel \<Rightarrow> bool" where
  "loaded s \<longleftrightarrow> length (interrupt_handlers s) = 256 \<and> length (callbacks (m_timer s)) = 8 \<and> length (vga (k_term s)) = 2000 \<and>
     (\<forall>i<TASK_POOL_SIZE. length (t_stack (tasks (m_tasking s) (task_pool i))) = 1024) \<and>
     buffer (k_shell s) = replicate 128 NUL \<and> length (saved_buffer (k_shell s)) = 128 \<and>
     length (command_history (k_shell s)) = 20 \<and> list_all (\<lambda>e. length e = 128) (command_history (k_shell s)) \<and>
     test_alloc_ptr (k_shell s) = 0 \<and> length (q_data (msg_queue s)) = QUEUE_SIZE \<and> vfs_shape (k_files s) \<and>
     length (signal_contexts (k_sig s)) = 16 \<and> (\<forall>c\<in>set (signal_contexts (k_sig s)). length (handlers c) = NUM_SIGNALS) \<and>
     (\<forall>i<MAX_PROCESSES. length (p_name (procs (k_procs s) (slot i))) = MAX_PROC_NAME \<and>
        length (p_stack (procs (k_procs s) (slot i))) = 2048) \<and>
     length (log_buffer (k_log s)) = LOG_ENTRIES \<and> list_all (\<lambda>e. length (le_message e) = LOG_ENTRY_MAX) (log_buffer (k_log s))"

text \<open>The interrupt set-up changes the tables of the machine and its ports only.\<close>

definition tables_only :: "kernel \<Rightarrow> kernel \<Rightarrow> bool" where
  "tables_only s s' \<longleftrightarrow> s'\<lparr>idt_entries := idt_entries s, idt_limit := idt_limit s, idt_base := idt_base s, idtr := idtr s,
     interrupt_handlers := interrupt_handlers s, out_ports := out_ports s\<rparr> = s"

lemma tables_only_simps [simp]:
  "tables_only s s" "tables_only s (outb p v s') = tables_only s s'" "tables_only s (idt_set_gate n b sel f s') = tables_only s s'"
  "tables_only s (register_interrupt_handler n h s') = tables_only s s'" "tables_only s (s'\<lparr>idt_limit := l, idt_base := b\<rparr>) = tables_only s s'"
  "tables_only s (s'\<lparr>interrupt_handlers := hs\<rparr>) = tables_only s s'" "tables_only s (s'\<lparr>idtr := r\<rparr>) = tables_only s s'"
  by (simp_all add: tables_only_def outb_def idt_set_gate_def register_interrupt_handler_def)

lemma tables_only_fold: "(\<And>x s'. tables_only s (f x s') = tables_only s s') \<Longrightarrow> tables_only s (fold f xs s') = tables_only s s'"
  by (induction xs arbitrary: s') simp_all

lemma tables_only_init [simp]: "tables_only s (init_idt isr irq at s') = tables_only s s'" "tables_only s (init_panic_handlers s') = tables_only s s'"
  "tables_only s (vga_disable_hw_cursor s') = tables_only s s'"
  by (simp_all add: init_idt_def Let_def pic_remap_def init_panic_handlers_def vga_disable_hw_cursor_def tables_only_fold case_prod_beta
      del: upt_conv_Cons)

lemma tables_only_eq:
  assumes "tables_only s s'"
  shows "\<exists>e l b r hs out. s' = s\<lparr>idt_entries := e, idt_limit := l, idt_base := b, idtr := r, interrupt_handlers := hs, out_ports := out\<rparr>"
proof -
  have "s' = s'\<lparr>idt_entries := idt_entries s', idt_limit := idt_limit s', idt_base := idt_base s', idtr := idtr s',
     interrupt_handlers := interrupt_handlers s', out_ports := out_ports s'\<rparr>" by simp
  also have "\<dots> = (s'\<lparr>idt_entries := idt_entries s, idt_limit := idt_limit s, idt_base := idt_base s, idtr := idtr s,
     interrupt_handlers := interrupt_handlers s, out_ports := out_ports s\<rparr>)
     \<lparr>idt_entries := idt_entries s', idt_limit := idt_limit s', idt_base := idt_base s', idtr := idtr s',
     interrupt_handlers := interrupt_handlers s', out_ports := out_ports s'\<rparr>" by simp
  also have "\<dots> = s\<lparr>idt_entries := idt_entries s', idt_limit := idt_limit s', idt_base := idt_base s', idtr := idtr s',
     interrupt_handlers := interrupt_handlers s', out_ports := out_ports s'\<rparr>"
    using assms by (simp only: tables_only_def)
  finally show ?thesis by blast
qed

lemma length_handlers [simp]:
  "length (interrupt_handlers (init_idt isr irq at s)) = length (interrupt_handlers s)"
  "length (interrupt_handlers (init_panic_handlers s)) = length (interrupt_handlers s)"
proof -
  have f: "length (interrupt_handlers (fold (\<lambda>i. g i) xs s)) = length (interrupt_handlers s)"
    if "\<And>i s. length (interrupt_handlers (g i s)) = length (interrupt_handlers s)" for g and xs :: "nat list" and s :: "'a machine_scheme"
    using that by (induction xs arbitrary: s) simp_all
  show "length (interrupt_handlers (init_idt isr irq at s)) = length (interrupt_handlers s)"
    by (simp add: init_idt_def Let_def f del: upt_conv_Cons)
  show "length (interrupt_handlers (init_panic_handlers s)) = length (interrupt_handlers s)"
    by (simp add: init_panic_handlers_def f register_interrupt_handler_def del: upt_conv_Cons)
qed

lemma paging_init_log: "log_inv (pg_log s) \<Longrightarrow> log_inv (pg_log (snd (paging_init tab dir ticks s)))"
proof -
  have f: "pg_log (fold g xs s) = pg_log s" if "\<And>x s. pg_log (g x s) = pg_log s" for g and xs :: "nat list" and s
    using that by (induction xs arbitrary: s) simp_all
  assume "log_inv (pg_log s)"
  then show ?thesis
    by (simp add: paging_init_def paging_reset_def Let_def plog_def log_inv_msg f identity_table_def paging_lock_page_def)
qed

lemma init_err: "fst (boot_signal_init s) = E_OK" "fst (boot_ring_init L s) = E_OK"
  by (simp_all add: boot_signal_init_def signal_init_def boot_ring_init_def ring_init_def Let_def)

text \<open>The state after the first half.\<close>

lemma boot_first_state:
  assumes "loaded s" and "table_layout (page_table_addr L)"
  shows "\<exists>e l b r hs out g p sg. boot_first L s = s\<lparr>idt_entries := e, idt_limit := l, idt_base := b, idtr := r, interrupt_handlers := hs,
      out_ports := out, k_term := scrollback_init (draw_header (terminal_clear (k_term s))), k_segments := g, k_paging := p, k_sig := sg\<rparr> \<and>
    length hs = 256 \<and> paging_inv p \<and> sig_inv sg \<and> sig_procs sg = k_procs s \<and> log_inv (sig_log sg)"
proof -
  define s0 where "s0 = init_panic_handlers (init_idt (isr_addr L) (irq_addr L) (idt_addr L) (s\<lparr>k_segments := init_gdt (gdt_addr L) (k_segments s)\<rparr>))"
  have "tables_only (s\<lparr>k_segments := init_gdt (gdt_addr L) (k_segments s)\<rparr>) s0" by (simp add: s0_def)
  from tables_only_eq [OF this] obtain e l b r hs out where
    s0: "s0 = s\<lparr>k_segments := init_gdt (gdt_addr L) (k_segments s), idt_entries := e, idt_limit := l, idt_base := b, idtr := r,
      interrupt_handlers := hs, out_ports := out\<rparr>" by auto
  have hs: "length hs = 256"
  proof -
    have "interrupt_handlers s0 = hs" by (simp add: s0)
    moreover have "length (interrupt_handlers s0) = 256" using assms(1) by (simp add: s0_def loaded_def)
    ultimately show ?thesis by simp
  qed
  define log1 where "log1 = log_msg (k_ticks s) LOG_INFO ''RTOS v3.1 starting'' (log_init (k_log s))"
  define s1 where "s1 = s0\<lparr>k_term := scrollback_init (draw_header (terminal_clear (k_term s))),
    out_ports := out @ [(0x3D4, 0x0A), (0x3D5, 0x20)], k_sig := (k_sig s)\<lparr>sig_log := log1\<rparr>\<rparr>"
  obtain pe p where p: "paging_init (page_table_addr L) (page_dir_addr L) (k_ticks s) ((k_paging s)\<lparr>pg_log := log1\<rparr>) = (pe, p)" by fastforce
  have "log_inv log1" using assms(1) by (simp add: log1_def log_inv_msg log_inv_init loaded_def)
  then have plog: "log_inv (pg_log p)" using paging_init_log [of "(k_paging s)\<lparr>pg_log := log1\<rparr>" "page_table_addr L" "page_dir_addr L" "k_ticks s"] p by simp
  have pinv: "pe = E_OK" "paging_inv p" using paging_init_state(1,2) [OF assms(2) p] by auto
  have b1: "k_log_msg LOG_INFO ''RTOS v3.1 starting'' (upd_log log_init (upd_term scrollback_init (upd_term draw_header
      (vga_disable_hw_cursor (upd_term terminal_clear s0))))) = s1"
    by (simp add: s1_def log1_def s0 upd_term_def vga_disable_hw_cursor_def outb_def upd_log_def k_log_msg_def log_at_def)
  have b2: "boot_paging_init L s1 = (E_OK, upd_log (\<lambda>_. pg_log p) (s1\<lparr>k_paging := p\<rparr>))"
    using p pinv(1) by (simp add: boot_paging_init_def s1_def s0)
  have b: "boot_first L s = report E_OK ''Ring init failed'' ''x86 Rings initialized'' (snd (boot_ring_init L
      (report E_OK ''Signal init failed'' ''Signals initialized'' (snd (boot_signal_init
      (report E_OK ''Paging init failed'' ''Paging initialized'' (upd_log (\<lambda>_. pg_log p) (s1\<lparr>k_paging := p\<rparr>))))))))"
    unfolding boot_first_def Let_def s0_def [symmetric] b1 b2 case_prod_beta fst_conv snd_conv init_err ..
  note defs = b report_def boot_ring_init_def ring_init_def boot_signal_init_def signal_init_def upd_log_def k_log_msg_def log_at_def Let_def
    s1_def s0
  have "boot_first L s = s\<lparr>idt_entries := e, idt_limit := l, idt_base := b, idtr := r, interrupt_handlers := hs,
      out_ports := out @ [(0x3D4, 0x0A), (0x3D5, 0x20)], k_term := scrollback_init (draw_header (terminal_clear (k_term s))),
      k_segments := k_segments (boot_first L s), k_paging := p, k_sig := k_sig (boot_first L s)\<rparr>"
    by (simp add: defs)
  moreover have "sig_procs (k_sig (boot_first L s)) = k_procs s" "log_inv (sig_log (k_sig (boot_first L s)))"
    using plog by (simp_all add: defs log_inv_msg gdt_set_tss_def gdt_set_gate_def)
  moreover have "sig_inv (k_sig (boot_first L s))"
    using assms(1) by (auto simp: defs sig_inv_def signal_init_ctx_def loaded_def)
  ultimately show ?thesis using hs pinv(2) by blast
qed

text \<open>The timer as \<open>init_timer\<close> and the registration of the clock leave it.\<close>

lemma boot_timer:
  fixes t :: timer and f :: u32
  assumes "length (callbacks t) = 8"
  defines "t' \<equiv> snd (timer_register_callback f (reset_timer 100 t))"
  shows "timer_inv t'" "active t' = [f]"
proof -
  have "length (callbacks (reset_timer 100 t)) = 8 \<and> (\<forall>i<8. callbacks (reset_timer 100 t) ! i = 0) \<and>
      cb_count (reset_timer 100 t) = 0 \<and> timer_freq_hz (reset_timer 100 t) = 100"
    using assms(1) by (simp add: reset_timer_def TIMER_MAX_CALLBACKS_def upt_rec nth_list_update less_Suc_eq numeral_eq_Suc)
  then show "timer_inv t'" "active t' = [f]"
    by (simp_all add: t'_def timer_register_callback_def TIMER_MAX_CALLBACKS_def timer_inv_def active_def take_Suc_conv_app_nth nth_list_update)
qed

definition fresh_shell :: "shell \<Rightarrow> shell" where
  "fresh_shell h = h\<lparr>buf_idx := 0, history_count := 0, history_index := -1, saved_buf_idx := 0,
     saved_buffer := (saved_buffer h)[0 := NUL], command_history := map (\<lambda>e. e[0 := NUL]) (command_history h)\<rparr>"

lemma init_shell_eq: "init_shell s = s\<lparr>k_shell := fresh_shell (k_shell s), k_term := k_term (init_shell s)\<rparr>"
  by (simp add: init_shell_def Let_def print_prompt_def print_str_term upd_shell_def fresh_shell_def)

lemma boot_shell:
  assumes "loaded s"
  shows "shell_inv (fresh_shell (k_shell s))"
proof -
  let ?h = "k_shell s"
  have "list_all (\<lambda>e. length e = 128 \<and> NUL \<in> set e) (map (\<lambda>e. e[0 := NUL]) (command_history ?h))"
    using assms by (auto simp: loaded_def list_all_iff intro!: set_update_memI)
  moreover have "line_buffer ((saved_buffer ?h)[0 := NUL]) 0" "line_buffer (buffer ?h) 0"
    using assms by (auto simp: loaded_def line_buffer_def intro: set_update_memI)
  ultimately show ?thesis
    using assms by (simp add: fresh_shell_def shell_inv_def loaded_def)
qed

lemma boot_screen: "screen_ok s \<Longrightarrow> screen_ok (init_shell s)"
  by (simp add: init_shell_def Let_def)

lemma boot_term:
  assumes "length (vga t) = 2000"
  shows "term_inv (scrollback_init (draw_header (terminal_clear t)))"
proof -
  let ?t = "draw_header (terminal_clear t)"
  have "term_inv ?t" unfolding term_inv_cong [OF header_text] by (rule terminal_clear_text [OF assms])
  then have "length (vga ?t) = 2000" unfolding term_inv_def by blast
  then have "term_inv (terminal_clear ?t)" by (rule terminal_clear_text)
  moreover have "same_text (terminal_clear ?t) (scrollback_init ?t)"
    unfolding terminal_clear_def clear_row_fill by (rule same_text_fold) (rule same_text_fill)
  ultimately show ?thesis by (simp add: term_inv_cong)
qed

text \<open>The state when \<open>kernel_main\<close> begins to halt, up to the tables of the machine.\<close>

lemma kernel_main_state:
  assumes "loaded s" and "table_layout (page_table_addr L)"
  obtains s' hs p sg where "kernel_main L s = Some s'" "length hs = 256" "paging_inv p" "sig_inv sg" "log_inv (sig_log sg)" "screen_ok s'"
    "sig_procs sg = k_procs s"
    "interrupt_handlers s' = hs[32 := ISR_TIMER, 33 := ISR_KEYBOARD]"
    "m_timer s' = snd (timer_register_callback (uptime_addr L) (reset_timer 100 (m_timer s)))"
    "m_tasking s' = create_task (task_stack_addr L) (task_b_addr L) 2 (create_task (task_stack_addr L) (task_a_addr L) 3 (init_tasking (m_tasking s)))"
    "k_shell s' = fresh_shell (k_shell s)" "k_heap s' = init_heap (k_heap s)" "k_files s' = vfs_init (k_files s)"
    "vga_mutex s' = mutex_init (vga_mutex s)" "msg_queue s' = queue_init (msg_queue s)" "k_paging s' = p"
    "\<exists>t. k_sig s' = log_at t LOG_INFO ''Kernel ready. CLI active.'' (log_at t LOG_INFO ''Enabling interrupts'' (sg\<lparr>sig_procs := process_init (k_procs s)\<rparr>))"
proof -
  from boot_first_state [OF assms] obtain e l b r hs out g p sg where
    b1: "boot_first L s = s\<lparr>idt_entries := e, idt_limit := l, idt_base := b, idtr := r, interrupt_handlers := hs,
      out_ports := out, k_term := scrollback_init (draw_header (terminal_clear (k_term s))), k_segments := g, k_paging := p, k_sig := sg\<rparr>"
    and f: "length hs = 256" "paging_inv p" "sig_inv sg" "sig_procs sg = k_procs s" "log_inv (sig_log sg)" by blast
  define T where "T = reset_timer 100 (m_timer s)"
  obtain out' where it: "init_timer 100 (boot_first L s) =
      Some ((boot_first L s)\<lparr>m_timer := T, interrupt_handlers := hs[32 := ISR_TIMER], out_ports := out'\<rparr>)"
    by (simp add: init_timer_def pit_setup_def register_interrupt_handler_def outb_def b1 T_def)
  define K where "K = create_task (task_stack_addr L) (task_b_addr L) 2 (create_task (task_stack_addr L) (task_a_addr L) 3 (init_tasking (m_tasking s)))"
  define s3 where "s3 = (boot_first L s)\<lparr>out_ports := out', m_timer := snd (timer_register_callback (uptime_addr L) T),
    k_kbd := (k_kbd s)\<lparr>ctrl_pressed := False, extended_mode := False\<rparr>, interrupt_handlers := hs[32 := ISR_TIMER, 33 := ISR_KEYBOARD],
    k_heap := init_heap (k_heap s), k_files := vfs_init (k_files s), vga_mutex := mutex_init (vga_mutex s),
    msg_queue := queue_init (msg_queue s), m_tasking := K, k_sig := sg\<lparr>sig_procs := process_init (k_procs s)\<rparr>\<rparr>"
  define s4 where "s4 = init_shell s3"
  have main: "kernel_main L s = Some (k_log_msg LOG_INFO ''Kernel ready. CLI active.'' (k_log_msg LOG_INFO ''Enabling interrupts'' s4))"
    unfolding kernel_main_def Let_def it
    by (simp add: s4_def s3_def K_def init_keyboard_def upd_kbd_def register_interrupt_handler_def upd_tasking_def set_procs_def b1 f(4))
  have "screen_ok s3" using boot_term assms(1) by (simp add: s3_def b1 loaded_def)
  then have scr: "screen_ok s4" unfolding s4_def by (rule boot_screen)
  have s4: "s4 = s3\<lparr>k_shell := fresh_shell (k_shell s3), k_term := k_term s4\<rparr>" unfolding s4_def by (rule init_shell_eq)
  have fields: "interrupt_handlers s4 = hs[32 := ISR_TIMER, 33 := ISR_KEYBOARD]" "m_timer s4 = snd (timer_register_callback (uptime_addr L) T)"
    "m_tasking s4 = K" "k_shell s4 = fresh_shell (k_shell s)" "k_heap s4 = init_heap (k_heap s)" "k_files s4 = vfs_init (k_files s)"
    "vga_mutex s4 = mutex_init (vga_mutex s)" "msg_queue s4 = queue_init (msg_queue s)" "k_paging s4 = p"
    "k_sig s4 = sg\<lparr>sig_procs := process_init (k_procs s)\<rparr>"
    by (subst s4, simp add: s3_def b1)+
  show thesis
    by (rule that [OF main f(1,2,3,5) _ f(4)]) (use scr fields in \<open>auto simp: k_log_msg_def T_def K_def\<close>)
qed

text \<open>What the program relies on when it is loaded.\<close>

definition boot_ok :: "layout \<Rightarrow> kernel \<Rightarrow> bool" where
  "boot_ok L s \<longleftrightarrow> loaded s \<and> table_layout (page_table_addr L) \<and> uptime_addr L \<noteq> 0"

lemma boot_services:
  assumes "boot_ok L s" and "kernel_main L s = Some s'"
  shows "services_ok s'" "demo_ok s'" "proc_inv (k_procs s') [slot 0]" "vfs_view (k_files s') = map_of boot_files" "queue_list (msg_queue s') = []"
proof -
  have l: "loaded s" "table_layout (page_table_addr L)" using assms by (auto simp: boot_ok_def)
  obtain p sg t where m: "paging_inv p" "sig_inv sg" "log_inv (sig_log sg)"
    and f: "k_files s' = vfs_init (k_files s)" "vga_mutex s' = mutex_init (vga_mutex s)" "msg_queue s' = queue_init (msg_queue s)"
    "k_paging s' = p"
    "k_sig s' = log_at t LOG_INFO ''Kernel ready. CLI active.'' (log_at t LOG_INFO ''Enabling interrupts'' (sg\<lparr>sig_procs := process_init (k_procs s)\<rparr>))"
    using kernel_main_state [OF l] assms(2) by (metis option.inject)
  have 1: "proc_inv (process_init (k_procs s)) [slot 0]" using process_init_inv [of "k_procs s"] l(1) by (simp add: loaded_def)
  then show "proc_inv (k_procs s') [slot 0]" by (simp add: f(5))
  have 2: "vfs_inv (k_files s')" "vfs_view (k_files s') = map_of boot_files"
    using vfs_init_view [of "k_files s"] l(1) by (simp_all add: f(1) loaded_def)
  then show "vfs_view (k_files s') = map_of boot_files" by simp
  have 3: "queue_inv (msg_queue s')" "queue_list (msg_queue s') = []" "mutex_free (vga_mutex s')"
    using l(1) by (simp_all add: f loaded_def queue_init_inv queue_init_empty mutex_free_def mutex_init_def)
  then show "demo_ok s'" "queue_list (msg_queue s') = []" by (simp_all add: demo_ok_def)
  have "procs_ok (k_procs s')" using 1 by (auto simp: f(5) procs_ok_def process_init_def intro!: exI [of _ "[slot 0]"])
  moreover have "sig_inv (k_sig s')" "log_inv (k_log s')"
    using m(2,3) by (simp_all add: f(5) log_at_inv) (simp add: sig_inv_def)
  ultimately show "services_ok s'" using m(1) f(4) 2 3 by (simp add: services_ok_def)
qed

lemma boot_inv:
  assumes "boot_ok L s" and "kernel_main L s = Some s'"
  shows "kernel_inv L s'"
proof -
  have l: "loaded s" "table_layout (page_table_addr L)" "uptime_addr L \<noteq> 0" using assms(1) by (auto simp: boot_ok_def)
  obtain hs p sg where f: "length hs = 256" "screen_ok s'"
    "interrupt_handlers s' = hs[32 := ISR_TIMER, 33 := ISR_KEYBOARD]"
    "m_timer s' = snd (timer_register_callback (uptime_addr L) (reset_timer 100 (m_timer s)))"
    "m_tasking s' = create_task (task_stack_addr L) (task_b_addr L) 2 (create_task (task_stack_addr L) (task_a_addr L) 3 (init_tasking (m_tasking s)))"
    "k_shell s' = fresh_shell (k_shell s)" "k_heap s' = init_heap (k_heap s)"
    using kernel_main_state [OF l(1,2)] assms(2) by (metis option.inject)
  have "timer_inv (m_timer s')" "active (m_timer s') = [uptime_addr L]"
    unfolding f(4) using l(1) by (auto simp: loaded_def intro!: boot_timer)
  moreover have "tasking_inv (m_tasking s')"
    unfolding f(5) using l(1) by (intro create_task_inv init_tasking_inv) (simp add: loaded_def)
  moreover have "shell_heap_ok s'"
    using init_heap_rep [of "k_heap s"] l(1) by (auto simp: shell_heap_ok_def f(6,7) fresh_shell_def loaded_def)
  ultimately show ?thesis
    using f(1-3) l boot_shell [OF l(1)] boot_services(1) [OF assms] by (simp add: kernel_inv_def handlers_ok_def f(6))
qed

section \<open>Reachable states\<close>

text \<open>
  Everything that happens after boot, in any order: interrupts of the timer and of the keyboard, with any scancode, on
  any stack and with any registers, and rounds of the two tasks, whose \<open>int $32\<close> is served by the kernel itself.
\<close>

definition own_int_32 :: "layout \<Rightarrow> env \<Rightarrow> u8 \<Rightarrow> u32 \<Rightarrow> registers \<Rightarrow> kernel \<Rightarrow> kernel option" where
  "own_int_32 L env code esp regs s = map_option snd (kernel_irq L env code esp (regs\<lparr>r_int_no := 32\<rparr>) s)"

inductive kernel_step :: "layout \<Rightarrow> kernel \<Rightarrow> kernel \<Rightarrow> bool" for L where
  irq: "r_int_no regs \<in> {32, 33} \<Longrightarrow> kernel_irq L env code esp regs s = Some (e, s') \<Longrightarrow> kernel_step L s s'"
| producer: "int_32 env = own_int_32 L env' code esp regs \<Longrightarrow> task_a env wq wv n s = Some (n', s') \<Longrightarrow> kernel_step L s s'"
| consumer: "int_32 env = own_int_32 L env' code esp regs \<Longrightarrow> task_b env wq wv n s = Some (n', s') \<Longrightarrow> kernel_step L s s'"

abbreviation reachable :: "layout \<Rightarrow> kernel \<Rightarrow> kernel \<Rightarrow> bool" where
  "reachable L s0 \<equiv> reaches {s. kernel_main L s0 = Some s} (kernel_step L)"

lemma own_int_32_ok:
  assumes "int_32 env = own_int_32 L env' code esp regs"
  shows "int_32_ok L env"
  unfolding int_32_ok_def
proof (intro allI impI)
  fix s s' assume s: "kernel_inv L s" and "int_32 env s = Some s'"
  then obtain e where "kernel_irq L env' code esp (regs\<lparr>r_int_no := 32\<rparr>) s = Some (e, s')"
    unfolding assms own_int_32_def by auto
  from irq_inv [OF s _ this] irq_shared [OF s _ this] show "kernel_inv L s' \<and> shared s' = shared s" by simp
qed

lemma kernel_step_inv:
  assumes "kernel_step L s s'" and inv: "kernel_inv L s" "demo_ok s"
  shows "kernel_inv L s' \<and> demo_ok s'"
  using assms(1)
proof (cases rule: kernel_step.cases)
  case irq
  with irq_inv [OF inv(1)] irq_shared [OF inv(1)] demo_ok_cong [of s' s] inv(2) show ?thesis by blast
next
  case producer
  with task_a_inv [OF own_int_32_ok inv] show ?thesis by blast
next
  case consumer
  with task_b_inv [OF own_int_32_ok inv] show ?thesis by blast
qed

interpretation order: step_invariant "{s. kernel_main L s0 = Some s}" "kernel_step L" "\<lambda>s. boot_ok L s0 \<longrightarrow> kernel_inv L s \<and> demo_ok s" for L s0
  by unfold_locales (use boot_inv boot_services(2) kernel_step_inv in auto)

lemma reachable_inv:
  assumes "boot_ok L s0" and "reachable L s0 s"
  shows "kernel_inv L s" "demo_ok s"
  using order.reaches_inv [OF assms(2)] assms(1) by blast+

text \<open>
  The process table never gives the processor to anyone: whatever \<open>spawn\<close> has created, the idle process stays the current
  one, because nothing calls \<open>process_schedule\<close>.
\<close>

lemma spawned_never_runs: "boot_ok L s0 \<Longrightarrow> reachable L s0 s \<Longrightarrow> process_current (k_procs s) = slot 0"
  using reachable_inv(1) [of L s0 s] by (auto simp: kernel_inv_def services_ok_def procs_ok_def process_current_def)

section \<open>Nothing waits\<close>

text \<open>The command on the line, and the greeting of \<open>sys\<close> in memory.\<close>

definition line_args :: "kernel \<Rightarrow> string list" where
  "line_args s = split_args ((buffer (k_shell s))[buf_idx (k_shell s) := NUL])"

definition greeting_ok :: "env \<Rightarrow> bool" where
  "greeting_ok env \<longleftrightarrow> (\<exists>str. string_at (mem_byte env) (hello_at env) str)"

lemma execute_returns:
  assumes "kernel_inv L s" and "greeting_ok env" and "\<not> ends_session (line_args s)"
  shows "\<exists>s'. execute_command env s = Some s'"
proof -
  define s1 where "s1 = upd_shell (\<lambda>h. h\<lparr>buffer := (buffer h)[buf_idx h := NUL], history_index := -1, saved_buf_idx := 0,
    saved_buffer := (saved_buffer h)[0 := NUL]\<rparr>) s"
  define s2 where "s2 = upd_shell (history_add (buffer (k_shell s1))) s1"
  have "test_alloc_ptr (history_add c h) = test_alloc_ptr h" for c h by (subst history_add_frame) simp
  then have c: "core s2 = core s" by (simp add: s2_def s1_def core_upd_shell)
  have args: "split_args (buffer (k_shell s2)) = line_args s" by (simp add: s2_def s1_def line_args_def upd_shell_def)
  note d = kernel_invD [OF assms(1)]
  obtain str where str: "string_at (mem_byte env) (hello_at env) str" using assms(2) by (auto simp: greeting_ok_def)
  have "services_ok s2" "shell_heap_ok s2" "tasking_inv (m_tasking s2)" "timer_freq_hz (m_timer s2) \<noteq> 0"
    using d c core_services [OF c] by (auto simp: core_def shell_heap_ok_def handlers_ok_def timer_inv_def)
  then have "\<exists>s3. run_command env (line_args s) s2 = Some s3" if "line_args s \<noteq> []"
    using run_served [OF _ _ _ _ str assms(3) that, of s2] by (auto simp: served_def)
  then show ?thesis
    unfolding execute_command_def Let_def s1_def [symmetric] s2_def [symmetric] args by auto
qed

lemma handle_returns:
  assumes "kernel_inv L s" and "greeting_ok env" and "\<not> ends_session (line_args s)"
  shows "\<exists>s'. shell_handle_key env c s = Some s'"
proof -
  have "line_args (upd_term f s) = line_args s" for f by (simp add: line_args_def upd_term_def)
  with assms scroll_inv(1) [OF assms(1)] execute_returns [of L] show ?thesis
    by (auto simp: shell_handle_key_def Let_def upd_term_def)
qed

lemma keyboard_returns:
  assumes "kernel_inv L s" and "greeting_ok env" and "\<not> ends_session (line_args s)"
  shows "\<exists>s'. keyboard_callback env code s = Some s'"
proof -
  have l: "line_args (upd_term f s) = line_args s" "line_args (upd_kbd g s) = line_args s" for f g s
    by (simp_all add: line_args_def upd_term_def upd_kbd_def)
  have plain: "\<exists>s'. plain_key env code s = Some s'" if "kernel_inv L s" "\<not> ends_session (line_args s)" for s
    using handle_returns [OF scroll_inv(1) [OF that(1)] assms(2)] that(2) by (simp add: plain_key_def l Let_def)
  let ?s = "upd_kbd (\<lambda>k. k\<lparr>extended_mode := False\<rparr>) s"
  have "kernel_inv L ?s" using assms(1) by (simp add: kbd_inv)
  with plain [of s] plain [of ?s] assms show ?thesis by (simp add: keyboard_callback_def Let_def l)
qed

text \<open>A timer interrupt returns with what the scheduler answered.\<close>

lemma timer_returns:
  assumes "kernel_inv L s" and "r_int_no regs = 32"
  shows "\<exists>e s'. kernel_irq L env code esp regs s = Some (e, s') \<and> map_option fst (schedule esp (m_tasking s)) = Some e"
proof -
  from schedule_returns [OF kernel_invD(2) [OF assms(1)], of esp] obtain e t where "schedule esp (m_tasking s) = Some (e, t)" by blast
  with timer_irq [OF kernel_invD(1) [OF assms(1)] assms(2), of env code esp] show ?thesis by simp
qed

lemma irq_returns:
  assumes "kernel_inv L s" and "greeting_ok env" and "\<not> ends_session (line_args s)" and "r_int_no regs \<in> {32, 33}"
  shows "\<exists>e s'. kernel_irq L env code esp regs s = Some (e, s')"
proof (cases "r_int_no regs = 32")
  case True
  with timer_returns [OF assms(1)] show ?thesis by blast
next
  case False
  then have n: "r_int_no regs = 33" using assms(4) by simp
  have "kernel_inv L (outb 0x20 0x20 s)" using assms(1) by (simp add: kernel_inv_def shell_heap_ok_def) (simp add: outb_def)
  moreover have "line_args (outb 0x20 0x20 s) = line_args s" by (simp add: line_args_def outb_def)
  ultimately obtain s' where "keyboard_callback env code (outb 0x20 0x20 s) = Some s'"
    using keyboard_returns [of L "outb 0x20 0x20 s" env code] assms(2,3) by auto
  with key_irq [OF kernel_invD(1) [OF assms(1)] n, of env code esp] show ?thesis by simp
qed

lemma sleep_returns:
  assumes "kernel_inv L s" and "int_32 env = own_int_32 L env' code esp regs"
  shows "\<exists>s'. sleep_here env n s = Some s'"
proof -
  have "\<exists>r. kernel_irq L env' code esp (regs\<lparr>r_int_no := 32\<rparr>) (asleep n s) = Some r"
    using timer_returns [OF asleep_inv [OF assms(1), of n], of "regs\<lparr>r_int_no := 32\<rparr>"] by fastforce
  then show ?thesis by (auto simp: sleep_here_def assms(2) own_int_32_def)
qed

section \<open>Properties\<close>


text \<open>
  C1. The kernel stays in order: in every state reachable from boot by any sequence of timer and keyboard interrupts,
  whatever is typed and whichever commands run, and by rounds of the demonstration tasks, the invariant of the kernel
  holds, the message queue is well formed and its lock and that of the screen are free; and a timer interrupt is always
  served: it returns, with the stack pointer of the task the scheduler chose.
\<close>

theorem kernel_stays_in_order:
  assumes "boot_ok L s0" and "reachable L s0 s" and "r_int_no regs = 32"
  shows "kernel_inv L s \<and> queue_inv (msg_queue s) \<and> mutex_free (vga_mutex s) \<and>
    (\<exists>e s'. kernel_irq L env code esp regs s = Some (e, s') \<and> map_option fst (schedule esp (m_tasking s)) = Some e)"
proof -
  note inv = reachable_inv [OF assms(1,2)]
  with timer_returns [OF inv(1) assms(3)] show ?thesis by (simp add: demo_ok_def)
qed

text \<open>
  C10. One timer interrupt, exactly: the interrupt controller gets its acknowledgement before anything else, the tick count
  rises by one (wrapping at 32 bits), the scheduler runs on the tasks as they were, and the clock in the header is
  redrawn when a new second has begun, showing hours, minutes and seconds in decimal for the first hundred hours.
  Nothing else of the kernel changes. The same holds for a task that gives up the processor with \<open>int $32\<close>: it
  advances the time by one tick.
\<close>

theorem timer_interrupt_exact:
  assumes "kernel_inv L s" and "r_int_no regs = 32"
  defines "sec \<equiv> (timer_ticks (m_timer s) + 1) div timer_freq_hz (m_timer s)"
  shows "\<exists>e t. schedule esp (m_tasking s) = Some (e, t) \<and>
    kernel_irq L env code esp regs s = Some (e, s\<lparr>out_ports := out_ports s @ [(0x20, 0x20)],
      m_timer := (m_timer s)\<lparr>timer_ticks := timer_ticks (m_timer s) + 1\<rparr>, m_tasking := t, last_sec := sec,
      k_term := (if sec = last_sec s then k_term s
        else if unat sec < 360000 then draw_clock (clock_text (unat sec)) (k_term s) else draw_clock (uptime_text sec) (k_term s))\<rparr>)"
proof -
  from schedule_returns [OF kernel_invD(2) [OF assms(1)], of esp] obtain e t where t: "schedule esp (m_tasking s) = Some (e, t)" by blast
  have "(outb 0x20 0x20 (clock_tick s))\<lparr>m_tasking := t\<rparr> = s\<lparr>out_ports := out_ports s @ [(0x20, 0x20)],
      m_timer := (m_timer s)\<lparr>timer_ticks := timer_ticks (m_timer s) + 1\<rparr>, m_tasking := t, last_sec := sec,
      k_term := (if sec = last_sec s then k_term s else draw_clock (uptime_text sec) (k_term s))\<rparr>"
    by (simp add: outb_def clock_tick_def Let_def sec_def)
  with t timer_irq [OF kernel_invD(1) [OF assms(1)] assms(2), of env code esp] uptime_text_clock [of sec] show ?thesis
    by simp
qed


section \<open>Witnesses\<close>

definition demo_kernel_layout :: layout where
  "demo_kernel_layout = \<lparr>gdt_addr = 0x104000, idt_addr = 0x106000, isr_addr = (\<lambda>v. 0x100000 + 16 * of_nat v),
     irq_addr = (\<lambda>v. 0x101000 + 16 * of_nat v), page_table_addr = demo_tab, page_dir_addr = 0x200000, tss_addr = 0x105000,
     uptime_addr = 0x102000, task_a_addr = 0x103000, task_b_addr = 0x103100, task_stack_addr = (\<lambda>p. of_nat p * 8192)\<rparr>"

lemma quiet_loaded: "loaded quiet_kernel"
proof -
  have "\<forall>i<TASK_POOL_SIZE. length (t_stack (tasks boot_tasking (task_pool i))) = 1024"
    using boot_tasking_inv by (simp add: tasking_inv_def)
  moreover have "vfs_shape (vfs_init (replicate 10 blank_file))"
  proof -
    have "vfs_shape (replicate 10 blank_file)" by (simp add: vfs_shape_def blank_file_def MAX_FILES_def list_all_iff)
    from vfs_init_view [OF this] show ?thesis by (simp add: vfs_inv_def vfs_shape_def list_all_length)
  qed
  moreover have "length (q_data empty_queue) = QUEUE_SIZE" using empty_queue_inv by (simp add: queue_inv_def)
  moreover have "length (signal_contexts boot_sigsys) = 16" "\<forall>c\<in>set (signal_contexts boot_sigsys). length (handlers c) = NUM_SIGNALS"
    using boot_sig_inv by (simp_all add: sig_inv_def)
  moreover have "\<forall>i<MAX_PROCESSES. length (p_name (procs (sig_procs boot_sigsys) (slot i))) = MAX_PROC_NAME \<and>
      length (p_stack (procs (sig_procs boot_sigsys) (slot i))) = 2048"
    using init_raw_procs by (simp add: boot_sig_procs proc_inv_def)
  moreover have "length (vga (terminal_clear blank_screen)) = 2000"
    using terminal_clear_text(1) [OF blank_screen_vga] unfolding term_inv_def by blast
  moreover have "length (log_buffer (sig_log boot_sigsys)) = LOG_ENTRIES" "list_all (\<lambda>e. length (le_message e) = LOG_ENTRY_MAX) (log_buffer (sig_log boot_sigsys))"
  proof -
    have "log_inv blank_log" by (simp add: log_inv_def blank_log_def log_indices_ok_def LOG_ENTRIES_def list_all_iff)
    then have "log_inv (sig_log boot_sigsys)"
      by (simp add: boot_sigsys_def signal_init_def raw_sigsys_def Let_def log_at_def log_inv_msg)
    then show "length (log_buffer (sig_log boot_sigsys)) = LOG_ENTRIES"
      "list_all (\<lambda>e. length (le_message e) = LOG_ENTRY_MAX) (log_buffer (sig_log boot_sigsys))" by (simp_all add: log_inv_def)
  qed
  ultimately show ?thesis by (simp add: loaded_def quiet_kernel_def raw_machine_def list_all_iff)
qed

lemma quiet_boot: "boot_ok demo_kernel_layout quiet_kernel"
  using quiet_loaded demo_layout by (simp add: boot_ok_def demo_kernel_layout_def)

lemma quiet_main: "\<exists>s. kernel_main demo_kernel_layout quiet_kernel = Some s"
  using kernel_main_state [of quiet_kernel demo_kernel_layout] quiet_boot by (metis boot_ok_def)

definition demo_regs :: registers where
  "demo_regs = fault_regs\<lparr>r_int_no := 32\<rparr>"


theorem kernel_stays_in_order_witness:
  "\<exists>s e s'. reachable demo_kernel_layout quiet_kernel s \<and> kernel_inv demo_kernel_layout s \<and>
    kernel_irq demo_kernel_layout quiet_env 0 0x9000 demo_regs s = Some (e, s')"
proof -
  obtain s where "kernel_main demo_kernel_layout quiet_kernel = Some s" using quiet_main by blast
  then have "reachable demo_kernel_layout quiet_kernel s" by (intro reaches.start) simp
  moreover have "r_int_no demo_regs = 32" by (simp add: demo_regs_def)
  ultimately show ?thesis using kernel_stays_in_order [OF quiet_boot, of s demo_regs quiet_env 0 "0x9000"] by blast
qed

theorem timer_interrupt_exact_witness:
  "\<exists>s e s'. kernel_main demo_kernel_layout quiet_kernel = Some s \<and>
    kernel_irq demo_kernel_layout quiet_env 0 0x9000 demo_regs s = Some (e, s') \<and>
    timer_ticks (m_timer s') = timer_ticks (m_timer s) + 1"
proof -
  obtain s where s: "kernel_main demo_kernel_layout quiet_kernel = Some s" using quiet_main by blast
  have "r_int_no demo_regs = 32" by (simp add: demo_regs_def)
  from timer_interrupt_exact [OF boot_inv [OF quiet_boot s] this, of "0x9000" quiet_env 0] obtain e s' where
    "kernel_irq demo_kernel_layout quiet_env 0 0x9000 demo_regs s = Some (e, s')" "timer_ticks (m_timer s') = timer_ticks (m_timer s) + 1"
    by auto
  with s show ?thesis by blast
qed


end
