(* ===== verification/Stubs.thy ===== *)
theory Stubs
  imports Interrupts
begin

text \<open>
  \<^verbatim>\<open>interrupts.s\<close>, \<^verbatim>\<open>gdt_flush.s\<close> and \<^verbatim>\<open>boot.s\<close>: the assembly through which the processor enters and leaves the kernel, as lists
  of instructions of a small machine. A C function that is called is an argument: it gets the stack pointer and the
  memory it finds its arguments in, and gives its result with what it leaves in the registers it need not save.
  Memory is a function from the addresses of words; every stack pointer here is a multiple of four.
\<close>

section \<open>Model: the processor\<close>

datatype reg = EAX | ECX | EDX | EBX | ESP | EBP | ESI | EDI

datatype sreg = CS | DS | ES | FS | GS | SS

text \<open>Both are finite, so that statements about all registers compute.\<close>

instantiation reg :: enum
begin

definition enum_reg :: "reg list" where
  "enum_reg = [EAX, ECX, EDX, EBX, ESP, EBP, ESI, EDI]"

definition enum_all_reg :: "(reg \<Rightarrow> bool) \<Rightarrow> bool" where
  "enum_all_reg P \<longleftrightarrow> list_all P [EAX, ECX, EDX, EBX, ESP, EBP, ESI, EDI]"

definition enum_ex_reg :: "(reg \<Rightarrow> bool) \<Rightarrow> bool" where
  "enum_ex_reg P \<longleftrightarrow> list_ex P [EAX, ECX, EDX, EBX, ESP, EBP, ESI, EDI]"

instance
proof
  have all: "(\<forall>r. P r) \<longleftrightarrow> P EAX \<and> P ECX \<and> P EDX \<and> P EBX \<and> P ESP \<and> P EBP \<and> P ESI \<and> P EDI" for P
    by (metis reg.exhaust)
  show "UNIV = set (enum_class.enum :: reg list)" by (auto simp: enum_reg_def) (metis reg.exhaust)
  show "distinct (enum_class.enum :: reg list)" by (simp add: enum_reg_def)
  show "enum_class.enum_all P \<longleftrightarrow> Ball UNIV P" for P :: "reg \<Rightarrow> bool" by (simp add: enum_all_reg_def all)
  show "enum_class.enum_ex P \<longleftrightarrow> Bex UNIV P" for P :: "reg \<Rightarrow> bool"
    using all [of "\<lambda>r. \<not> P r"] by (auto simp: enum_ex_reg_def)
qed

end

instantiation sreg :: enum
begin

definition enum_sreg :: "sreg list" where
  "enum_sreg = [CS, DS, ES, FS, GS, SS]"

definition enum_all_sreg :: "(sreg \<Rightarrow> bool) \<Rightarrow> bool" where
  "enum_all_sreg P \<longleftrightarrow> list_all P [CS, DS, ES, FS, GS, SS]"

definition enum_ex_sreg :: "(sreg \<Rightarrow> bool) \<Rightarrow> bool" where
  "enum_ex_sreg P \<longleftrightarrow> list_ex P [CS, DS, ES, FS, GS, SS]"

instance
proof
  have all: "(\<forall>r. P r) \<longleftrightarrow> P CS \<and> P DS \<and> P ES \<and> P FS \<and> P GS \<and> P SS" for P
    by (metis sreg.exhaust)
  show "UNIV = set (enum_class.enum :: sreg list)" by (auto simp: enum_sreg_def) (metis sreg.exhaust)
  show "distinct (enum_class.enum :: sreg list)" by (simp add: enum_sreg_def)
  show "enum_class.enum_all P \<longleftrightarrow> Ball UNIV P" for P :: "sreg \<Rightarrow> bool" by (simp add: enum_all_sreg_def all)
  show "enum_class.enum_ex P \<longleftrightarrow> Bex UNIV P" for P :: "sreg \<Rightarrow> bool"
    using all [of "\<lambda>r. \<not> P r"] by (auto simp: enum_ex_sreg_def)
qed

end

lemma all_sreg: "(\<forall>r. P r) \<longleftrightarrow> list_all P [CS, DS, ES, FS, GS, SS]"
proof -
  have "(\<forall>r. P r) \<longleftrightarrow> enum_class.enum_all P" by simp
  then show ?thesis unfolding enum_all_sreg_def .
qed

record cpu =
  gpr :: "reg \<Rightarrow> u32"
  seg :: "sreg \<Rightarrow> u16"
  pc :: u32
  flags :: u32

type_synonym memory = "u32 \<Rightarrow> u32"

text \<open>The result of a C function, the registers and flags the calling convention lets it change, memory and state.\<close>

record 's c_result =
  ret_eax :: u32
  ret_ecx :: u32
  ret_edx :: u32
  ret_flags :: u32
  ret_mem :: memory
  ret_state :: 's

type_synonym 's c_function = "u32 \<Rightarrow> memory \<Rightarrow> 's \<Rightarrow> 's c_result option"

type_synonym 's config = "cpu \<times> memory \<times> 's"

datatype instr =
    CLI | STI | PUSHA | POPA | PUSHD u32 | PUSH reg | POP reg | MOV reg reg | MOV_IMM reg u32 | MOV_AX_SEG sreg | MOV_AX u16
  | MOV_SEG_AX sreg | ADD_ESP u32 | CALL | JMP_FAR u16 | RET | IRET

definition set_reg :: "reg \<Rightarrow> u32 \<Rightarrow> cpu \<Rightarrow> cpu" where
  "set_reg r v c = c\<lparr>gpr := (gpr c)(r := v)\<rparr>"

definition set_seg :: "sreg \<Rightarrow> u16 \<Rightarrow> cpu \<Rightarrow> cpu" where
  "set_seg r v c = c\<lparr>seg := (seg c)(r := v)\<rparr>"

definition set_ax :: "u16 \<Rightarrow> u32 \<Rightarrow> u32" where
  "set_ax v x = push_bit 16 (drop_bit 16 x) OR ucast v"

definition IF_FLAG :: u32 where
  "IF_FLAG = 0x200"

definition cpu_push :: "u32 \<Rightarrow> cpu \<times> memory \<Rightarrow> cpu \<times> memory" where
  "cpu_push v = (\<lambda>(c, m). let sp = gpr c ESP - 4 in (set_reg ESP sp c, m(sp := v)))"

definition cpu_pop :: "reg \<Rightarrow> cpu \<times> memory \<Rightarrow> cpu \<times> memory" where
  "cpu_pop r = (\<lambda>(c, m). let v = m (gpr c ESP) in (set_reg r v (set_reg ESP (gpr c ESP + 4) c), m))"

text \<open>\<open>popa\<close> drops the stack pointer that \<open>pusha\<close> has saved.\<close>

definition cpu_pusha :: "cpu \<times> memory \<Rightarrow> cpu \<times> memory" where
  "cpu_pusha = (\<lambda>(c, m). fold (\<lambda>r. cpu_push (gpr c r)) [EAX, ECX, EDX, EBX, ESP, EBP, ESI, EDI] (c, m))"

definition cpu_popa :: "cpu \<times> memory \<Rightarrow> cpu \<times> memory" where
  "cpu_popa = (\<lambda>(c, m). let sp = gpr c ESP in
     (c\<lparr>gpr := (gpr c)(EDI := m sp, ESI := m (sp + 4), EBP := m (sp + 8), EBX := m (sp + 16), EDX := m (sp + 20),
        ECX := m (sp + 24), EAX := m (sp + 28), ESP := sp + 32)\<rparr>, m))"

text \<open>A return to the same ring takes three words off the stack, one to an outer ring two more.\<close>

definition cpu_iret :: "cpu \<times> memory \<Rightarrow> cpu \<times> memory" where
  "cpu_iret = (\<lambda>(c, m).
     let sp = gpr c ESP; sel = ucast (m (sp + 4)) :: u16;
         c' = (set_seg CS sel c)\<lparr>pc := m sp, flags := m (sp + 8)\<rparr>
     in (if sel AND 3 = seg c CS AND 3 then set_reg ESP (sp + 12) c'
         else set_reg ESP (m (sp + 12)) (set_seg SS (ucast (m (sp + 16))) c'), m))"

fun exec1 :: "'s c_function \<Rightarrow> instr \<Rightarrow> 's config \<Rightarrow> 's config option" where
  "exec1 f i (c, m, s) =
     (let go = (\<lambda>(c, m). Some (c, m, s)) in
      case i of
        CLI \<Rightarrow> go (c\<lparr>flags := flags c AND NOT IF_FLAG\<rparr>, m)
      | STI \<Rightarrow> go (c\<lparr>flags := flags c OR IF_FLAG\<rparr>, m)
      | PUSHA \<Rightarrow> go (cpu_pusha (c, m))
      | POPA \<Rightarrow> go (cpu_popa (c, m))
      | PUSHD v \<Rightarrow> go (cpu_push v (c, m))
      | PUSH r \<Rightarrow> go (cpu_push (gpr c r) (c, m))
      | POP r \<Rightarrow> go (cpu_pop r (c, m))
      | MOV r r' \<Rightarrow> go (set_reg r (gpr c r') c, m)
      | MOV_IMM r v \<Rightarrow> go (set_reg r v c, m)
      | MOV_AX_SEG r \<Rightarrow> go (set_reg EAX (set_ax (seg c r) (gpr c EAX)) c, m)
      | MOV_AX v \<Rightarrow> go (set_reg EAX (set_ax v (gpr c EAX)) c, m)
      | MOV_SEG_AX r \<Rightarrow> go (set_seg r (ucast (gpr c EAX)) c, m)
      | ADD_ESP v \<Rightarrow> go (set_reg ESP (gpr c ESP + v) c, m)
      | CALL \<Rightarrow> (case f (gpr c ESP) m s of None \<Rightarrow> None
          | Some r \<Rightarrow> Some (c\<lparr>gpr := (gpr c)(EAX := ret_eax r, ECX := ret_ecx r, EDX := ret_edx r), flags := ret_flags r\<rparr>,
              ret_mem r, ret_state r))
      | JMP_FAR sel \<Rightarrow> go (set_seg CS sel c, m)
      | RET \<Rightarrow> go ((set_reg ESP (gpr c ESP + 4) c)\<lparr>pc := m (gpr c ESP)\<rparr>, m)
      | IRET \<Rightarrow> go (cpu_iret (c, m)))"

fun exec :: "'s c_function \<Rightarrow> instr list \<Rightarrow> 's config \<Rightarrow> 's config option" where
  "exec f [] w = Some w"
| "exec f (i # is) w = do { w \<leftarrow> exec1 f i w; exec f is w }"

section \<open>Model: entering an interrupt\<close>

text \<open>
  What the processor does before the first instruction of a stub: from an outer ring it takes the stack of the task
  state segment and saves the old one, then it saves flags, code segment and instruction pointer, for some exceptions
  an error code, and turns interrupts off. \<open>0x08\<close> is the selector in every gate of the table.
\<close>

definition hw_enter :: "u16 \<times> u32 \<Rightarrow> u32 option \<Rightarrow> cpu \<times> memory \<Rightarrow> cpu \<times> memory" where
  "hw_enter stack0 err = (\<lambda>(c, m).
     let w = (if seg c CS AND 3 = 0 then (c, m)
              else cpu_push (gpr c ESP) (cpu_push (ucast (seg c SS)) (set_reg ESP (snd stack0) (set_seg SS (fst stack0) c), m)));
         w = cpu_push (pc c) (cpu_push (ucast (seg c CS)) (cpu_push (flags c) w));
         w = (case err of None \<Rightarrow> w | Some e \<Rightarrow> cpu_push e w)
     in ((set_seg CS 0x08 (fst w))\<lparr>flags := flags c AND NOT IF_FLAG\<rparr>, snd w))"

definition load_kernel_data :: "instr list" where
  "load_kernel_data = [MOV_AX 0x10, MOV_SEG_AX DS, MOV_SEG_AX ES, MOV_SEG_AX FS, MOV_SEG_AX GS]"

definition restore_context :: "instr list" where
  "restore_context =
     [POP EAX, MOV_SEG_AX DS, MOV_SEG_AX ES, MOV_SEG_AX FS, MOV_SEG_AX GS, POPA, ADD_ESP 8, STI, IRET]"

definition isr_common_stub :: "instr list" where
  "isr_common_stub = [PUSHA, MOV_AX_SEG DS, PUSH EAX] @ load_kernel_data @ [CALL] @ restore_context"

definition irq_common_stub :: "instr list" where
  "irq_common_stub =
     [PUSHA, MOV_AX_SEG DS, PUSH EAX] @ load_kernel_data @ [PUSH ESP, CALL, MOV ESP EAX] @ restore_context"

text \<open>The vectors declared with \<open>ISR_ERRCODE\<close>; the others push a zero in place of the error code.\<close>

definition stub_error_code :: "nat \<Rightarrow> bool" where
  "stub_error_code n \<longleftrightarrow> n \<in> {8, 10, 11, 12, 13, 14}"

definition isr_stub :: "nat \<Rightarrow> instr list" where
  "isr_stub n = (if stub_error_code n then [CLI, PUSHD (of_nat n)] else [CLI, PUSHD 0, PUSHD (of_nat n)]) @ isr_common_stub"

definition irq_stub :: "nat \<Rightarrow> instr list" where
  "irq_stub n = [CLI, PUSHD 0, PUSHD (of_nat (32 + n))] @ irq_common_stub"

definition isr128 :: "instr list" where
  "isr128 = [CLI, PUSH EDX, PUSH ECX, PUSH EBX, PUSH EAX, CALL, ADD_ESP 16, STI, IRET]"

text \<open>
  \<open>gdt_flush\<close> behind its \<open>lgdt\<close> (the register is in theory \<open>Privilege\<close>), and the start of the kernel up to the return of
  \<open>kernel_main\<close>, behind which the machine halts. A multiboot loader looks for the three words of the header.
\<close>

definition gdt_flush_stub :: "instr list" where
  "gdt_flush_stub =
     [MOV_AX 0x10, MOV_SEG_AX DS, MOV_SEG_AX ES, MOV_SEG_AX FS, MOV_SEG_AX GS, MOV_SEG_AX SS, JMP_FAR 0x08, RET]"

definition start_stub :: "u32 \<Rightarrow> instr list" where
  "start_stub stack_top = [MOV_IMM ESP stack_top, CALL, CLI]"

definition multiboot_header :: "u32 list" where
  "multiboot_header =
     (let flags = push_bit 0 1 OR push_bit 1 1; magic = 0x1BADB002 in [magic, flags, - (magic + flags)])"

text \<open>An interrupt from its arrival to the return of its stub.\<close>

definition interrupt :: "'s c_function \<Rightarrow> u16 \<times> u32 \<Rightarrow> u32 option \<Rightarrow> instr list \<Rightarrow> 's config \<Rightarrow> 's config option" where
  "interrupt f stack0 err stub = (\<lambda>(c, m, s). let w = hw_enter stack0 err (c, m) in exec f stub (fst w, snd w, s))"

text \<open>\<open>registers_t\<close> as it lies in memory.\<close>

definition regs_at :: "memory \<Rightarrow> u32 \<Rightarrow> registers" where
  "regs_at m p = \<lparr>r_ds = m p, r_edi = m (p + 4), r_esi = m (p + 8), r_ebp = m (p + 12), r_esp = m (p + 16), r_ebx = m (p + 20),
     r_edx = m (p + 24), r_ecx = m (p + 28), r_eax = m (p + 32), r_int_no = m (p + 36), r_err_code = m (p + 40),
     r_eip = m (p + 44), r_cs = m (p + 48), r_eflags = m (p + 52), r_useresp = m (p + 56), r_ss = m (p + 60)\<rparr>"

section \<open>Saving and restoring\<close>

text \<open>What the end of the stub makes of a frame at \<open>p\<close>; \<open>ss\<close> is the stack segment, which it does not load.\<close>

definition cpu_at :: "u16 \<Rightarrow> memory \<Rightarrow> u32 \<Rightarrow> cpu" where
  "cpu_at ss m p = \<lparr>gpr = (\<lambda>r. case r of EDI \<Rightarrow> m (p + 4) | ESI \<Rightarrow> m (p + 8) | EBP \<Rightarrow> m (p + 12) | EBX \<Rightarrow> m (p + 20)
       | EDX \<Rightarrow> m (p + 24) | ECX \<Rightarrow> m (p + 28) | EAX \<Rightarrow> m (p + 32) | ESP \<Rightarrow> p + 56),
     seg = (\<lambda>r. case r of CS \<Rightarrow> ucast (m (p + 48)) | SS \<Rightarrow> ss | _ \<Rightarrow> ucast (m p)), pc = m (p + 44), flags = m (p + 52)\<rparr>"

text \<open>The memory a stub hands to its C function: the fourteen words of the frame below the stack pointer.\<close>

definition save_frame :: "cpu \<Rightarrow> u32 \<Rightarrow> u32 \<Rightarrow> memory \<Rightarrow> memory" where
  "save_frame c n err m =
     (let sp = gpr c ESP in
      m(sp - 4 := flags c, sp - 8 := ucast (seg c CS), sp - 12 := pc c, sp - 16 := err, sp - 20 := n, sp - 24 := gpr c EAX,
        sp - 28 := gpr c ECX, sp - 32 := gpr c EDX, sp - 36 := gpr c EBX, sp - 40 := sp - 20, sp - 44 := gpr c EBP,
        sp - 48 := gpr c ESI, sp - 52 := gpr c EDI, sp - 56 := set_ax (seg c DS) (gpr c EAX)))"

lemma selector_word [simp]: "ucast (ucast (v :: u16) :: u32) = v"
  by (rule bit_eqI) (auto simp: bit_simps)

lemma set_ax_low [simp]: "ucast (set_ax v x) = v"
  by (rule bit_eqI) (auto simp: set_ax_def bit_simps)


lemma set_ax_again [simp]: "set_ax v (set_ax w x) = set_ax v x"
  by (rule bit_eqI) (auto simp: set_ax_def bit_simps dest: bit_imp_le_length)

lemma exec_append: "exec f (is @ js) w = Option.bind (exec f is w) (exec f js)"
proof (induction "is" arbitrary: w)
  case (Cons i "is")
  then show ?case by (cases "exec1 f i w") simp_all
qed simp

lemma below_inj [simp]: "(sp :: u32) - a = sp - b \<longleftrightarrow> a = b"
  by simp

lemma below_up [simp]: "(sp :: u32) - a + b = sp - (a - b)"
  by simp

text \<open>The end of both common stubs. The frame must return to ring 0, where the stub runs.\<close>

lemma exec_restore:
  assumes "seg c CS = 0x08" and "ucast (m (gpr c ESP + 48)) AND 3 = (0 :: u16)"
  shows "exec f restore_context (c, m, s) = Some (cpu_at (seg c SS) m (gpr c ESP), m, s)"
  using assms
  by (simp add: restore_context_def cpu_pop_def cpu_popa_def cpu_iret_def set_reg_def set_seg_def Let_def cpu_at_def add.assoc fun_eq_iff
      split: reg.split sreg.split)

definition in_kernel :: "cpu \<Rightarrow> cpu" where
  "in_kernel c = c\<lparr>flags := flags c AND NOT IF_FLAG, gpr := (gpr c)(ESP := gpr c ESP - 56, EAX := set_ax 0x10 (gpr c EAX)),
     seg := (seg c)(CS := 0x08, DS := 0x10, ES := 0x10, FS := 0x10, GS := 0x10)\<rparr>"

lemma exec_entry:
  assumes "seg c CS AND 3 = 0"
  shows "case hw_enter st None (c, m) of (c', m') \<Rightarrow>
    exec f ([CLI, PUSHD err, PUSHD n, PUSHA, MOV_AX_SEG DS, PUSH EAX] @ load_kernel_data) (c', m', s) =
      Some (in_kernel c, save_frame c n err m, s)"
  using assms
  by (simp add: hw_enter_def load_kernel_data_def cpu_push_def cpu_pusha_def set_reg_def set_seg_def Let_def in_kernel_def save_frame_def
      fun_eq_iff)

text \<open>
  A processor in the kernel, with the selectors that \<open>gdt_flush\<close> and the first frame of a task load. On such a one the
  frame keeps everything.
\<close>

definition kernel_cpu :: "cpu \<Rightarrow> bool" where
  "kernel_cpu c \<longleftrightarrow> seg c CS = 0x08 \<and> (\<forall>r. r \<noteq> CS \<longrightarrow> seg c r = 0x10)"

lemma kernel_cpuD: "kernel_cpu c \<Longrightarrow> seg c CS AND 3 = 0"
  by (simp add: kernel_cpu_def)

lemma save_frame_regs:
  "regs_at (save_frame c n err m) (gpr c ESP - 56) = \<lparr>r_ds = set_ax (seg c DS) (gpr c EAX), r_edi = gpr c EDI, r_esi = gpr c ESI,
     r_ebp = gpr c EBP, r_esp = gpr c ESP - 20, r_ebx = gpr c EBX, r_edx = gpr c EDX, r_ecx = gpr c ECX, r_eax = gpr c EAX,
     r_int_no = n, r_err_code = err, r_eip = pc c, r_cs = ucast (seg c CS), r_eflags = flags c,
     r_useresp = m (gpr c ESP), r_ss = m (gpr c ESP + 4)\<rparr>"
  by (simp add: regs_at_def save_frame_def Let_def)

lemma save_frame_cpu:
  assumes "kernel_cpu c"
  shows "cpu_at (seg c SS) (save_frame c n err m) (gpr c ESP - 56) = c"
  using assms
  by (cases c) (simp add: cpu_at_def save_frame_def Let_def kernel_cpu_def fun_eq_iff split: reg.split sreg.split)

text \<open>Both kinds of stub, around the call.\<close>

lemma irq_run:
  fixes f :: "'s c_function" and m :: memory and n :: nat and s :: 's and c :: cpu
  assumes "seg c CS AND 3 = 0"
  defines "sp \<equiv> gpr c ESP - 56"
  defines "call \<equiv> f (sp - 4) ((save_frame c (of_nat (32 + n)) 0 m)(sp - 4 := sp)) s"
  shows "call = None \<Longrightarrow> interrupt f st None (irq_stub n) (c, m, s) = None"
    and "call = Some r \<Longrightarrow> ucast (ret_mem r (ret_eax r + 48)) AND 3 = (0 :: u16) \<Longrightarrow>
      interrupt f st None (irq_stub n) (c, m, s) = Some (cpu_at (seg c SS) (ret_mem r) (ret_eax r), ret_mem r, ret_state r)"
proof -
  have "irq_stub n = ([CLI, PUSHD 0, PUSHD (of_nat (32 + n)), PUSHA, MOV_AX_SEG DS, PUSH EAX] @ load_kernel_data) @
      [PUSH ESP, CALL, MOV ESP EAX] @ restore_context"
    by (simp add: irq_stub_def irq_common_stub_def)
  then have run: "interrupt f st None (irq_stub n) (c, m, s) =
      exec f ([PUSH ESP, CALL, MOV ESP EAX] @ restore_context) (in_kernel c, save_frame c (of_nat (32 + n)) 0 m, s)"
    using exec_entry [OF assms(1), where st = st and m = m and f = f and err = 0 and n = "of_nat (32 + n)" and s = s]
    by (simp add: interrupt_def case_prod_beta exec_append del: append.simps)
  show "call = None \<Longrightarrow> interrupt f st None (irq_stub n) (c, m, s) = None"
    by (simp add: run call_def sp_def exec_append cpu_push_def set_reg_def in_kernel_def Let_def)
  show "interrupt f st None (irq_stub n) (c, m, s) = Some (cpu_at (seg c SS) (ret_mem r) (ret_eax r), ret_mem r, ret_state r)"
    if "call = Some r" "ucast (ret_mem r (ret_eax r + 48)) AND 3 = (0 :: u16)"
    using that by (simp add: run call_def sp_def exec_append cpu_push_def set_reg_def in_kernel_def Let_def exec_restore)
qed

section \<open>The kernel's own segments\<close>

lemma gdt_flush_loads:
  "\<exists>c'. exec f gdt_flush_stub (c, m, s) = Some (c', m, s) \<and> kernel_cpu c' \<and> pc c' = m (gpr c ESP) \<and> gpr c' ESP = gpr c ESP + 4 \<and>
    (\<forall>r. r \<notin> {EAX, ESP} \<longrightarrow> gpr c' r = gpr c r)"
  by (auto simp: gdt_flush_stub_def set_reg_def set_seg_def kernel_cpu_def Let_def all_sreg)

lemma multiboot_checksum: "sum_list multiboot_header = 0" "multiboot_header ! 0 = 0x1BADB002"
  by (simp_all add: multiboot_header_def)

section \<open>Exceptions\<close>

text \<open>The exceptions for which the processor itself pushes an error code (Intel 64 and AMD64 manuals).\<close>

definition hw_error_code :: "nat \<Rightarrow> bool" where
  "hw_error_code n \<longleftrightarrow> n \<in> {8, 10, 11, 12, 13, 14, 17, 21, 29, 30}"

text \<open>The registers that \<open>isr_handler\<close> gets, by value on the stack, when exception \<open>n\<close> strikes with error code \<open>e\<close>.\<close>

definition fault_registers :: "nat \<Rightarrow> u32 \<Rightarrow> cpu \<times> memory \<Rightarrow> registers" where
  "fault_registers n e w =
     (let w = hw_enter (0, 0) (if hw_error_code n then Some e else None) w
      in case exec (\<lambda>_ _ _. None) (takeWhile (\<lambda>i. i \<noteq> CALL) (isr_stub n)) (fst w, snd w, ()) of
           Some (c, m, _) \<Rightarrow> regs_at m (gpr c ESP)
         | None \<Rightarrow> regs_at (snd w) 0)"

lemma before_call: "takeWhile (\<lambda>i. i \<noteq> CALL) (isr_stub n) =
    (if stub_error_code n then [CLI, PUSHD (of_nat n)] else [CLI, PUSHD 0, PUSHD (of_nat n)]) @ [PUSHA, MOV_AX_SEG DS, PUSH EAX] @ load_kernel_data"
  by (simp add: isr_stub_def isr_common_stub_def load_kernel_data_def)

lemma exec_entry_error:
  assumes "seg c CS AND 3 = 0"
  shows "case hw_enter st (Some err) (c, m) of (c', m') \<Rightarrow>
    exec f ([CLI, PUSHD n, PUSHA, MOV_AX_SEG DS, PUSH EAX] @ load_kernel_data) (c', m', s) = Some (in_kernel c, save_frame c n err m, s)"
  using assms
  by (simp add: hw_enter_def load_kernel_data_def cpu_push_def cpu_pusha_def set_reg_def set_seg_def Let_def in_kernel_def save_frame_def
      fun_eq_iff)

lemma fault_frame:
  assumes "seg c CS AND 3 = 0" and "hw_error_code n = stub_error_code n"
  shows "fault_registers n e (c, m) =
    regs_at (save_frame c (of_nat n) (if hw_error_code n then e else 0) m) (gpr c ESP - 56)"
proof (cases "hw_error_code n")
  case True
  with exec_entry_error [OF assms(1), where st = "(0, 0)" and err = e and m = m and f = "\<lambda>_ _ _. None" and n = "of_nat n" and s = "()"] assms(2)
  show ?thesis by (simp add: fault_registers_def before_call case_prod_beta in_kernel_def)
next
  case False
  with exec_entry [OF assms(1), where st = "(0, 0)" and err = 0 and m = m and f = "\<lambda>_ _ _. None" and n = "of_nat n" and s = "()"] assms(2)
  show ?thesis by (simp add: fault_registers_def before_call case_prod_beta in_kernel_def)
qed

text \<open>
  Where only the processor pushes an error code, the frame has one word too many and the handler reads the error code
  as the address of the fault: alignment check (17) among them.
\<close>

lemma shifted_frame:
  assumes "seg c CS AND 3 = 0" and "hw_error_code n" and "\<not> stub_error_code n"
  shows "r_eip (fault_registers n e (c, m)) = e" "r_err_code (fault_registers n e (c, m)) = 0"
    "r_cs (fault_registers n e (c, m)) = pc c"
  using assms(1,2) assms(3)
  by (simp_all add: fault_registers_def before_call hw_enter_def load_kernel_data_def cpu_push_def cpu_pusha_def set_reg_def set_seg_def
      Let_def regs_at_def)


definition demo_cpu :: cpu where
  "demo_cpu = \<lparr>gpr = (\<lambda>r. if r = ESP then 0x9000 else if r = EAX then 0xCAFE else 0), seg = (\<lambda>r. if r = CS then 0x08 else 0x10),
     pc = 0x101234, flags = 0x202\<rparr>"


section \<open>System calls\<close>

text \<open>The registers when a system call comes back: the result, and what \<open>isr128\<close> does not save.\<close>

definition after_call :: "cpu \<Rightarrow> 's c_result \<Rightarrow> cpu" where
  "after_call c r = c\<lparr>gpr := (gpr c)(EAX := ret_eax r, ECX := ret_ecx r, EDX := ret_edx r)\<rparr>"

text \<open>Where the processor begins to push: the stack of the caller, or that of the task state segment below the caller's.\<close>

definition entry_stack :: "u16 \<times> u32 \<Rightarrow> cpu \<Rightarrow> u32" where
  "entry_stack stack0 c = (if seg c CS AND 3 = 0 then gpr c ESP else snd stack0 - 8)"

text \<open>
  C39. A system call enters and leaves the kernel intact, from ring 0 and from an outer ring. The four words above the return
  address of \<open>syscall_handler\<close> are eax, ebx, ecx and edx of the caller. If the handler leaves alone what the processor has saved, the
  caller goes on behind its \<open>int $0x80\<close> with its own stack, flags, code and stack segments and
  registers, except that eax holds the result and ecx and edx whatever the handler left there.
\<close>

theorem syscall_stub_returns:
  fixes f :: "'s c_function" and c :: cpu and m :: memory and s :: 's and stack0 :: "u16 \<times> u32"
  defines "b \<equiv> entry_stack stack0 c"
  defines "m' \<equiv> (snd (hw_enter stack0 None (c, m)))(b - 16 := gpr c EDX, b - 20 := gpr c ECX, b - 24 := gpr c EBX, b - 28 := gpr c EAX)"
  assumes "f (b - 28) m' s = Some r" and "\<forall>a\<in>{b - 12, b - 8, b - 4, b, b + 4}. ret_mem r a = m' a"
  shows "interrupt f stack0 None isr128 (c, m, s) = Some (after_call c r, ret_mem r, ret_state r)"
proof (cases "seg c CS AND 3 = 0")
  case True
  let ?m = "m(b - 4 := flags c, b - 8 := ucast (seg c CS), b - 12 := pc c)"
  have b: "gpr c ESP = b" using True by (simp add: b_def entry_stack_def)
  have hw: "hw_enter stack0 None (c, m) = ((set_seg CS 0x08 (set_reg ESP (b - 12) c))\<lparr>flags := flags c AND NOT IF_FLAG\<rparr>, ?m)"
    using True by (simp add: hw_enter_def cpu_push_def set_reg_def Let_def b)
  note call = assms(3,4) [unfolded m'_def hw snd_conv]
  have "interrupt f stack0 None isr128 (c, m, s) = exec f isr128 (fst (hw_enter stack0 None (c, m)), ?m, s)"
    by (simp add: interrupt_def hw)
  with call True b show ?thesis
    unfolding isr128_def hw
    by (cases c) (simp add: cpu_push_def set_reg_def set_seg_def cpu_iret_def after_call_def Let_def fun_eq_iff)
next
  case False
  have b: "snd stack0 - 8 = b" using False by (simp add: b_def entry_stack_def)
  let ?m = "m(b + 4 := ucast (seg c SS), b := gpr c ESP, b - 4 := flags c, b - 8 := ucast (seg c CS), b - 12 := pc c)"
  have s0: "snd stack0 = b + 8" using b by (simp add: algebra_simps)
  have hw: "hw_enter stack0 None (c, m) = ((set_seg CS 0x08 (set_reg ESP (b - 12) (set_seg SS (fst stack0) c)))\<lparr>flags := flags c AND NOT IF_FLAG\<rparr>, ?m)"
    using False by (simp add: hw_enter_def cpu_push_def set_reg_def set_seg_def Let_def s0 add.commute [of 4])
  note call = assms(3,4) [unfolded m'_def hw snd_conv]
  have "interrupt f stack0 None isr128 (c, m, s) = exec f isr128 (fst (hw_enter stack0 None (c, m)), ?m, s)"
    by (simp add: interrupt_def hw)
  with call False show ?thesis
    unfolding isr128_def hw
    by (cases c) (simp add: cpu_push_def set_reg_def set_seg_def cpu_iret_def after_call_def Let_def fun_eq_iff)
qed

text \<open>A caller in ring 3 and a handler that adds the number and the first argument of the call.\<close>

definition demo_user :: cpu where
  "demo_user = \<lparr>gpr = (\<lambda>r. case r of EAX \<Rightarrow> 2 | EBX \<Rightarrow> 40 | ESP \<Rightarrow> 0x10000000 | _ \<Rightarrow> 7), seg = (\<lambda>r. if r = CS then 0x1B else 0x23),
     pc = 0x8000000, flags = 0x202\<rparr>"

definition demo_handler :: "unit c_function" where
  "demo_handler sp m s = Some \<lparr>ret_eax = m sp + m (sp + 4), ret_ecx = 0, ret_edx = 0, ret_flags = 0x46, ret_mem = m, ret_state = s\<rparr>"

theorem syscall_stub_returns_witness:
  "\<exists>c m. interrupt demo_handler (0x10, 0x400000) None isr128 (demo_user, (\<lambda>_. 0), ()) = Some (c, m, ()) \<and>
    gpr c EAX = 42 \<and> gpr c EBX = 40 \<and> gpr c ESP = 0x10000000 \<and> pc c = 0x8000000 \<and> seg c CS = 0x1B \<and> seg c SS = 0x23"
proof -
  have ring: "seg demo_user CS AND 3 \<noteq> 0" by (simp add: demo_user_def)
  then have b: "entry_stack (0x10, 0x400000) demo_user = 0x3FFFF8" by (simp add: entry_stack_def)
  let ?m = "(snd (hw_enter (0x10, 0x400000) None (demo_user, \<lambda>_. 0)))(0x3FFFE8 := 7, 0x3FFFE4 := 7, 0x3FFFE0 := 40, 0x3FFFDC := 2)"
  let ?r = "\<lparr>ret_eax = 42, ret_ecx = 0, ret_edx = 0, ret_flags = 0x46, ret_mem = ?m, ret_state = ()\<rparr>"
  have "interrupt demo_handler (0x10, 0x400000) None isr128 (demo_user, (\<lambda>_. 0), ()) = Some (after_call demo_user ?r, ?m, ())"
    using syscall_stub_returns [of demo_handler "(0x10, 0x400000)" demo_user "\<lambda>_. 0" "()" ?r] unfolding b
    by (simp add: demo_handler_def demo_user_def)
  then show ?thesis by (simp add: after_call_def demo_user_def)
qed

end
