(* ===== verification/Preemption.thy ===== *)
theory Preemption
  imports System Stubs
begin

text \<open>
  Preemption: the assembly of \<open>Stubs\<close> around the interrupts of \<open>Kernel\<close>. Each task has a processor of its own, on which
  interrupts are invisible; the machine has one, and the frames on the stacks of the tasks that wait.
\<close>

section \<open>Model\<close>

text \<open>
  What compiled code leaves behind that the calling convention does not define: three registers and the words it has used
  below its stack pointer, its argument included.
\<close>

record scratch =
  sc_ecx :: u32
  sc_edx :: u32
  sc_flags :: u32
  sc_words :: memory

definition spoil :: "nat \<Rightarrow> memory \<Rightarrow> u32 \<Rightarrow> memory \<Rightarrow> memory" where
  "spoil depth ws sp m = (\<lambda>a. if unat a \<le> unat sp \<and> unat sp \<le> unat a + depth then ws a else m a)"

text \<open>\<open>irq_handler\<close> as the stub calls it: its argument is a pointer to the frame.\<close>

definition irq_call :: "layout \<Rightarrow> env \<Rightarrow> u8 \<Rightarrow> nat \<Rightarrow> scratch \<Rightarrow> kernel c_function" where
  "irq_call L env code depth x sp m s = do {
     (e, s) \<leftarrow> kernel_irq L env code (m sp) (regs_at m (m sp)) s;
     Some \<lparr>ret_eax = e, ret_ecx = sc_ecx x, ret_edx = sc_edx x, ret_flags = sc_flags x, ret_mem = spoil depth (sc_words x) sp m, ret_state = s\<rparr>
   }"

text \<open>Interrupt request \<open>n\<close> (0 the timer, 1 the keyboard) in the kernel, where no stack is switched.\<close>

definition request :: "layout \<Rightarrow> env \<Rightarrow> u8 \<Rightarrow> nat \<Rightarrow> scratch \<Rightarrow> nat \<Rightarrow> kernel config \<Rightarrow> kernel config option" where
  "request L env code depth x n = interrupt (irq_call L env code depth x) (0, 0) None (irq_stub n)"

section \<open>The processor of each task\<close>

definition task_set :: "kernel \<Rightarrow> task_ptr set" where
  "task_set s = {main_task} \<union> task_pool ` {..<pool_index (m_tasking s)}"

definition vcpu :: "kernel config \<Rightarrow> task_ptr \<Rightarrow> cpu" where
  "vcpu = (\<lambda>(c, m, s) p. if p = k_cur s then c else cpu_at 0x10 m (t_esp (tasks (m_tasking s) p)))"

text \<open>The stacks: the first byte, the byte behind the last one, and the bytes an interrupt takes.\<close>

record stacks =
  stack_lo :: "task_ptr \<Rightarrow> nat"
  stack_hi :: "task_ptr \<Rightarrow> nat"
  stack_room :: nat

definition stacks_ok :: "stacks \<Rightarrow> task_ptr set \<Rightarrow> bool" where
  "stacks_ok R ts \<longleftrightarrow> 60 \<le> stack_room R \<and> (\<forall>p\<in>ts. stack_hi R p < 2 ^ 32) \<and>
     (\<forall>p\<in>ts. \<forall>q\<in>ts. p \<noteq> q \<longrightarrow> stack_hi R p \<le> stack_lo R q \<or> stack_hi R q \<le> stack_lo R p)"

text \<open>A task in the kernel's segments whose stack pointer is in its own stack, with room for an interrupt.\<close>

definition task_cpu :: "stacks \<Rightarrow> task_ptr \<Rightarrow> cpu \<Rightarrow> bool" where
  "task_cpu R p c \<longleftrightarrow> kernel_cpu c \<and> stack_lo R p + stack_room R \<le> unat (gpr c ESP) \<and> unat (gpr c ESP) \<le> stack_hi R p \<and> 4 dvd unat (gpr c ESP)"

definition apart :: "layout \<Rightarrow> stacks \<Rightarrow> kernel config \<Rightarrow> bool" where
  "apart L R w \<longleftrightarrow> (case w of (c, m, s) \<Rightarrow> kernel_inv L s \<and> stacks_ok R (task_set s) \<and> (\<forall>p\<in>task_set s. task_cpu R p (vcpu w p)))"

lemma apartD:
  assumes "apart L R (c, m, s)"
  shows "kernel_inv L s" "stacks_ok R (task_set s)" "p \<in> task_set s \<Longrightarrow> task_cpu R p (vcpu (c, m, s) p)"
  using assms by (auto simp: apart_def)

lemma cur_in_set: "kernel_inv L s \<Longrightarrow> k_cur s \<in> task_set s"
  using tasking_invE [of "m_tasking s"] unfolding kernel_inv_def task_set_def ring_at_def by (metis list.sel(1) list.set_intros(1))

lemma unat_plus_small: "unat (p :: u32) + k < 2 ^ 32 \<Longrightarrow> unat (p + of_nat k) = unat p + k"
  by (simp add: unat_word_ariths unat_of_nat)

text \<open>A context depends on the fourteen words of its frame.\<close>

lemma cpu_at_cong:
  assumes "\<And>k. k < 56 \<Longrightarrow> m' (p + of_nat k) = m (p + of_nat k)"
  shows "cpu_at ss m' p = cpu_at ss m p"
  using assms [of 0] assms [of 4] assms [of 8] assms [of 12] assms [of 20] assms [of 24] assms [of 28] assms [of 32] assms [of 44]
    assms [of 48] assms [of 52]
  by (simp add: cpu_at_def fun_eq_iff split: reg.split sreg.split)

lemma frame_unat:
  assumes "task_cpu R p (cpu_at ss m f)" and "60 \<le> stack_room R" and "stack_hi R p < 2 ^ 32"
  shows "unat f + 56 = unat (f + 56)" "stack_lo R p \<le> unat f" "unat f + 56 \<le> stack_hi R p"
proof -
  have b: "stack_lo R p + stack_room R \<le> unat (f + 56)" "unat (f + 56) \<le> stack_hi R p"
    using assms(1) by (simp_all add: task_cpu_def cpu_at_def)
  have "unat f = unat (f + 56 - 56)" by simp
  also have "\<dots> = unat (f + 56) - 56" using b assms(2) by (subst unat_u32_minus) simp_all
  finally show "unat f + 56 = unat (f + 56)" "stack_lo R p \<le> unat f" "unat f + 56 \<le> stack_hi R p" using b assms(2) by auto
qed

text \<open>Memory that changes inside one stack leaves the frames in the others alone.\<close>

lemma frame_elsewhere:
  assumes ok: "stacks_ok R ts" "p \<in> ts" "q \<in> ts" "p \<noteq> q" and f: "task_cpu R p (cpu_at ss m f)"
    and same: "\<And>a. \<not> (stack_lo R q \<le> unat a \<and> unat a < stack_hi R q) \<Longrightarrow> m' a = m a"
  shows "cpu_at ss m' f = cpu_at ss m f"
proof (rule cpu_at_cong)
  fix k :: nat
  assume k: "k < 56"
  have hi: "stack_hi R p < 2 ^ 32" and room: "60 \<le> stack_room R" using ok by (auto simp: stacks_ok_def)
  note b = frame_unat [OF f room hi]
  have "unat (f + of_nat k) = unat f + k" using b(3) hi k by (intro unat_plus_small) simp
  moreover have "stack_hi R p \<le> stack_lo R q \<or> stack_hi R q \<le> stack_lo R p" using ok by (auto simp: stacks_ok_def)
  ultimately show "m' (f + of_nat k) = m (f + of_nat k)" using b k by (intro same) linarith
qed

text \<open>What an interrupt writes: its frame, the argument of the handler and what that uses below.\<close>

lemma save_frame_other:
  assumes "56 \<le> unat (gpr c ESP)" and "\<not> (unat (gpr c ESP) - 56 \<le> unat a \<and> unat a < unat (gpr c ESP))"
  shows "save_frame c n err m a = m a"
proof -
  have "a \<noteq> gpr c ESP - of_nat k" if "0 < k" "k \<le> 56" for k :: nat
  proof
    assume a: "a = gpr c ESP - of_nat k"
    have "unat (of_nat k :: u32) = k" using that by (simp add: unat_of_nat)
    then have "unat a = unat (gpr c ESP) - k" unfolding a using assms(1) that by (subst unat_u32_minus) simp_all
    with assms that show False by auto
  qed
  from this [of 4] this [of 8] this [of 12] this [of 16] this [of 20] this [of 24] this [of 28] this [of 32] this [of 36] this [of 40]
    this [of 44] this [of 48] this [of 52] this [of 56] show ?thesis
    by (simp add: save_frame_def Let_def)
qed

lemma interrupt_memory:
  fixes c :: cpu and m :: memory and ws :: memory and n err :: u32
  assumes "task_cpu R p c" and "depth + 60 \<le> stack_room R" and "stack_hi R p < 2 ^ 32"
  defines "sp \<equiv> gpr c ESP - 56"
  defines "m' \<equiv> spoil depth ws (sp - 4) ((save_frame c n err m)(sp - 4 := sp))"
  shows "\<not> (stack_lo R p \<le> unat a \<and> unat a < stack_hi R p) \<Longrightarrow> m' a = m a" "cpu_at 0x10 m' sp = c"
proof -
  have e: "stack_lo R p + depth + 60 \<le> unat (gpr c ESP)" "unat (gpr c ESP) \<le> stack_hi R p" and k: "kernel_cpu c"
    using assms(1,2) by (auto simp: task_cpu_def)
  have sp: "unat sp = unat (gpr c ESP) - 56" "unat (sp - 4) = unat (gpr c ESP) - 60"
    using e(1) unfolding sp_def by (simp_all add: unat_u32_minus)
  show "m' a = m a" if "\<not> (stack_lo R p \<le> unat a \<and> unat a < stack_hi R p)"
  proof -
    have "a \<noteq> sp - 4" using that sp e by auto
    moreover have "save_frame c n err m a = m a" using that e by (intro save_frame_other) auto
    ultimately show ?thesis using that sp e by (auto simp: m'_def spoil_def)
  qed
  have "m' (sp + of_nat i) = save_frame c n err m (sp + of_nat i)" if "i < 56" for i
  proof -
    have "unat (sp + of_nat i) = unat sp + i" using sp(1) e assms(3) that by (intro unat_plus_small) simp
    then have "\<not> unat (sp + of_nat i) \<le> unat (sp - 4)" using sp e by simp
    then show ?thesis by (auto simp: m'_def spoil_def)
  qed
  then have "cpu_at 0x10 m' sp = cpu_at 0x10 (save_frame c n err m) sp" by (rule cpu_at_cong)
  also have "\<dots> = c" using save_frame_cpu [OF k] k by (simp add: sp_def kernel_cpu_def)
  finally show "cpu_at 0x10 m' sp = c" .
qed

section \<open>One interrupt\<close>

text \<open>Where the frame of each task lies once the running one has been interrupted.\<close>

definition frame_of :: "cpu \<Rightarrow> kernel \<Rightarrow> task_ptr \<Rightarrow> u32" where
  "frame_of c s p = (if p = k_cur s then gpr c ESP - 56 else t_esp (tasks (m_tasking s) p))"

text \<open>A handler that resumes one of the frames and keeps the pointers to the others hands every task its own processor.\<close>

lemma request_switches:
  fixes n :: nat and L :: layout and c :: cpu and m :: memory and s :: kernel and env :: env and x :: scratch
  assumes ap: "apart L R (c, m, s)" and depth: "depth + 60 \<le> stack_room R"
  defines "sp \<equiv> gpr c ESP - 56"
  assumes irq: "kernel_irq L env code sp (regs_at (save_frame c (of_nat (32 + n)) 0 m) sp) s = Some (frame_of c s (k_cur s'), s')"
    and s': "kernel_inv L s'" "task_set s' = task_set s"
    and esp: "\<And>p. p \<in> task_set s \<Longrightarrow> p \<noteq> k_cur s' \<Longrightarrow> t_esp (tasks (m_tasking s') p) = frame_of c s p"
  shows "\<exists>c' m'. request L env code depth x n (c, m, s) = Some (c', m', s') \<and> apart L R (c', m', s') \<and>
    (\<forall>p\<in>task_set s. vcpu (c', m', s') p = vcpu (c, m, s) p)"
proof -
  let ?cur = "k_cur s" and ?w = "(c, m, s)"
  define m1 where "m1 = (save_frame c (of_nat (32 + n)) 0 m)(sp - 4 := sp)"
  define m' where "m' = spoil depth (sc_words x) (sp - 4) m1"
  note d = apartD [OF ap]
  have cur: "?cur \<in> task_set s" by (rule cur_in_set [OF d(1)])
  have c: "task_cpu R ?cur c" using d(3) [OF cur] by (simp add: vcpu_def)
  then have k: "kernel_cpu c" by (simp add: task_cpu_def)
  have hi: "stack_hi R ?cur < 2 ^ 32" using d(2) cur by (auto simp: stacks_ok_def)
  note mem = interrupt_memory [OF c depth hi, where ws = "sc_words x" and n = "of_nat (32 + n)" and err = 0 and m = m,
      folded sp_def, folded m1_def, folded m'_def]
  have view: "cpu_at 0x10 m' (frame_of c s p) = vcpu ?w p" if p: "p \<in> task_set s" for p
  proof (cases "p = ?cur")
    case True
    then show ?thesis using mem(2) by (simp add: frame_of_def vcpu_def sp_def)
  next
    case False
    then have "task_cpu R p (cpu_at 0x10 m (frame_of c s p))" using d(3) [OF p] by (simp add: vcpu_def frame_of_def)
    from frame_elsewhere [OF d(2) p cur False this mem(1)] False show ?thesis by (simp add: vcpu_def frame_of_def)
  qed
  let ?e = "frame_of c s (k_cur s')"
  have r: "k_cur s' \<in> task_set s" using cur_in_set [OF s'(1)] s'(2) by simp
  have regs: "regs_at m1 sp = regs_at (save_frame c (of_nat (32 + n)) 0 m) sp" "m1 (sp - 4) = sp"
    by (simp_all add: m1_def regs_at_def sp_def)
  define res where "res = \<lparr>ret_eax = ?e, ret_ecx = sc_ecx x, ret_edx = sc_edx x, ret_flags = sc_flags x, ret_mem = m', ret_state = s'\<rparr>"
  have call: "irq_call L env code depth x (sp - 4) m1 s = Some res"
    using irq regs by (simp add: irq_call_def res_def m'_def)
  have "seg (cpu_at 0x10 m' ?e) CS = 0x08" using view [OF r] d(3) [OF r] by (simp add: task_cpu_def kernel_cpu_def)
  then have "ucast (ret_mem res (ret_eax res + 48)) AND 3 = (0 :: u16)" by (simp add: cpu_at_def res_def)
  from irq_run(2) [where f = "irq_call L env code depth x", OF kernel_cpuD [OF k] call [unfolded m1_def sp_def] this]
  have run: "request L env code depth x n ?w = Some (cpu_at 0x10 m' ?e, m', s')"
    using k by (simp add: request_def res_def kernel_cpu_def)
  have same: "vcpu (cpu_at 0x10 m' ?e, m', s') p = vcpu ?w p" if "p \<in> task_set s" for p
    using view [OF that] view [OF r] esp [OF that] by (cases "p = k_cur s'") (simp_all add: vcpu_def)
  then have "apart L R (cpu_at 0x10 m' ?e, m', s')" using s' d by (simp add: apart_def)
  with run same show ?thesis by blast
qed

text \<open>The timer: the scheduler saves the frame of the running task and returns that of the one it chose.\<close>

lemma schedule_frames:
  assumes "tasking_inv t" and "schedule sp t = Some (e, t')" and "p \<in> {main_task} \<union> task_pool ` {..<pool_index t}"
  shows "t_esp (tasks t' p) = (if p = current_task t then sp else t_esp (tasks t p))"
    "e = t_esp (tasks t' (current_task t'))" "pool_index t' = pool_index t"
proof -
  obtain xs where ring: "ring_at t (current_task t # xs)" using tasking_invE [OF assms(1)] .
  from schedule_runs [OF ring, of sp] obtain us r vs where
    t': "e = t_esp (ticked sp t r)" "t' = after_schedule sp (current_task t # xs) r t" "xs @ [current_task t] = us @ r # vs"
    using assms(2) by auto
  have "set (current_task t # xs) = {main_task} \<union> task_pool ` {..<pool_index t}" using ring by (simp add: ring_at_def)
  moreover have "r \<in> set (current_task t # xs)" using arg_cong [OF t'(3), of set] by auto
  ultimately show "t_esp (tasks t' p) = (if p = current_task t then sp else t_esp (tasks t p))"
    "e = t_esp (tasks t' (current_task t'))" "pool_index t' = pool_index t"
    using assms(3) by (simp_all add: t' after_schedule_def ticked_def)
qed

lemma timer_request:
  assumes ap: "apart L R (c, m, s)" and "depth + 60 \<le> stack_room R"
  shows "\<exists>c' m' s'. request L env code depth x 0 (c, m, s) = Some (c', m', s') \<and> apart L R (c', m', s') \<and> task_set s' = task_set s \<and>
    map_option (current_task \<circ> snd) (schedule (gpr c ESP - 56) (m_tasking s)) = Some (k_cur s') \<and>
    (\<forall>p\<in>task_set s. vcpu (c', m', s') p = vcpu (c, m, s) p)"
proof -
  define sp where "sp = gpr c ESP - 56"
  let ?regs = "regs_at (save_frame c (of_nat (32 + 0)) 0 m) sp"
  note inv = apartD(1) [OF ap]
  note d = kernel_invD [OF inv]
  from schedule_returns [OF d(2), of sp] obtain e t where t: "schedule sp (m_tasking s) = Some (e, t)" "tasking_inv t" by blast
  have n: "r_int_no ?regs = 32" by (simp add: sp_def save_frame_regs)
  define s' where "s' = (outb 0x20 0x20 (clock_tick s))\<lparr>m_tasking := t\<rparr>"
  have irq: "kernel_irq L env code sp ?regs s = Some (e, s')" using timer_irq [OF d(1) n, of env code sp] t(1) by (simp add: s'_def)
  have s': "kernel_inv L s'" unfolding s'_def by (rule tick_inv [OF inv t(2)])
  note f = schedule_frames [OF d(2) t(1)]
  have ts: "task_set s' = task_set s" using f(3) [of main_task] by (simp add: task_set_def s'_def)
  have esp: "t_esp (tasks (m_tasking s') p) = frame_of c s p" if "p \<in> task_set s" for p
    using f(1) [of p] that by (simp add: s'_def frame_of_def sp_def task_set_def)
  have "k_cur s' \<in> task_set s" using cur_in_set [OF s'] ts by simp
  then have "e = frame_of c s (k_cur s')" using esp [of "k_cur s'"] f(2) [of main_task] by (simp add: s'_def)
  with request_switches [OF ap assms(2), where n = 0 and env = env and code = code and x = x and s' = s'] irq s' ts esp
  show ?thesis using t(1) by (auto simp: sp_def s'_def)
qed

text \<open>The keyboard: whatever the key does, the tasks and the running one stay as they are.\<close>

lemma core_tasking: "core s' = core s \<Longrightarrow> m_tasking s' = m_tasking s"
  by (simp add: core_def)

lemma key_request:
  assumes ap: "apart L R (c, m, s)" and depth: "depth + 60 \<le> stack_room R" and run: "request L env code depth x 1 (c, m, s) = Some w'"
  shows "apart L R w' \<and> k_cur (snd (snd w')) = k_cur s \<and> task_set (snd (snd w')) = task_set s \<and> (\<forall>p\<in>task_set s. vcpu w' p = vcpu (c, m, s) p)"
proof -
  define sp where "sp = gpr c ESP - 56"
  let ?regs = "regs_at (save_frame c (of_nat (32 + 1)) 0 m) sp" and ?m1 = "(save_frame c (of_nat (32 + 1)) 0 m)(sp - 4 := sp)"
  note inv = apartD(1) [OF ap]
  note d = kernel_invD [OF inv]
  have k: "kernel_cpu c" using apartD(3) [OF ap cur_in_set [OF inv]] by (simp add: vcpu_def task_cpu_def)
  have n: "r_int_no ?regs = 33" by (simp add: sp_def save_frame_regs)
  have regs: "regs_at ?m1 sp = ?regs" "?m1 (sp - 4) = sp" by (simp_all add: regs_at_def sp_def)
  have "irq_call L env code depth x (sp - 4) ?m1 s \<noteq> None"
  proof
    assume "irq_call L env code depth x (sp - 4) ?m1 s = None"
    from irq_run(1) [where f = "irq_call L env code depth x" and n = 1, OF kernel_cpuD [OF k] this [unfolded sp_def]] run show False by (simp add: request_def)
  qed
  then have "kernel_irq L env code sp ?regs s \<noteq> None" unfolding irq_call_def regs by (auto simp: bind_eq_None_conv)
  then obtain s' where irq: "kernel_irq L env code sp ?regs s = Some (sp, s')" and kb: "keyboard_callback env code (outb 0x20 0x20 s) = Some s'"
    using key_irq [OF d(1) n, of env code sp] by auto
  have t: "m_tasking s' = m_tasking s" using key_irq_aside(1) [OF inv n irq] by (simp add: aside_def)
  have s': "kernel_inv L s'" using irq_inv [OF inv _ irq] n by simp
  have ts: "task_set s' = task_set s" using t by (simp add: task_set_def)
  from request_switches [OF ap depth, where n = 1 and env = env and code = code and x = x and s' = s'] irq s' ts t run show ?thesis
    by (auto simp: frame_of_def sp_def)
qed

section \<open>Runs\<close>

text \<open>
  A step of the running task: it may do what it likes with its processor, with its own stack and with memory that is no
  stack, and with the kernel as long as the invariant holds; it does not switch tasks and does not touch the stacks of
  the others.
\<close>

definition own_step :: "layout \<Rightarrow> stacks \<Rightarrow> kernel config \<Rightarrow> kernel config \<Rightarrow> bool" where
  "own_step L R w w' \<longleftrightarrow> (case (w, w') of ((c, m, s), (c', m', s')) \<Rightarrow>
     kernel_inv L s' \<and> k_cur s' = k_cur s \<and> task_set s' = task_set s \<and> task_cpu R (k_cur s) c' \<and>
     (\<forall>p\<in>task_set s - {k_cur s}. t_esp (tasks (m_tasking s') p) = t_esp (tasks (m_tasking s) p) \<and>
       (\<forall>a. stack_lo R p \<le> unat a \<longrightarrow> unat a < stack_hi R p \<longrightarrow> m' a = m a)))"

text \<open>Steps of the running task and interrupts in any order; the list names the tasks that have moved.\<close>

inductive runs :: "layout \<Rightarrow> stacks \<Rightarrow> kernel config \<Rightarrow> task_ptr list \<Rightarrow> kernel config \<Rightarrow> bool" for L R w where
  start: "runs L R w [] w"
| own: "runs L R w ps (c, m, s) \<Longrightarrow> own_step L R (c, m, s) w' \<Longrightarrow> runs L R w (k_cur s # ps) w'"
| irq: "runs L R w ps w1 \<Longrightarrow> n \<in> {0, 1} \<Longrightarrow> depth + 60 \<le> stack_room R \<Longrightarrow> request L env code depth x n w1 = Some w' \<Longrightarrow> runs L R w ps w'"

lemma own_step_others:
  assumes "apart L R (c, m, s)" and step: "own_step L R (c, m, s) (c', m', s')" and p: "p \<in> task_set s" "p \<noteq> k_cur s"
  shows "vcpu (c', m', s') p = vcpu (c, m, s) p"
proof -
  note d = apartD [OF assms(1)]
  let ?f = "t_esp (tasks (m_tasking s) p)"
  have f: "task_cpu R p (cpu_at 0x10 m ?f)" using d(3) [OF p(1)] p(2) by (simp add: vcpu_def)
  have hi: "stack_hi R p < 2 ^ 32" "60 \<le> stack_room R" using d(2) p(1) by (auto simp: stacks_ok_def)
  note b = frame_unat [OF f hi(2,1)]
  have "cpu_at 0x10 m' ?f = cpu_at 0x10 m ?f"
  proof (rule cpu_at_cong)
    fix k :: nat
    assume k: "k < 56"
    have "unat (?f + of_nat k) = unat ?f + k" using b(3) hi k by (intro unat_plus_small) simp
    then show "m' (?f + of_nat k) = m (?f + of_nat k)" using step p b k by (auto simp: own_step_def)
  qed
  then show ?thesis using step p by (auto simp: own_step_def vcpu_def)
qed

lemma own_step_apart:
  assumes "apart L R (c, m, s)" and "own_step L R (c, m, s) (c', m', s')"
  shows "apart L R (c', m', s')"
proof -
  note d = apartD [OF assms(1)]
  have "task_cpu R p (vcpu (c', m', s') p)" if "p \<in> task_set s" for p
    using own_step_others [OF assms that] d(3) [OF that] assms(2) by (cases "p = k_cur s") (auto simp: own_step_def vcpu_def)
  with assms(2) d show ?thesis by (auto simp: own_step_def apart_def)
qed

lemma request_step:
  assumes "apart L R (c, m, s)" and "n \<in> {0, 1}" and "depth + 60 \<le> stack_room R" and "request L env code depth x n (c, m, s) = Some (c', m', s')"
  shows "apart L R (c', m', s')" "task_set s' = task_set s" "p \<in> task_set s \<Longrightarrow> vcpu (c', m', s') p = vcpu (c, m, s) p"
proof -
  have "apart L R (c', m', s') \<and> task_set s' = task_set s \<and> (\<forall>p\<in>task_set s. vcpu (c', m', s') p = vcpu (c, m, s) p)"
  proof (cases "n = 0")
    case True
    with timer_request [OF assms(1,3), of env code x] assms(4) show ?thesis by auto
  next
    case False
    with key_request [OF assms(1,3), of env code x "(c', m', s')"] assms(2,4) show ?thesis by simp
  qed
  then show "apart L R (c', m', s')" "task_set s' = task_set s" "p \<in> task_set s \<Longrightarrow> vcpu (c', m', s') p = vcpu (c, m, s) p" by auto
qed

lemma runs_apart:
  assumes "runs L R (c, m, s) ps w'" and "apart L R (c, m, s)"
  shows "apart L R w' \<and> task_set (snd (snd w')) = task_set s \<and> (\<forall>p\<in>task_set s. p \<notin> set ps \<longrightarrow> vcpu w' p = vcpu (c, m, s) p)"
  using assms(1)
proof induction
  case start
  then show ?case using assms(2) by simp
next
  case (own ps c1 m1 s1 w')
  obtain c2 m2 s2 where w: "w' = (c2, m2, s2)" by (cases w')
  have a: "apart L R (c1, m1, s1)" using own.IH by simp
  show ?case
    using own.IH own_step_others [OF a own.hyps(2) [unfolded w]] own_step_apart [OF a own.hyps(2) [unfolded w]] own.hyps(2)
    by (auto simp: w own_step_def)
next
  case (irq ps w1 n depth env code x w')
  obtain c1 m1 s1 c2 m2 s2 where w: "w1 = (c1, m1, s1)" "w' = (c2, m2, s2)" by (cases w1, cases w')
  have a: "apart L R (c1, m1, s1)" using irq.IH w by simp
  note r = request_step [OF a irq.hyps(2,3) irq.hyps(4) [unfolded w]]
  show ?case using irq.IH r by (auto simp: w)
qed

section \<open>Boot\<close>

text \<open>Memory where the linker has put the stack arrays of the tasks, and a layout that keeps the stacks apart.\<close>

definition stacks_loaded :: "layout \<Rightarrow> memory \<Rightarrow> tasking \<Rightarrow> bool" where
  "stacks_loaded L m t \<longleftrightarrow> (\<forall>i<pool_index t. \<forall>j<1024. m (task_stack_addr L (task_pool i) + of_nat (4 * j)) = t_stack (tasks t (task_pool i)) ! j)"

definition boot_stacks :: "layout \<Rightarrow> stacks \<Rightarrow> bool" where
  "boot_stacks L R \<longleftrightarrow> stacks_ok R {main_task, task_pool 0, task_pool 1} \<and> stack_room R \<le> 4096 \<and>
     (\<forall>p\<in>{task_pool 0, task_pool 1}. 4 dvd unat (task_stack_addr L p) \<and> stack_lo R p = unat (task_stack_addr L p) \<and>
        stack_hi R p = unat (task_stack_addr L p) + 4096)"

text \<open>The processor on which a new task starts.\<close>

definition fresh_cpu :: "u32 \<Rightarrow> u32 \<Rightarrow> cpu" where
  "fresh_cpu entry sp = \<lparr>gpr = (\<lambda>r. if r = ESP then sp else 0), seg = (\<lambda>r. if r = CS then 0x08 else 0x10), pc = entry, flags = 0x0202\<rparr>"

lemma stack_frame_cpu:
  assumes st: "irq_return 1010 st = \<lparr>ds = 0x10, general = replicate 8 0, eip = entry, cs = 0x08, eflags = 0x0202, resume_sp = 1024\<rparr>"
    and len: "length st = 1024" and m: "\<And>j. j < 1024 \<Longrightarrow> m (base + of_nat (4 * j)) = st ! j"
  shows "cpu_at 0x10 m (base + 4 * 1010) = fresh_cpu entry (base + 4096)"
proof -
  have g: "st ! (1011 + i) = 0" if "i < 8" for i
  proof -
    have "general (irq_return 1010 st) ! i = st ! (1011 + i)" using that len by (simp add: irq_return_def)
    then show ?thesis using that by (simp add: st)
  qed
  have r: "st ! 1010 = 0x10" "st ! 1021 = entry" "st ! 1022 = 0x08" "st ! 1023 = 0x0202"
    using arg_cong [OF st, of ds] arg_cong [OF st, of eip] arg_cong [OF st, of cs] arg_cong [OF st, of eflags] by (simp_all add: irq_return_def)
  show ?thesis
    using m [of 1010] m [of 1011] m [of 1012] m [of 1013] m [of 1015] m [of 1016] m [of 1017] m [of 1018] m [of 1021] m [of 1022] m [of 1023]
      g [of 0] g [of 1] g [of 2] g [of 4] g [of 5] g [of 6] g [of 7] r
    by (simp add: cpu_at_def fresh_cpu_def fun_eq_iff add.assoc split: reg.split sreg.split)
qed

lemma boot_tasks:
  assumes "boot_ok L s0" and "kernel_main L s0 = Some s"
  shows "k_cur s = main_task" "pool_index (m_tasking s) = 2"
    "t_esp (tasks (m_tasking s) (task_pool 0)) = task_stack_addr L (task_pool 0) + 4 * 1010"
    "t_esp (tasks (m_tasking s) (task_pool 1)) = task_stack_addr L (task_pool 1) + 4 * 1010"
    "irq_return 1010 (t_stack (tasks (m_tasking s) (task_pool 0))) = \<lparr>ds = 0x10, general = replicate 8 0, eip = task_a_addr L, cs = 0x08, eflags = 0x0202, resume_sp = 1024\<rparr>"
    "irq_return 1010 (t_stack (tasks (m_tasking s) (task_pool 1))) = \<lparr>ds = 0x10, general = replicate 8 0, eip = task_b_addr L, cs = 0x08, eflags = 0x0202, resume_sp = 1024\<rparr>"
proof -
  define t0 where "t0 = init_tasking (m_tasking s0)"
  define t1 where "t1 = create_task (task_stack_addr L) (task_a_addr L) 3 t0"
  have l: "loaded s0" "table_layout (page_table_addr L)" using assms(1) by (auto simp: boot_ok_def)
  have t2: "m_tasking s = create_task (task_stack_addr L) (task_b_addr L) 2 t1"
    using kernel_main_state [OF l] assms(2) unfolding t1_def t0_def by (metis option.inject)
  have i0: "tasking_inv t0" using l(1) unfolding t0_def by (intro init_tasking_inv) (simp add: loaded_def)
  have i1: "tasking_inv t1" unfolding t1_def by (rule create_task_inv [OF i0])
  have p0: "pool_index t0 = 0" "current_task t0 = main_task" by (simp_all add: t0_def init_tasking_def)
  have p1: "pool_index t1 = 1" "current_task t1 = main_task"
    using p0 by (simp_all add: t1_def create_task_fields TASK_POOL_SIZE_def) (simp add: create_task_def Let_def case_prod_unfold TASK_POOL_SIZE_def)
  obtain xs where "ring_at t0 (main_task # xs)" using tasking_invE [OF i0] p0(2) by metis
  note c1 = create_task_correct [OF i0 this, of "task_stack_addr L" "task_a_addr L" 3, folded t1_def]
  obtain ys where "ring_at t1 (main_task # ys)" using tasking_invE [OF i1] p1(2) by metis
  note c2 = create_task_correct [OF i1 this, of "task_stack_addr L" "task_b_addr L" 2, folded t2]
  have keep: "tasks (m_tasking s) (task_pool 0) = tasks t1 (task_pool 0)"
    using p1 by (simp add: t2 create_task_def Let_def case_prod_unfold)
  show "k_cur s = main_task" "pool_index (m_tasking s) = 2"
    using p1 by (simp_all add: t2 create_task_fields TASK_POOL_SIZE_def) (simp add: create_task_def Let_def case_prod_unfold TASK_POOL_SIZE_def)
  show "t_esp (tasks (m_tasking s) (task_pool 0)) = task_stack_addr L (task_pool 0) + 4 * 1010"
    "irq_return 1010 (t_stack (tasks (m_tasking s) (task_pool 0))) = \<lparr>ds = 0x10, general = replicate 8 0, eip = task_a_addr L, cs = 0x08, eflags = 0x0202, resume_sp = 1024\<rparr>"
    using c1 p0 by (simp_all add: keep [simplified] TASK_POOL_SIZE_def Let_def)
  show "t_esp (tasks (m_tasking s) (task_pool 1)) = task_stack_addr L (task_pool 1) + 4 * 1010"
    "irq_return 1010 (t_stack (tasks (m_tasking s) (task_pool 1))) = \<lparr>ds = 0x10, general = replicate 8 0, eip = task_b_addr L, cs = 0x08, eflags = 0x0202, resume_sp = 1024\<rparr>"
    using c2 p1 by (simp_all add: TASK_POOL_SIZE_def Let_def)
qed

lemma boot_apart:
  assumes "boot_ok L s0" and main: "kernel_main L s0 = Some s" and loaded: "stacks_loaded L m (m_tasking s)" and R: "boot_stacks L R"
    and c: "task_cpu R main_task c"
  shows "apart L R (c, m, s)" "task_set s = {main_task, task_pool 0, task_pool 1}"
    "vcpu (c, m, s) (task_pool 0) = fresh_cpu (task_a_addr L) (task_stack_addr L (task_pool 0) + 4096)"
    "vcpu (c, m, s) (task_pool 1) = fresh_cpu (task_b_addr L) (task_stack_addr L (task_pool 1) + 4096)"
proof -
  note b = boot_tasks [OF assms(1) main]
  note inv = boot_inv [OF assms(1) main]
  have len: "length (t_stack (tasks (m_tasking s) (task_pool i))) = 1024" if "i < 2" for i
    using kernel_invD(2) [OF inv] that by (simp add: tasking_inv_def TASK_POOL_SIZE_def)
  have m: "m (task_stack_addr L (task_pool i) + of_nat (4 * j)) = t_stack (tasks (m_tasking s) (task_pool i)) ! j" if "i < 2" "j < 1024" for i j
    using loaded that b(2) by (simp add: stacks_loaded_def)
  show ts: "task_set s = {main_task, task_pool 0, task_pool 1}"
    using b(2) by (auto simp: task_set_def numeral_2_eq_2 lessThan_Suc)
  show v0: "vcpu (c, m, s) (task_pool 0) = fresh_cpu (task_a_addr L) (task_stack_addr L (task_pool 0) + 4096)"
    using stack_frame_cpu [OF b(5) len m] b(1,3) by (simp add: vcpu_def)
  show v1: "vcpu (c, m, s) (task_pool 1) = fresh_cpu (task_b_addr L) (task_stack_addr L (task_pool 1) + 4096)"
    using stack_frame_cpu [OF b(6) len m] b(1,4) by (simp add: vcpu_def)
  have fresh: "task_cpu R p (fresh_cpu e (task_stack_addr L p + 4096))" if "p \<in> {task_pool 0, task_pool 1}" for p e
  proof -
    have hi: "stack_hi R p < 2 ^ 32" "stack_hi R p = unat (task_stack_addr L p) + 4096" "stack_room R \<le> 4096"
      "stack_lo R p = unat (task_stack_addr L p)" "4 dvd unat (task_stack_addr L p)"
      using R that by (auto simp: boot_stacks_def stacks_ok_def)
    then have "unat (task_stack_addr L p + 4096) = unat (task_stack_addr L p) + 4096"
      using unat_plus_small [of "task_stack_addr L p" 4096] by simp
    then show ?thesis using hi by (simp add: task_cpu_def fresh_cpu_def kernel_cpu_def)
  qed
  have "vcpu (c, m, s) main_task = c" using b(1) by (simp add: vcpu_def)
  then have "task_cpu R p (vcpu (c, m, s) p)" if "p \<in> task_set s" for p
    using that c fresh v0 v1 unfolding ts by auto
  then show "apart L R (c, m, s)" using inv R by (simp add: apart_def ts boot_stacks_def)
qed

section \<open>Properties\<close>

text \<open>
  C2. Preemption is invisible. Take any run from boot, made of steps of whichever task runs, timer interrupts and keyboard
  interrupts in any order, on stacks that do not overlap and have room for an interrupt. A task that makes no step of its
  own between two points of the run has the same processor at both: all registers, flags, segments, stack and
  instruction pointer. So when it runs at both points, it goes on exactly where it was interrupted, however many
  other tasks ran in between. Moreover a timer interrupt always comes back, on the processor of the task that
  \<open>schedule\<close> chose.
\<close>

theorem preemption_invisible:
  assumes "boot_ok L s0" and "kernel_main L s0 = Some s" and "stacks_loaded L m (m_tasking s)" and "boot_stacks L R"
    and "task_cpu R main_task c" and "runs L R (c, m, s) ps w1" and "runs L R w1 qs (c2, m2, s2)" and "p \<in> task_set s" and "p \<notin> set qs"
    and "depth + 60 \<le> stack_room R"
  shows "vcpu (c2, m2, s2) p = vcpu w1 p \<and>
    (k_cur (snd (snd w1)) = p \<and> k_cur s2 = p \<longrightarrow> c2 = fst w1) \<and>
    (\<exists>c3 m3 s3. request L env code depth x 0 (c2, m2, s2) = Some (c3, m3, s3) \<and> c3 = vcpu (c2, m2, s2) (k_cur s3) \<and>
      map_option (current_task \<circ> snd) (schedule (gpr c2 ESP - 56) (m_tasking s2)) = Some (k_cur s3))"
proof -
  obtain c1 m1 s1 where w1: "w1 = (c1, m1, s1)" by (cases w1)
  have 1: "apart L R (c1, m1, s1)" "task_set s1 = task_set s"
    using runs_apart [OF assms(6) boot_apart(1) [OF assms(1-5)]] by (simp_all add: w1)
  have 2: "apart L R (c2, m2, s2)" "task_set s2 = task_set s" "vcpu (c2, m2, s2) p = vcpu w1 p"
    using runs_apart [OF assms(7) [unfolded w1] 1(1)] 1(2) assms(8,9) by (simp_all add: w1)
  from timer_request [OF 2(1) assms(10), of env code x] obtain c3 m3 s3 where
    r: "request L env code depth x 0 (c2, m2, s2) = Some (c3, m3, s3)" "apart L R (c3, m3, s3)" "task_set s3 = task_set s2"
      "map_option (current_task \<circ> snd) (schedule (gpr c2 ESP - 56) (m_tasking s2)) = Some (k_cur s3)"
      "\<forall>p\<in>task_set s2. vcpu (c3, m3, s3) p = vcpu (c2, m2, s2) p" by blast
  have "k_cur s3 \<in> task_set s2" using cur_in_set [OF apartD(1) [OF r(2)]] r(3) by simp
  with r(5) have "c3 = vcpu (c2, m2, s2) (k_cur s3)" by (auto simp: vcpu_def)
  with 2(3) r(1,4) show ?thesis by (auto simp: w1 vcpu_def)
qed

text \<open>
  C38. A new task starts right. After boot the main task runs and the two demonstration tasks wait; until such a task has
  made a step of its own, the processor it will be given is the one \<open>create_task\<close> prepared: at its entry point, with an empty
  stack, cleared registers, the kernel's segments and interrupts enabled, whatever ran before it.
\<close>

theorem first_activation:
  assumes "boot_ok L s0" and "kernel_main L s0 = Some s" and "stacks_loaded L m (m_tasking s)" and "boot_stacks L R"
    and "task_cpu R main_task c" and "runs L R (c, m, s) ps (c1, m1, s1)"
  shows "k_cur s = main_task \<and>
    (task_pool 0 \<notin> set ps \<longrightarrow> vcpu (c1, m1, s1) (task_pool 0) = fresh_cpu (task_a_addr L) (task_stack_addr L (task_pool 0) + 4096)) \<and>
    (task_pool 1 \<notin> set ps \<longrightarrow> vcpu (c1, m1, s1) (task_pool 1) = fresh_cpu (task_b_addr L) (task_stack_addr L (task_pool 1) + 4096))"
  using runs_apart [OF assms(6) boot_apart(1) [OF assms(1-5)]] boot_apart(2-4) [OF assms(1-5)] boot_tasks(1) [OF assms(1,2)] by simp

section \<open>Witnesses\<close>

definition demo_stacks :: stacks where
  "demo_stacks = \<lparr>stack_lo = (\<lambda>p. p * 8192), stack_hi = (\<lambda>p. p * 8192 + 4096), stack_room = 1024\<rparr>"

definition boot_cpu :: cpu where
  "boot_cpu = fresh_cpu 0x100020 0x2F00"

definition demo_scratch :: scratch where
  "demo_scratch = \<lparr>sc_ecx = 1, sc_edx = 2, sc_flags = 3, sc_words = (\<lambda>_. 4)\<rparr>"

definition stack_memory :: "tasking \<Rightarrow> memory" where
  "stack_memory t a = t_stack (tasks t (unat a div 8192)) ! (unat a mod 8192 div 4)"

lemma demo_boot:
  obtains s where "kernel_main demo_kernel_layout quiet_kernel = Some s"
    "stacks_loaded demo_kernel_layout (stack_memory (m_tasking s)) (m_tasking s)"
proof -
  obtain s where s: "kernel_main demo_kernel_layout quiet_kernel = Some s" using quiet_main by blast
  have "stacks_loaded demo_kernel_layout (stack_memory (m_tasking s)) (m_tasking s)"
    unfolding stacks_loaded_def
  proof (intro allI impI)
    fix i j :: nat
    assume "i < pool_index (m_tasking s)" "j < 1024"
    then have i: "i < 2" and j: "4 * j < 4096" using boot_tasks(2) [OF quiet_boot s] by simp_all
    have "task_stack_addr demo_kernel_layout (task_pool i) + of_nat (4 * j) = of_nat ((2 + i) * 8192 + 4 * j)"
      by (simp add: demo_kernel_layout_def)
    moreover have "(2 + i) * 8192 + 4 * j < 2 ^ 32" using i j by simp
    ultimately have "unat (task_stack_addr demo_kernel_layout (task_pool i) + of_nat (4 * j)) = (2 + i) * 8192 + 4 * j"
      using unat_of_nat_u32 by metis
    moreover have "((2 + i) * 8192 + 4 * j) mod 8192 = 4 * j" unfolding mod_mult_self3 using j by simp
    moreover have "((2 + i) * 8192 + 4 * j) div 8192 = 2 + i" using j by simp
    ultimately show "stack_memory (m_tasking s) (task_stack_addr demo_kernel_layout (task_pool i) + of_nat (4 * j)) =
        t_stack (tasks (m_tasking s) (task_pool i)) ! j" by (simp add: stack_memory_def)
  qed
  with s that show thesis by blast
qed

lemma demo_boot_stacks: "boot_stacks demo_kernel_layout demo_stacks" "task_cpu demo_stacks main_task boot_cpu"
  by (auto simp: boot_stacks_def stacks_ok_def demo_stacks_def demo_kernel_layout_def task_cpu_def boot_cpu_def fresh_cpu_def kernel_cpu_def)

theorem preemption_invisible_witness:
  "\<exists>s m c' m' s'. kernel_main demo_kernel_layout quiet_kernel = Some s \<and>
    request demo_kernel_layout quiet_env 0 256 demo_scratch 0 (boot_cpu, m, s) = Some (c', m', s') \<and>
    vcpu (c', m', s') main_task = boot_cpu"
proof -
  obtain s where s: "kernel_main demo_kernel_layout quiet_kernel = Some s"
    "stacks_loaded demo_kernel_layout (stack_memory (m_tasking s)) (m_tasking s)" using demo_boot .
  let ?w = "(boot_cpu, stack_memory (m_tasking s), s)"
  note R = demo_boot_stacks
  note main = preemption_invisible [OF quiet_boot s R runs.start, where p = main_task]
  have p: "main_task \<in> task_set s" by (simp add: task_set_def)
  have room: "256 + 60 \<le> stack_room demo_stacks" by (simp add: demo_stacks_def)
  from main [OF runs.start p _ room, of quiet_env 0 demo_scratch] obtain c' m' s' where
    r: "request demo_kernel_layout quiet_env 0 256 demo_scratch 0 ?w = Some (c', m', s')" by auto
  from runs.irq [OF runs.start _ room r] have run: "runs demo_kernel_layout demo_stacks ?w [] (c', m', s')" by simp
  from main [OF run p _ room] have "vcpu (c', m', s') main_task = vcpu ?w main_task" by simp
  also have "\<dots> = boot_cpu" using boot_tasks(1) [OF quiet_boot s(1)] by (simp add: vcpu_def)
  finally show ?thesis using s(1) r by blast
qed

theorem first_activation_witness:
  "\<exists>s m. kernel_main demo_kernel_layout quiet_kernel = Some s \<and>
    vcpu (boot_cpu, m, s) 2 = fresh_cpu 0x103000 0x5000 \<and> vcpu (boot_cpu, m, s) 3 = fresh_cpu 0x103100 0x7000"
proof -
  obtain s where s: "kernel_main demo_kernel_layout quiet_kernel = Some s"
    "stacks_loaded demo_kernel_layout (stack_memory (m_tasking s)) (m_tasking s)" using demo_boot .
  from first_activation [OF quiet_boot s demo_boot_stacks runs.start] s(1) show ?thesis
    by (auto simp: demo_kernel_layout_def)
qed

end
