(* ===== verification/Interleaving.thy ===== *)
theory Interleaving
  imports System
begin

text \<open>
  The demonstration tasks preempted anywhere: the loops of \<open>task_a\<close> and \<open>task_b\<close> cut into the pieces between which an
  interrupt may strike. What holds of every interleaving, and what may go wrong in one.
\<close>

section \<open>Model\<close>

text \<open>Where a task is in its loop: before each lock, inside each section, and before its sleep.\<close>

datatype place = At_Queue | In_Queue | Leaving_Queue bool | At_Screen | Drawing | Leaving_Screen | At_Sleep

text \<open>
  \<open>var\<close> is the local variable of each loop. The two lists record the values that have entered the queue and those that
  have been taken from it.
\<close>

record demo =
  ker :: kernel
  place :: "task_ptr \<Rightarrow> place"
  var :: "task_ptr \<Rightarrow> u32"
  accepted :: "u32 list"
  taken :: "u32 list"

abbreviation (input) producer :: task_ptr where
  "producer \<equiv> 2"

abbreviation (input) consumer :: task_ptr where
  "consumer \<equiv> 3"

text \<open>The bodies of \<open>queue_push\<close> and \<open>queue_pop\<close> between the lock and the unlock.\<close>

definition push_body :: "u32 \<Rightarrow> queue \<Rightarrow> queue" where
  "push_body val q = (if q_count q \<ge> QUEUE_SIZE then q
     else q\<lparr>q_data := (q_data q)[q_tail q := val], q_tail := (q_tail q + 1) mod QUEUE_SIZE, q_count := q_count q + 1\<rparr>)"

definition pop_body :: "queue \<Rightarrow> queue" where
  "pop_body q = (if q_count q = 0 then q else q\<lparr>q_head := (q_head q + 1) mod QUEUE_SIZE, q_count := q_count q - 1\<rparr>)"

definition in_queue :: "task_ptr \<Rightarrow> demo \<Rightarrow> demo" where
  "in_queue p w =
     (let s = ker w; q = msg_queue s in
      if p = producer then
        w\<lparr>ker := s\<lparr>msg_queue := push_body (var w p) q\<rparr>, place := (place w)(p := Leaving_Queue True),
          accepted := accepted w @ (if q_count q \<ge> QUEUE_SIZE then [] else [var w p])\<rparr>
      else if q_count q = 0 then w\<lparr>place := (place w)(p := Leaving_Queue False)\<rparr>
      else w\<lparr>ker := s\<lparr>msg_queue := pop_body q\<rparr>, place := (place w)(p := Leaving_Queue True),
          var := (var w)(p := q_data q ! q_head q), taken := taken w @ [q_data q ! q_head q]\<rparr>)"

text \<open>One piece of the running task \<open>p\<close>. A lock that is held makes it sleep for one tick and try again.\<close>

definition own :: "env \<Rightarrow> task_ptr \<Rightarrow> demo \<Rightarrow> demo option" where
  "own env p w =
     (let s = ker w; at = (\<lambda>x w. w\<lparr>place := (place w)(p := x)\<rparr>) in
      case place w p of
        At_Queue \<Rightarrow> (case queue_lock p [] (msg_queue s) of
            Some q \<Rightarrow> Some (at In_Queue (w\<lparr>ker := s\<lparr>msg_queue := q\<rparr>\<rparr>))
          | None \<Rightarrow> do { s \<leftarrow> sleep_here env 1 s; Some (w\<lparr>ker := s\<rparr>) })
      | In_Queue \<Rightarrow> Some (in_queue p w)
      | Leaving_Queue d \<Rightarrow> Some (at (if d then At_Screen else At_Sleep) (w\<lparr>ker := s\<lparr>msg_queue := queue_unlock p (msg_queue s)\<rparr>\<rparr>))
      | At_Screen \<Rightarrow> (case vga_lock p [] s of
            Some s \<Rightarrow> Some (at Drawing (w\<lparr>ker := s\<rparr>))
          | None \<Rightarrow> do { s \<leftarrow> sleep_here env 1 s; Some (w\<lparr>ker := s\<rparr>) })
      | Drawing \<Rightarrow> Some (at Leaving_Screen (w\<lparr>ker := upd_term (terminal_write_dec (var w p) (if p = producer then 2 else 3) 26) s\<rparr>))
      | Leaving_Screen \<Rightarrow> Some (at At_Sleep (w\<lparr>ker := vga_unlock p s,
            var := (var w)(p := (if p = producer then var w p + 1 else var w p))\<rparr>))
      | At_Sleep \<Rightarrow> do {
          s \<leftarrow> sleep_here env (if p = producer then 50 else 75) s;
          Some (at At_Queue (w\<lparr>ker := s\<rparr>))
        })"

text \<open>Interrupts at any moment, and pieces of whichever demonstration task runs; the main task only waits for interrupts.\<close>

inductive demo_step :: "layout \<Rightarrow> demo \<Rightarrow> demo \<Rightarrow> bool" for L where
  irq: "r_int_no regs \<in> {32, 33} \<Longrightarrow> kernel_irq L env code esp regs (ker w) = Some (e, s') \<Longrightarrow> demo_step L w (w\<lparr>ker := s'\<rparr>)"
| own: "k_cur (ker w) \<in> {producer, consumer} \<Longrightarrow> int_32 env = own_int_32 L env' code esp regs \<Longrightarrow>
    own env (k_cur (ker w)) w = Some w' \<Longrightarrow> demo_step L w w'"

definition demo_start :: "layout \<Rightarrow> kernel \<Rightarrow> demo set" where
  "demo_start L s0 = {\<lparr>ker = s, place = (\<lambda>_. At_Queue), var = (\<lambda>_. 0), accepted = [], taken = []\<rparr> |s. kernel_main L s0 = Some s}"

abbreviation demo_reachable :: "layout \<Rightarrow> kernel \<Rightarrow> demo \<Rightarrow> bool" where
  "demo_reachable L s0 \<equiv> reaches (demo_start L s0) (demo_step L)"

section \<open>The pieces make up the rounds\<close>

lemma queue_push_body: "queue_push cur w v q =
    map_option (\<lambda>q. (\<not> q_count q \<ge> QUEUE_SIZE, queue_unlock cur (push_body v q))) (queue_lock cur w q)"
  by (cases "queue_lock cur w q") (simp_all add: queue_push_def push_body_def)

lemma queue_pop_body: "queue_pop cur w q =
    map_option (\<lambda>q. (if q_count q = 0 then None else Some (q_data q ! q_head q), queue_unlock cur (pop_body q))) (queue_lock cur w q)"
  by (cases "queue_lock cur w q") (simp_all add: queue_pop_def pop_body_def)

fun owns :: "env \<Rightarrow> task_ptr \<Rightarrow> nat \<Rightarrow> demo \<Rightarrow> demo option" where
  "owns env p 0 w = Some w"
| "owns env p (Suc n) w = do { w \<leftarrow> own env p w; owns env p n w }"

text \<open>Uninterrupted, with both locks free, the pieces of a round do what \<open>task_a\<close> and \<open>task_b\<close> do.\<close>

lemma free_locks:
  assumes "demo_ok s"
  shows "queue_lock p v (msg_queue s) = Some ((msg_queue s)\<lparr>q_lock := \<lparr>locked = 1, owner = p\<rparr>\<rparr>)"
    "vga_lock p w (s\<lparr>msg_queue := q\<rparr>) = Some (s\<lparr>msg_queue := q, vga_mutex := \<lparr>locked = 1, owner = p\<rparr>\<rparr>)"
  using assms qlock.lock_free [of "msg_queue s" p v] vlock.lock_free [of "s\<lparr>msg_queue := q\<rparr>" p w]
  by (simp_all add: demo_ok_def queue_inv_def)

lemma task_a_pieces:
  assumes "demo_ok (ker w)" and "k_cur (ker w) = producer" and "place w producer = At_Queue"
  shows "map_option (\<lambda>w'. (var w' producer, ker w')) (owns env producer 7 w) = task_a env wq wv (var w producer) (ker w)"
  using assms(2,3) free_locks [OF assms(1)]
  by (simp add: numeral_eq_Suc own_def in_queue_def task_a_def queue_push_body Let_def upd_term_def bind_map_option comp_def map_option_bind
      split: bind_split)

lemma task_b_pieces:
  assumes "demo_ok (ker w)" and "k_cur (ker w) = consumer" and "place w consumer = At_Queue"
  shows "map_option (\<lambda>w'. (var w' consumer, ker w')) (owns env consumer (if q_count (msg_queue (ker w)) = 0 then 4 else 7) w) =
    task_b env wq wv (var w consumer) (ker w)"
  using assms(2,3) free_locks [OF assms(1)]
  by (simp add: numeral_eq_Suc own_def in_queue_def task_b_def queue_pop_body pop_body_def Let_def upd_term_def bind_map_option comp_def
      map_option_bind split: bind_split)

section \<open>Every interleaving\<close>

definition inside_queue :: "place \<Rightarrow> bool" where
  "inside_queue x \<longleftrightarrow> (case x of In_Queue \<Rightarrow> True | Leaving_Queue _ \<Rightarrow> True | _ \<Rightarrow> False)"

definition inside_screen :: "place \<Rightarrow> bool" where
  "inside_screen x \<longleftrightarrow> x = Drawing \<or> x = Leaving_Screen"

text \<open>A lock says who is inside the section it guards.\<close>

definition guards :: "mutex \<Rightarrow> (task_ptr \<Rightarrow> bool) \<Rightarrow> bool" where
  "guards m inside \<longleftrightarrow> (if mutex_free m then \<forall>p. \<not> inside p else \<exists>p. m = \<lparr>locked = 1, owner = p\<rparr> \<and> (\<forall>r. inside r \<longleftrightarrow> r = p))"

lemma guards_free: "guards \<lparr>locked = 0, owner = 0\<rparr> inside \<longleftrightarrow> (\<forall>p. \<not> inside p)"
  by (simp add: guards_def mutex_free_eq)

lemma guards_taken: "guards \<lparr>locked = 1, owner = p\<rparr> inside \<longleftrightarrow> (\<forall>r. inside r \<longleftrightarrow> r = p)"
  by (auto simp: guards_def mutex_free_eq)

lemma guards_locked: "guards m inside \<Longrightarrow> locked m = 0 \<longleftrightarrow> m = \<lparr>locked = 0, owner = 0\<rparr>"
  by (auto simp: guards_def mutex_free_eq split: if_splits)

lemma guards_lock: "guards m inside \<Longrightarrow> locked m = 0 \<Longrightarrow> guards (m\<lparr>locked := 1, owner := p\<rparr>) (inside(p := True))"
  by (auto simp: guards_locked guards_free guards_taken)

lemma guards_nobody: "guards m inside \<Longrightarrow> \<forall>p. \<not> inside p \<Longrightarrow> locked m = 0"
  by (auto simp: guards_def mutex_free_def split: if_splits)

lemma guards_one: "guards m inside \<Longrightarrow> inside p \<Longrightarrow> inside r \<Longrightarrow> p = r"
  by (auto simp: guards_def split: if_splits)

lemma guards_unlock:
  assumes "guards m inside" and "inside p"
  shows "guards (mutex_unlock p m) (inside(p := False))"
proof -
  from assms have "m = \<lparr>locked = 1, owner = p\<rparr>" "\<forall>r. inside r \<longleftrightarrow> r = p" by (auto simp: guards_def split: if_splits)
  then show ?thesis by (auto simp: mutex_unlock_def guards_free)
qed

text \<open>The parts of the invariant: the two locks, the queue, and the numbers. \<open>n\<close> is the counter without its wrap.\<close>

definition locks_ok :: "demo \<Rightarrow> bool" where
  "locks_ok w \<longleftrightarrow> guards (q_lock (msg_queue (ker w))) (inside_queue \<circ> place w) \<and> guards (vga_mutex (ker w)) (inside_screen \<circ> place w)"

definition unlocked :: "queue \<Rightarrow> queue" where
  "unlocked q = q\<lparr>q_lock := \<lparr>locked = 0, owner = 0\<rparr>\<rparr>"

definition stream_ok :: "demo \<Rightarrow> bool" where
  "stream_ok w \<longleftrightarrow> queue_inv (unlocked (msg_queue (ker w))) \<and> accepted w = taken w @ queue_list (msg_queue (ker w))"

definition counted :: "demo \<Rightarrow> bool" where
  "counted w \<longleftrightarrow> place w producer \<noteq> Leaving_Queue False \<and> (\<exists>n ns. accepted w = map of_nat ns \<and> sorted_wrt (<) ns \<and> var w producer = of_nat n \<and>
     (\<forall>i\<in>set ns. i < n + (if place w producer \<in> {At_Queue, In_Queue, At_Sleep} then 0 else 1)))"

definition demo_inv :: "layout \<Rightarrow> demo \<Rightarrow> bool" where
  "demo_inv L w \<longleftrightarrow> kernel_inv L (ker w) \<and> locks_ok w \<and> stream_ok w \<and> counted w"

lemma counted_ker [simp]: "counted (w\<lparr>ker := s\<rparr>) = counted w"
  by (simp add: counted_def)

lemma counted_cong:
  assumes "counted w" and "accepted w' = accepted w" and "var w' producer = var w producer"
    and "place w' producer = place w producer \<or> place w producer = At_Sleep \<and> place w' producer = At_Queue"
  shows "counted w'"
proof -
  have "(place w' producer \<in> {At_Queue, In_Queue, At_Sleep}) = (place w producer \<in> {At_Queue, In_Queue, At_Sleep})"
    "place w' producer \<noteq> Leaving_Queue False" using assms by (auto simp: counted_def)
  with assms show ?thesis by (simp only: counted_def simp_thms)
qed

lemma demo_inv_ker:
  "demo_inv L w \<Longrightarrow> kernel_inv L s \<Longrightarrow> shared s = shared (ker w) \<Longrightarrow> demo_inv L (w\<lparr>ker := s\<rparr>)"
  by (simp add: demo_inv_def locks_ok_def stream_ok_def shared_def)

lemma comp_upd [simp]: "f \<circ> g(x := y) = (f \<circ> g)(x := f y)"
  by auto

lemma inside_simps [simp]:
  "inside_queue At_Queue = False" "inside_queue In_Queue = True" "inside_queue (Leaving_Queue d) = True" "inside_queue At_Screen = False"
  "inside_queue Drawing = False" "inside_queue Leaving_Screen = False" "inside_queue At_Sleep = False"
  "inside_screen At_Queue = False" "inside_screen In_Queue = False" "inside_screen (Leaving_Queue d) = False" "inside_screen At_Screen = False"
  "inside_screen Drawing = True" "inside_screen Leaving_Screen = True" "inside_screen At_Sleep = False"
  by (simp_all add: inside_queue_def inside_screen_def)

text \<open>One attempt at a lock.\<close>

lemma one_attempt:
  "queue_lock p [] q = (if locked (q_lock q) = 0 then Some (q\<lparr>q_lock := (q_lock q)\<lparr>locked := 1, owner := p\<rparr>\<rparr>) else None)"
  "vga_lock p [] s = (if locked (vga_mutex s) = 0 then Some (s\<lparr>vga_mutex := (vga_mutex s)\<lparr>locked := 1, owner := p\<rparr>\<rparr>) else None)"
  by (simp_all add: mutex_lock.simps)

lemma same_place [simp]: "\<not> f (g x) \<Longrightarrow> (f \<circ> g)(x := False) = f \<circ> g" "f (g x) \<Longrightarrow> (f \<circ> g)(x := True) = f \<circ> g"
  by (simp_all add: fun_eq_iff)

text \<open>The pieces that do not sleep.\<close>

definition awake_piece :: "task_ptr \<Rightarrow> demo \<Rightarrow> bool" where
  "awake_piece p w \<longleftrightarrow> (case place w p of At_Queue \<Rightarrow> locked (q_lock (msg_queue (ker w))) = 0
     | At_Screen \<Rightarrow> locked (vga_mutex (ker w)) = 0 | At_Sleep \<Rightarrow> False | _ \<Rightarrow> True)"

lemma body_lock [simp]: "q_lock (push_body v q) = q_lock q" "q_lock (pop_body q) = q_lock q"
  by (simp_all add: push_body_def pop_body_def)

lemma locks_piece:
  assumes "locks_ok w" and "awake_piece p w" and "own env p w = Some w'"
  shows "locks_ok w'"
proof (cases "place w p")
  case At_Queue
  then show ?thesis using assms guards_lock [of _ _ p]
    by (auto simp: own_def Let_def awake_piece_def one_attempt locks_ok_def)
next
  case In_Queue
  then show ?thesis using assms
    by (auto simp: own_def in_queue_def Let_def locks_ok_def)
next
  case (Leaving_Queue d)
  then show ?thesis using assms guards_unlock [of _ "inside_queue \<circ> place w" p]
    by (auto simp: own_def Let_def locks_ok_def)
next
  case At_Screen
  then show ?thesis using assms guards_lock [of _ _ p]
    by (auto simp: own_def Let_def awake_piece_def one_attempt locks_ok_def)
next
  case Drawing
  then show ?thesis using assms
    by (auto simp: own_def Let_def locks_ok_def upd_term_def)
next
  case Leaving_Screen
  then show ?thesis using assms guards_unlock [of _ "inside_screen \<circ> place w" p]
    by (auto simp: own_def Let_def locks_ok_def)
next
  case At_Sleep
  then show ?thesis using assms(2) by (simp add: awake_piece_def)
qed

lemma unlocked_body: "unlocked (push_body v q) = push_body v (unlocked q)" "unlocked (pop_body q) = pop_body (unlocked q)"
  by (simp_all add: push_body_def pop_body_def unlocked_def)

lemma unlocked_lock [simp]: "unlocked (q\<lparr>q_lock := m\<rparr>) = unlocked q" "queue_list (unlocked q) = queue_list q" "q_count (unlocked q) = q_count q"
  "queue_list (q\<lparr>q_lock := m\<rparr>) = queue_list q"
  by (simp_all add: unlocked_def queue_list_def)

lemma push_body_queue:
  assumes "queue_inv (unlocked q)"
  shows "queue_inv (unlocked (push_body v q))" "queue_list (push_body v q) = queue_list q @ (if q_count q \<ge> QUEUE_SIZE then [] else [v])"
proof -
  let ?q = "unlocked q"
  have "queue_inv (push_body v ?q)" using assms queue_inv_push [of ?q v] by (auto simp: push_body_def)
  then show "queue_inv (unlocked (push_body v q))" by (simp add: unlocked_body)
  have "queue_list (push_body v ?q) = queue_list ?q @ (if q_count q \<ge> QUEUE_SIZE then [] else [v])"
    using assms queue_list_push [of ?q v] by (auto simp: push_body_def)
  then show "queue_list (push_body v q) = queue_list q @ (if q_count q \<ge> QUEUE_SIZE then [] else [v])"
    unfolding unlocked_body(1) [symmetric] by simp
qed

lemma pop_body_queue:
  assumes "queue_inv (unlocked q)" and "q_count q \<noteq> 0"
  shows "queue_inv (unlocked (pop_body q))" "queue_list q = q_data q ! q_head q # queue_list (pop_body q)"
proof -
  let ?q = "unlocked q"
  have "queue_inv (pop_body ?q)" using assms queue_inv_pop [of ?q] by (auto simp: pop_body_def)
  then show "queue_inv (unlocked (pop_body q))" by (simp add: unlocked_body)
  have "queue_list ?q = q_data ?q ! q_head ?q # queue_list (pop_body ?q)"
    using assms queue_list_pop [of ?q] by (auto simp: pop_body_def)
  moreover have "q_data ?q = q_data q" "q_head ?q = q_head q" by (simp_all add: unlocked_def)
  ultimately show "queue_list q = q_data q ! q_head q # queue_list (pop_body q)"
    unfolding unlocked_body(2) [symmetric] by simp
qed

lemma stream_piece:
  assumes "stream_ok w" and "awake_piece p w" and "own env p w = Some w'"
  shows "stream_ok w'"
proof (cases "place w p = In_Queue")
  case True
  then have "w' = in_queue p w" using assms(3) by (simp add: own_def)
  then show ?thesis using assms(1) push_body_queue [of "msg_queue (ker w)" "var w p"] pop_body_queue [of "msg_queue (ker w)"]
    by (auto simp: in_queue_def Let_def stream_ok_def)
next
  case False
  then have "unlocked (msg_queue (ker w')) = unlocked (msg_queue (ker w)) \<and> accepted w' = accepted w \<and> taken w' = taken w"
    using assms(2,3) by (cases "place w p") (auto simp: own_def Let_def awake_piece_def one_attempt upd_term_def)
  moreover from this have "queue_list (msg_queue (ker w')) = queue_list (msg_queue (ker w))" by (metis unlocked_lock(2))
  ultimately show ?thesis using assms(1) by (simp add: stream_ok_def)
qed

lemma counted_piece:
  assumes "counted w" and "awake_piece p w" and "own env p w = Some w'" and "p \<in> {producer, consumer}"
  shows "counted w'"
proof (cases "p = consumer")
  case True
  then have "accepted w' = accepted w \<and> var w' producer = var w producer \<and> place w' producer = place w producer"
    using assms(2,3) by (cases "place w p") (auto simp: own_def in_queue_def Let_def awake_piece_def one_attempt split: if_splits)
  with counted_cong [OF assms(1)] show ?thesis by simp
next
  case False
  then have p: "p = producer" using assms(4) by simp
  from assms(1) obtain n ns where n: "accepted w = map of_nat ns" "sorted_wrt (<) ns" "var w producer = of_nat n"
    "\<forall>i\<in>set ns. i < n + (if place w producer \<in> {At_Queue, In_Queue, At_Sleep} then 0 else 1)" and d: "place w producer \<noteq> Leaving_Queue False"
    unfolding counted_def by blast
  show ?thesis
  proof (cases "place w producer")
    case In_Queue
    let ?ns = "ns @ (if q_count (msg_queue (ker w)) \<ge> QUEUE_SIZE then [] else [n])"
    have "sorted_wrt (<) ?ns" "\<forall>i\<in>set ?ns. i < Suc n" using n(2,4) In_Queue by (auto simp: sorted_wrt_append less_SucI split: if_splits)
    with In_Queue n p assms(3) show ?thesis
      by (auto simp: own_def in_queue_def Let_def counted_def intro!: exI [of _ n] exI [of _ ?ns])
  next
    case Leaving_Screen
    with n p assms(3) show ?thesis
      by (auto simp: own_def Let_def counted_def intro!: exI [of _ "Suc n"] exI [of _ ns])
  qed (use n d p assms(2,3) in \<open>auto simp: own_def Let_def awake_piece_def one_attempt counted_def intro!: exI [of _ n] exI [of _ ns] split: if_splits\<close>)
qed

lemma kernel_piece:
  assumes "kernel_inv L (ker w)" and "awake_piece p w" and "own env p w = Some w'"
  shows "kernel_inv L (ker w')"
  using assms by (cases "place w p") (auto simp: own_def in_queue_def Let_def awake_piece_def one_attempt write_dec_inv)

text \<open>The pieces that sleep, for a tick before a held lock or for the rest of the round, only run the timer interrupt.\<close>

lemma sleeping_piece:
  assumes "\<not> awake_piece p w" and "own env p w = Some w'"
  obtains s' n x where "sleep_here env n (ker w) = Some s'" "w' = w\<lparr>ker := s', place := (place w)(p := x)\<rparr>"
    "place w p = At_Sleep \<and> x = At_Queue \<or> place w p \<in> {At_Queue, At_Screen} \<and> x = place w p"
proof -
  have same: "w\<lparr>ker := s, place := (place w)(p := x)\<rparr> = w\<lparr>ker := s\<rparr>" if "place w p = x" for s x using that by (simp add: fun_upd_idem)
  from assms have "\<exists>s' n x. sleep_here env n (ker w) = Some s' \<and> w' = w\<lparr>ker := s', place := (place w)(p := x)\<rparr> \<and>
      (place w p = At_Sleep \<and> x = At_Queue \<or> place w p \<in> {At_Queue, At_Screen} \<and> x = place w p)"
    by (cases "place w p") (auto simp: own_def Let_def awake_piece_def one_attempt bind_eq_Some_conv same split: if_splits)
  with that show thesis by blast
qed

lemma own_inv:
  assumes inv: "demo_inv L w" and env: "int_32_ok L env" and run: "own env p w = Some w'" and p: "p \<in> {producer, consumer}"
  shows "demo_inv L w'"
proof (cases "awake_piece p w")
  case True
  with inv run p kernel_piece locks_piece stream_piece counted_piece show ?thesis unfolding demo_inv_def by blast
next
  case False
  from sleeping_piece [OF this run] obtain s' n x where s': "sleep_here env n (ker w) = Some s'"
    and w': "w' = w\<lparr>ker := s', place := (place w)(p := x)\<rparr>"
    and x: "place w p = At_Sleep \<and> x = At_Queue \<or> place w p \<in> {At_Queue, At_Screen} \<and> x = place w p" .
  have k: "kernel_inv L (ker w)" using inv by (simp add: demo_inv_def)
  note s = sleep_inv [OF env k s']
  have d: "demo_inv L (w\<lparr>ker := s'\<rparr>)" using s by (intro demo_inv_ker [OF inv]) simp_all
  have "(inside_queue \<circ> place w)(p := inside_queue x) = inside_queue \<circ> place w"
    "(inside_screen \<circ> place w)(p := inside_screen x) = inside_screen \<circ> place w" using x by (auto simp: fun_eq_iff)
  with d have "locks_ok w'" by (simp add: w' demo_inv_def locks_ok_def)
  moreover have "counted w'"
  proof (rule counted_cong)
    show "counted w" using inv by (simp add: demo_inv_def)
    show "place w' producer = place w producer \<or> place w producer = At_Sleep \<and> place w' producer = At_Queue" using x by (auto simp: w')
  qed (simp_all add: w')
  ultimately show ?thesis using d by (simp add: demo_inv_def w' stream_ok_def)
qed

lemma demo_step_inv:
  assumes "demo_step L w w'" and inv: "demo_inv L w"
  shows "demo_inv L w'"
  using assms(1)
proof cases
  case (irq regs env code esp e s')
  have k: "kernel_inv L (ker w)" using inv by (simp add: demo_inv_def)
  from irq(1) show ?thesis using demo_inv_ker [OF inv irq_inv [OF k irq(2,3)] irq_shared [OF k irq(2,3)]] by simp
next
  case (own env env' code esp regs)
  with own_inv [OF inv own_int_32_ok] show ?thesis by blast
qed

lemma demo_start_inv:
  assumes "boot_ok L s0" and "w \<in> demo_start L s0"
  shows "demo_inv L w"
proof -
  obtain s where s: "kernel_main L s0 = Some s" and w: "w = \<lparr>ker = s, place = (\<lambda>_. At_Queue), var = (\<lambda>_. 0), accepted = [], taken = []\<rparr>"
    using assms(2) by (auto simp: demo_start_def)
  note b = boot_services [OF assms(1) s]
  have "unlocked (msg_queue s) = msg_queue s" "q_lock (msg_queue s) = \<lparr>locked = 0, owner = 0\<rparr>" "vga_mutex s = \<lparr>locked = 0, owner = 0\<rparr>"
    using b(2) by (simp_all add: demo_ok_def queue_inv_def mutex_free_eq unlocked_def)
  moreover have "counted w" unfolding counted_def w by (auto intro!: exI [of _ 0])
  ultimately show ?thesis
    using boot_inv [OF assms(1) s] b by (simp add: demo_inv_def locks_ok_def stream_ok_def guards_free w demo_ok_def comp_def)
qed

interpretation everywhere: step_invariant "demo_start L s0" "demo_step L" "\<lambda>w. boot_ok L s0 \<longrightarrow> demo_inv L w" for L s0
  by unfold_locales (use demo_start_inv demo_step_inv in auto)

lemma own_returns:
  assumes "kernel_inv L (ker w)" and "int_32 env = own_int_32 L env' code esp regs"
  shows "\<exists>w'. own env p w = Some w'"
proof -
  have "\<exists>s. sleep_here env n (ker w) = Some s" for n by (rule sleep_returns [OF assms])
  then obtain f where f: "\<And>n. sleep_here env n (ker w) = Some (f n)" by metis
  show ?thesis by (cases "place w p") (simp_all add: own_def Let_def one_attempt f)
qed

section \<open>Waiting for a lock\<close>

text \<open>The lock a task at some place has to take next.\<close>

definition lock_ahead :: "place \<Rightarrow> kernel \<Rightarrow> mutex option" where
  "lock_ahead x s = (case x of At_Queue \<Rightarrow> Some (q_lock (msg_queue s)) | At_Screen \<Rightarrow> Some (vga_mutex s) | _ \<Rightarrow> None)"

text \<open>Ready, and above every other task.\<close>

definition outranks :: "task_ptr \<Rightarrow> tasking \<Rightarrow> bool" where
  "outranks p t \<longleftrightarrow> 0 < t_priority (tasks t p) \<and>
     (\<forall>r\<in>{main_task} \<union> task_pool ` {..<pool_index t}. r \<noteq> p \<longrightarrow> t_priority (tasks t r) < t_priority (tasks t p))"

text \<open>The task \<open>p\<close> runs and waits for a lock that \<open>r\<close>, a task of lower priority, holds.\<close>

definition waits_for :: "layout \<Rightarrow> task_ptr \<Rightarrow> task_ptr \<Rightarrow> demo \<Rightarrow> bool" where
  "waits_for L p r w \<longleftrightarrow> kernel_inv L (ker w) \<and> k_cur (ker w) = p \<and> t_state (tasks (m_tasking (ker w)) p) = TASK_READY \<and>
     outranks p (m_tasking (ker w)) \<and> r \<noteq> p \<and> lock_ahead (place w p) (ker w) = Some \<lparr>locked = 1, owner = r\<rparr>"

lemma lock_ahead_cong: "shared s' = shared s \<Longrightarrow> lock_ahead x s' = lock_ahead x s"
  by (simp add: lock_ahead_def shared_def split: place.split)

text \<open>One run of the scheduler that finds the current task ready, woken by this very run or not: it goes on.\<close>

lemma schedule_same:
  assumes inv: "tasking_inv t" and p: "current_task t = p" "t_state (ticked esp t p) = TASK_READY" "outranks p t"
    and run: "schedule esp t = Some (e, t')"
  shows "current_task t' = p" "t_state (tasks t' p) = TASK_READY" "outranks p t'"
proof -
  obtain xs where ring: "ring_at t (p # xs)" using tasking_invE [OF inv] p(1) by metis
  then have set: "set (p # xs) = {main_task} \<union> task_pool ` {..<pool_index t}" unfolding ring_at_def by blast
  have "runnable esp t p" using p(2,3) by (simp add: runnable_def outranks_def)
  then obtain e' where "schedule esp t = Some (e', after_schedule esp (p # xs) p t)"
    using schedule_highest [OF ring, of p esp] p(3) unfolding outranks_def set [symmetric] by auto
  with run have t': "t' = after_schedule esp (p # xs) p t" by simp
  show "current_task t' = p" "outranks p t'" using p(3) by (simp_all add: t' outranks_def)
  show "t_state (tasks t' p) = TASK_READY" using p(2) by (simp add: t' after_schedule_def)
qed

lemma irq_same:
  assumes inv: "kernel_inv L s" and no: "r_int_no regs \<in> {32, 33}" and run: "kernel_irq L env code esp regs s = Some (e, s')"
    and p: "k_cur s = p" "t_state (ticked esp (m_tasking s) p) = TASK_READY" "outranks p (m_tasking s)"
    and key: "r_int_no regs = 33 \<Longrightarrow> t_state (tasks (m_tasking s) p) = TASK_READY"
  shows "k_cur s' = p" "t_state (tasks (m_tasking s') p) = TASK_READY" "outranks p (m_tasking s')"
proof -
  have "k_cur s' = p \<and> t_state (tasks (m_tasking s') p) = TASK_READY \<and> outranks p (m_tasking s')"
  proof (cases "r_int_no regs = 32")
    case True
    from schedule_same [OF kernel_invD(2) [OF inv] p timer_irq_shared(1) [OF inv True run]] show ?thesis by simp
  next
    case False
    then have n: "r_int_no regs = 33" using no by simp
    then have "m_tasking s' = m_tasking s" using key_irq_aside(1) [OF inv n run] by (simp add: aside_def)
    with p key n show ?thesis by simp
  qed
  then show "k_cur s' = p" "t_state (tasks (m_tasking s') p) = TASK_READY" "outranks p (m_tasking s')" by simp_all
qed

text \<open>A sleep of one tick is over in the run of the scheduler that it causes.\<close>

lemma ticked_one: "t_state (ticked esp (m_tasking (asleep 1 s)) (k_cur s)) = TASK_READY"
  by (simp add: upd_tasking_def ticked_def count_down_def)

lemma waits_step:
  assumes "demo_step L w w'" and "waits_for L p r w"
  shows "waits_for L p r w' \<and> shared (ker w') = shared (ker w) \<and> place w' = place w"
  using assms(1)
proof cases
  case (irq regs env code esp e s')
  have w: "kernel_inv L (ker w)" "k_cur (ker w) = p" "t_state (tasks (m_tasking (ker w)) p) = TASK_READY" "outranks p (m_tasking (ker w))"
    using assms(2) by (simp_all add: waits_for_def)
  have "t_state (ticked esp (m_tasking (ker w)) p) = TASK_READY" using ticked_awake [of "m_tasking (ker w)" p] w(3) by simp
  note s' = irq_same [OF w(1) irq(2,3) w(2) this w(4) w(3)]
  note sh = irq_shared [OF w(1) irq(2,3)]
  from s' irq_inv [OF w(1) irq(2,3)] sh lock_ahead_cong [OF sh] assms(2) show ?thesis by (simp add: waits_for_def irq(1))
next
  case (own env env' code esp regs)
  have w: "kernel_inv L (ker w)" "k_cur (ker w) = p" "outranks p (m_tasking (ker w))"
    and l: "lock_ahead (place w p) (ker w) = Some \<lparr>locked = 1, owner = r\<rparr>" using assms(2) by (simp_all add: waits_for_def)
  from l own(3) w(2) obtain s' where s': "sleep_here env 1 (ker w) = Some s'" "w' = w\<lparr>ker := s'\<rparr>"
    by (cases "place w p") (auto simp: lock_ahead_def own_def Let_def one_attempt bind_eq_Some_conv)
  then obtain e where irq: "kernel_irq L env' code esp (regs\<lparr>r_int_no := 32\<rparr>) (asleep 1 (ker w)) = Some (e, s')"
    using own(2) by (auto simp: sleep_here_def own_int_32_def)
  note k = asleep_inv [OF w(1), of 1]
  have cur: "k_cur (asleep 1 (ker w)) = p" "outranks p (m_tasking (asleep 1 (ker w)))"
    using w(2,3) by (simp_all add: upd_tasking_def outranks_def)
  note s = irq_same [OF k _ irq cur(1) _ cur(2)]
  have sh: "shared s' = shared (ker w)" using irq_shared [OF k _ irq] asleep_shared by simp
  have "t_state (ticked esp (m_tasking (asleep 1 (ker w))) p) = TASK_READY" using ticked_one [of esp "ker w"] w(2) by simp
  with s irq_inv [OF k _ irq] sh lock_ahead_cong [OF sh] l assms(2) show ?thesis by (simp add: waits_for_def s'(2))
qed

section \<open>A way into it from boot\<close>

text \<open>The three tasks with the priorities of \<open>kernel_main\<close>: \<open>c\<close> runs, and the producer is ready or has \<open>n\<close> ticks to sleep.\<close>

definition situation :: "task_ptr \<Rightarrow> task_state \<Rightarrow> nat \<Rightarrow> tasking \<Rightarrow> bool" where
  "situation c st n t \<longleftrightarrow> current_task t = c \<and> pool_index t = 2 \<and> t_priority (tasks t main_task) = 1 \<and> t_priority (tasks t producer) = 3 \<and>
     t_priority (tasks t consumer) = 2 \<and> t_state (tasks t main_task) = TASK_READY \<and> t_state (tasks t consumer) = TASK_READY \<and>
     t_state (tasks t producer) = st \<and> unat (t_sleep_ticks (tasks t producer)) = n"

lemma ring_three:
  assumes "ring_at t xs" and "pool_index t = 2"
  shows "set xs = {1, 2, 3}"
proof -
  have "set xs = {main_task} \<union> task_pool ` {..<2}" using assms unfolding ring_at_def by metis
  also have "{..<2 :: nat} = {0, 1}" by auto
  finally show ?thesis by (simp add: numeral_eq_Suc insert_commute)
qed

lemma schedule_situation:
  assumes inv: "tasking_inv t" and now: "situation c st n t" and st: "st = TASK_READY \<or> st = TASK_SLEEPING \<and> 0 < n"
    and run: "schedule esp t = Some (e, t')"
  shows "if st = TASK_READY \<or> n = 1 then \<exists>m. situation producer TASK_READY m t' else situation consumer TASK_SLEEPING (n - 1) t'"
proof -
  obtain xs where ring: "ring_at t (c # xs)" using tasking_invE [OF inv] now by (metis situation_def)
  have set: "set (c # xs) = {1, 2, 3}" using ring_three [OF ring] now by (simp add: situation_def)
  have awake: "t_state (ticked esp t p) = TASK_READY" if "p = 1 \<or> p = 3" for p
    using that now ticked_awake [of t p esp] by (auto simp: situation_def)
  have prio: "t_priority (tasks t 1) = 1" "t_priority (tasks t 2) = 3" "t_priority (tasks t 3) = 2" using now by (simp_all add: situation_def)
  let ?up = "st = TASK_READY \<or> n = 1" and ?r = "if st = TASK_READY \<or> n = 1 then producer else consumer"
  have p: "t_state (ticked esp t producer) = (if ?up then TASK_READY else TASK_SLEEPING)"
    "st = TASK_SLEEPING \<Longrightarrow> unat (t_sleep_ticks (ticked esp t producer)) = n - 1"
    using st now ticked_awake [of t producer esp] ticked_sleeping [of t producer esp] by (auto simp: situation_def)
  have "\<exists>e. schedule esp t = Some (e, after_schedule esp (c # xs) ?r t)"
    using p(1) awake prio by (intro schedule_highest [OF ring, unfolded set]) (auto simp: runnable_def)
  with run have t': "t' = after_schedule esp (c # xs) ?r t" by simp
  have fields: "t_state (tasks t' p) = t_state (ticked esp t p)" "t_sleep_ticks (tasks t' p) = t_sleep_ticks (ticked esp t p)"
    "t_priority (tasks t' p) = t_priority (tasks t p)" if "p \<in> {1, 2, 3}" for p
    using that unfolding t' after_schedule_def set by simp_all
  have t'_sel: "current_task t' = ?r" "pool_index t' = 2" using now by (simp_all add: t' situation_def)
  show ?thesis
  proof (cases ?up)
    case True
    then have "situation producer TASK_READY (unat (t_sleep_ticks (tasks t' producer))) t'"
      using fields [of 1] fields [of 2] fields [of 3] p(1) awake [of 1] awake [of 3] prio t'_sel by (simp add: situation_def)
    with True show ?thesis by auto
  next
    case False
    then have "st = TASK_SLEEPING" using st by blast
    with False have "situation consumer TASK_SLEEPING (n - 1) t'"
      using fields [of 1] fields [of 2] fields [of 3] p awake [of 1] awake [of 3] prio t'_sel by (simp add: situation_def)
    with False show ?thesis by simp
  qed
qed

lemma situation_outranks:
  assumes "situation producer st n t"
  shows "outranks producer t"
proof -
  have "{..<2 :: nat} = {0, 1}" by auto
  with assms show ?thesis by (simp add: outranks_def situation_def del: One_nat_def)
qed

lemma timer_situation:
  assumes "kernel_inv L s" and "situation c st n (m_tasking s)" and "st = TASK_READY \<or> st = TASK_SLEEPING \<and> 0 < n" and no: "r_int_no regs = 32"
  shows "\<exists>e s'. kernel_irq L env code esp regs s = Some (e, s') \<and>
    (if st = TASK_READY \<or> n = 1 then \<exists>m. situation producer TASK_READY m (m_tasking s') else situation consumer TASK_SLEEPING (n - 1) (m_tasking s'))"
proof -
  obtain e s' where s': "kernel_irq L env code esp regs s = Some (e, s')" using timer_returns [OF assms(1) no] by blast
  from s' schedule_situation [OF kernel_invD(2) [OF assms(1)] assms(2,3) timer_irq_shared(1) [OF assms(1) no s']] show ?thesis by blast
qed

text \<open>An uninterrupted piece of a task while the other one is outside its sections.\<close>

fun next_place :: "place \<Rightarrow> place" where
  "next_place At_Queue = In_Queue"
| "next_place In_Queue = Leaving_Queue True"
| "next_place (Leaving_Queue d) = At_Screen"
| "next_place At_Screen = Drawing"
| "next_place Drawing = Leaving_Screen"
| "next_place Leaving_Screen = At_Sleep"
| "next_place At_Sleep = At_Queue"

definition served_env :: "layout \<Rightarrow> env" where
  "served_env L = quiet_env\<lparr>int_32 := own_int_32 L quiet_env 0 0 demo_regs\<rparr>"

lemma served_env: "int_32 (served_env L) = own_int_32 L quiet_env 0 0 demo_regs"
  by (simp add: served_env_def)

lemma alone_piece:
  assumes boot: "boot_ok L s0" and w: "demo_reachable L s0 w" and cur: "k_cur (ker w) = p" "p = producer \<or> p = consumer \<and> place w p = At_Queue"
    and alone: "\<forall>r. r \<noteq> p \<longrightarrow> place w r = At_Queue" and x: "place w p \<notin> {At_Sleep, Leaving_Queue False}"
  obtains w' where "demo_reachable L s0 w'" "m_tasking (ker w') = m_tasking (ker w)" "place w' = (place w)(p := next_place (place w p))"
proof -
  have inv: "demo_inv L w" using everywhere.reaches_inv [OF w] boot by blast
  have g: "guards (q_lock (msg_queue (ker w))) (inside_queue \<circ> place w)" "guards (vga_mutex (ker w)) (inside_screen \<circ> place w)"
    using inv by (simp_all add: demo_inv_def locks_ok_def)
  have "\<not> inside_queue (place w r) \<and> \<not> inside_screen (place w r)" if "place w p \<in> {At_Queue, At_Screen}" for r
    using alone that by (cases "r = p") auto
  then have "locked (q_lock (msg_queue (ker w))) = 0" "locked (vga_mutex (ker w)) = 0" if "place w p \<in> {At_Queue, At_Screen}"
    using guards_nobody [OF g(1)] guards_nobody [OF g(2)] that by simp_all
  then have awake: "awake_piece p w" using x by (auto simp: awake_piece_def split: place.split)
  obtain w' where run: "own (served_env L) p w = Some w'" using own_returns [OF _ served_env, of L w p] inv unfolding demo_inv_def by blast
  have "demo_step L w w'" using demo_step.own [OF _ served_env, where w = w and w' = w'] run cur by auto
  then have "demo_reachable L s0 w'" by (rule reaches.step [OF w])
  moreover have "m_tasking (ker w') = m_tasking (ker w) \<and> place w' = (place w)(p := next_place (place w p))"
    using run awake x cur(2)
    by (cases "place w p") (auto simp: own_def in_queue_def Let_def awake_piece_def one_attempt upd_term_def)
  ultimately show thesis using that by blast
qed

text \<open>The producer from the head of its loop to its sleep.\<close>

lemma producer_goes:
  assumes boot: "boot_ok L s0" and "demo_reachable L s0 w" "k_cur (ker w) = producer" "place w = (\<lambda>_. At_Queue)(producer := x)"
    and x: "x = (next_place ^^ n) At_Queue" "n \<le> 6"
  shows "\<exists>w'. demo_reachable L s0 w' \<and> m_tasking (ker w') = m_tasking (ker w) \<and> place w' = (\<lambda>_. At_Queue)(producer := At_Sleep)"
proof -
  have six: "(next_place ^^ 6) At_Queue = At_Sleep" by (simp add: numeral_eq_Suc)
  have ahead: "(next_place ^^ n) At_Queue \<notin> {At_Sleep, Leaving_Queue False}" if "n < 6" for n
    using that by (auto simp: numeral_eq_Suc less_Suc_eq)
  show ?thesis using assms(2-)
proof (induction "6 - n" arbitrary: n x w)
  case 0
  then have "n = 6" by simp
  with 0 six show ?case by metis
next
  case (Suc d)
  then have x: "x \<notin> {At_Sleep, Leaving_Queue False}" using ahead [of n] by auto
  have "place w producer = x" "\<forall>r. r \<noteq> producer \<longrightarrow> place w r = At_Queue" using Suc.prems(3) by simp_all
  with alone_piece [OF boot Suc.prems(1,2)] x obtain w' where
    w': "demo_reachable L s0 w'" "m_tasking (ker w') = m_tasking (ker w)" "place w' = (place w)(producer := next_place x)" by metis
  have "d = 6 - Suc n" "Suc n \<le> 6" "next_place x = (next_place ^^ Suc n) At_Queue" using Suc.hyps(2) Suc.prems(4) by auto
  with Suc.hyps(1) [OF _ w'(1), of "Suc n" "next_place x"] w'(2,3) Suc.prems(2,3) show ?case by auto
qed
qed

text \<open>Ticks while the producer sleeps.\<close>

lemma demo_regs_32: "r_int_no demo_regs = 32"
  by (simp add: demo_regs_def)

lemma ticks_pass:
  assumes boot: "boot_ok L s0" and "demo_reachable L s0 w" and "situation consumer TASK_SLEEPING (Suc n) (m_tasking (ker w))"
  shows "\<exists>w' m. demo_reachable L s0 w' \<and> situation producer TASK_READY m (m_tasking (ker w')) \<and> place w' = place w"
  using assms(2,3)
proof (induction n arbitrary: w)
  case 0
  have "kernel_inv L (ker w)" using everywhere.reaches_inv [OF 0(1)] boot by (simp add: demo_inv_def)
  from timer_situation [OF this 0(2) _ demo_regs_32, of quiet_env 0 0] obtain e s' m where
    s': "kernel_irq L quiet_env 0 0 demo_regs (ker w) = Some (e, s')" "situation producer TASK_READY m (m_tasking s')" by auto
  have "demo_reachable L s0 (w\<lparr>ker := s'\<rparr>)" using s'(1) by (intro reaches.step [OF 0(1)] demo_step.irq [of demo_regs]) (simp_all add: demo_regs_32)
  with s'(2) show ?case by (intro exI [of _ "w\<lparr>ker := s'\<rparr>"]) auto
next
  case (Suc n)
  have "kernel_inv L (ker w)" using everywhere.reaches_inv [OF Suc.prems(1)] boot by (simp add: demo_inv_def)
  from timer_situation [OF this Suc.prems(2) _ demo_regs_32, of quiet_env 0 0] obtain e s' where
    s': "kernel_irq L quiet_env 0 0 demo_regs (ker w) = Some (e, s')" "situation consumer TASK_SLEEPING (Suc n) (m_tasking s')" by auto
  have "demo_reachable L s0 (w\<lparr>ker := s'\<rparr>)"
    using s'(1) by (intro reaches.step [OF Suc.prems(1)] demo_step.irq [of demo_regs]) (simp_all add: demo_regs_32)
  from Suc.IH [OF this] s'(2) show ?case by simp
qed

lemma boot_situation:
  assumes "boot_ok L s0" and "kernel_main L s0 = Some s"
  shows "\<exists>n. situation main_task TASK_READY n (m_tasking s)"
proof -
  define t0 where "t0 = init_tasking (m_tasking s0)"
  define t1 where "t1 = create_task (task_stack_addr L) (task_a_addr L) 3 t0"
  have l: "loaded s0" "table_layout (page_table_addr L)" using assms(1) by (auto simp: boot_ok_def)
  have t2: "m_tasking s = create_task (task_stack_addr L) (task_b_addr L) 2 t1"
    using kernel_main_state [OF l] assms(2) unfolding t1_def t0_def by (metis option.inject)
  have p: "pool_index t0 = 0" "pool_index t1 = 1" by (simp_all add: t0_def t1_def create_task_fields TASK_POOL_SIZE_def init_pool)
  have "current_task (m_tasking s) = main_task"
    using p by (simp add: t2 t1_def t0_def create_task_def Let_def case_prod_unfold TASK_POOL_SIZE_def init_tasking_def)
  with p show ?thesis
    by (simp add: situation_def t2 create_task_fields TASK_POOL_SIZE_def) (simp add: t1_def create_task_fields TASK_POOL_SIZE_def, simp add: t0_def init_tasking_def)
qed

text \<open>
  The first tick starts the producer, which goes through its round and sleeps for 50 ticks. The consumer takes the queue lock
  and keeps it until the producer wakes and runs again.
\<close>

lemma inversion_reachable:
  assumes boot: "boot_ok L s0"
  shows "\<exists>w. demo_reachable L s0 w \<and> waits_for L producer consumer w \<and> place w consumer = In_Queue"
proof -
  have inv: "demo_inv L w" if "demo_reachable L s0 w" for w using everywhere.reaches_inv [OF that] boot by blast
  then have ker: "kernel_inv L (ker w)" if "demo_reachable L s0 w" for w using that by (simp add: demo_inv_def)
  obtain s where s: "kernel_main L s0 = Some s" using kernel_main_state [of s0 L] boot unfolding boot_ok_def by metis
  define w0 where "w0 = \<lparr>ker = s, place = (\<lambda>_. At_Queue), var = (\<lambda>_. 0), accepted = [], taken = []\<rparr>"
  have r0: "demo_reachable L s0 w0" using s by (intro reaches.start) (simp add: demo_start_def w0_def)
  obtain n where "situation main_task TASK_READY n (m_tasking (ker w0))" using boot_situation [OF boot s] by (auto simp: w0_def)
  from timer_situation [OF ker [OF r0] this _ demo_regs_32, of quiet_env 0 0] obtain e s1 m where
    s1: "kernel_irq L quiet_env 0 0 demo_regs (ker w0) = Some (e, s1)" "situation producer TASK_READY m (m_tasking s1)" by auto
  have r1: "demo_reachable L s0 (w0\<lparr>ker := s1\<rparr>)" using s1(1) by (intro reaches.step [OF r0] demo_step.irq [of demo_regs]) (simp_all add: demo_regs_32)
  from producer_goes [OF boot r1, of At_Queue 0] s1(2) obtain w2 where
    w2: "demo_reachable L s0 w2" "m_tasking (ker w2) = m_tasking s1" "place w2 = (\<lambda>_. At_Queue)(producer := At_Sleep)"
    by (auto simp: situation_def w0_def fun_upd_idem)
  have "situation producer TASK_SLEEPING 50 (m_tasking (asleep 50 (ker w2)))" using s1(2) w2(2) by (simp add: situation_def upd_tasking_def)
  from timer_situation [OF asleep_inv [OF ker [OF w2(1)]] this _ demo_regs_32, of quiet_env 0 0] obtain e' s3 where
    s3: "kernel_irq L quiet_env 0 0 demo_regs (asleep 50 (ker w2)) = Some (e', s3)" "situation consumer TASK_SLEEPING 49 (m_tasking s3)" by auto
  have cur: "k_cur (ker w2) = producer" using s1(2) w2(2) by (simp add: situation_def)
  define w3 where "w3 = w2\<lparr>ker := s3, place := \<lambda>_. At_Queue\<rparr>"
  have "demo_regs\<lparr>r_int_no := 32\<rparr> = demo_regs" by (simp add: demo_regs_def)
  then have "own (served_env L) producer w2 = Some w3"
    using s3(1) w2(3) by (simp add: own_def Let_def sleep_here_def served_env own_int_32_def w3_def fun_upd_idem)
  then have "demo_step L w2 w3" using cur by (intro demo_step.own [OF _ served_env]) simp_all
  then have r3: "demo_reachable L s0 w3" by (rule reaches.step [OF w2(1)])
  from alone_piece [OF boot r3, of consumer] s3(2) obtain w4 where
    w4: "demo_reachable L s0 w4" "m_tasking (ker w4) = m_tasking s3" "place w4 = (\<lambda>_. At_Queue)(consumer := In_Queue)"
    by (auto simp: situation_def w3_def)
  from ticks_pass [OF boot w4(1), of 48] s3(2) w4(2) obtain w5 k where
    w5: "demo_reachable L s0 w5" "situation producer TASK_READY k (m_tasking (ker w5))" "place w5 = place w4" by auto
  have g: "guards (q_lock (msg_queue (ker w5))) (inside_queue \<circ> place w5)" using inv [OF w5(1)] by (simp add: demo_inv_def locks_ok_def)
  then have "q_lock (msg_queue (ker w5)) = \<lparr>locked = 1, owner = consumer\<rparr>"
    using w5(3) w4(3) by (auto simp: guards_def split: if_splits)
  moreover have "outranks producer (m_tasking (ker w5))" by (rule situation_outranks [OF w5(2)])
  ultimately have "waits_for L producer consumer w5"
    using ker [OF w5(1)] w5 w4(3) by (simp add: waits_for_def situation_def lock_ahead_def)
  with w5(1,3) w4(3) show ?thesis by auto
qed

text \<open>Once in it, no step leads out of it.\<close>

interpretation waiting: step_invariant "{w}" "demo_step L"
  "\<lambda>w'. waits_for L p r w \<longrightarrow> waits_for L p r w' \<and> shared (ker w') = shared (ker w) \<and> place w' = place w" for w L p r
  by unfold_locales (use waits_step in fastforce)+

lemma demo_goes_on:
  assumes "kernel_inv L (ker w)"
  shows "\<exists>w'. demo_step L w w'"
proof -
  obtain e s' where "kernel_irq L quiet_env 0 0 demo_regs (ker w) = Some (e, s')" using timer_returns [OF assms demo_regs_32] by blast
  then have "demo_step L w (w\<lparr>ker := s'\<rparr>)" by (intro demo_step.irq [of demo_regs]) (simp_all add: demo_regs_32)
  then show ?thesis by blast
qed

section \<open>Properties\<close>

text \<open>
  C3. The demonstration tasks under preemption. Whatever interrupts strike, between whichever two pieces of the loops of
  \<open>task_a\<close> and \<open>task_b\<close>, and whatever is typed meanwhile: at most one task is inside the section of the queue lock and
  at most one inside that of the screen lock; the numbers received, followed by those still in the queue, are numbers the
  producer counted, each at most once and in the order of counting; and the piece the running task is at returns.
\<close>

theorem sections_exclusive:
  assumes "boot_ok L s0" and "demo_reachable L s0 w" and "int_32 env = own_int_32 L env' code esp regs"
  shows "(\<forall>p r. inside_queue (place w p) \<and> inside_queue (place w r) \<longrightarrow> p = r) \<and>
    (\<forall>p r. inside_screen (place w p) \<and> inside_screen (place w r) \<longrightarrow> p = r) \<and>
    (\<exists>ns. taken w @ queue_list (msg_queue (ker w)) = map of_nat ns \<and> sorted_wrt (<) ns) \<and>
    (\<exists>w'. own env (k_cur (ker w)) w = Some w')"
proof -
  have inv: "demo_inv L w" using everywhere.reaches_inv [OF assms(2)] assms(1) by blast
  then have "\<exists>w'. own env (k_cur (ker w)) w = Some w'" using own_returns [OF _ assms(3)] by (simp add: demo_inv_def)
  moreover have "\<exists>ns. taken w @ queue_list (msg_queue (ker w)) = map of_nat ns \<and> sorted_wrt (<) ns"
    using inv unfolding demo_inv_def stream_ok_def counted_def by metis
  moreover have "p = r" if "guards m (f \<circ> place w)" "f (place w p) \<and> f (place w r)" for m f p r
    using guards_one [OF that(1), of p r] that(2) by simp
  ultimately show ?thesis using inv unfolding demo_inv_def locks_ok_def by blast
qed

text \<open>
  C5. Priority inversion stops both demonstration tasks for ever. From every boot a state is reachable in which the
  producer runs and waits for the queue lock while the consumer, of lower priority, is inside the section. From then on,
  whatever interrupts come, the producer stays the running task and stays before the lock, the consumer stays inside, and
  queue and locks stay as they are, although the kernel goes on: one tick of sleep is over in the very run of the scheduler
  that the sleep causes, and no priority is inherited.
\<close>

theorem priority_inversion:
  assumes "boot_ok L s0"
  shows "\<exists>w. demo_reachable L s0 w \<and> waits_for L producer consumer w \<and> inside_queue (place w consumer) \<and>
    (\<forall>w'. reaches {w} (demo_step L) w' \<longrightarrow> k_cur (ker w') = producer \<and> place w' = place w \<and> shared (ker w') = shared (ker w) \<and>
      (\<exists>w''. demo_step L w' w''))"
proof -
  obtain w where w: "demo_reachable L s0 w" "waits_for L producer consumer w" "place w consumer = In_Queue"
    using inversion_reachable [OF assms] by blast
  have "k_cur (ker w') = producer \<and> place w' = place w \<and> shared (ker w') = shared (ker w) \<and> (\<exists>w''. demo_step L w' w'')"
    if "reaches {w} (demo_step L) w'" for w'
    using waiting.reaches_inv [OF that] w(2) demo_goes_on unfolding waits_for_def by blast
  with w show ?thesis by (intro exI [of _ w]) simp
qed

section \<open>Witnesses\<close>

theorem sections_exclusive_witness:
  "\<exists>w w'. demo_reachable demo_kernel_layout quiet_kernel w \<and> inside_queue (place w consumer) \<and> \<not> inside_queue (place w producer) \<and>
    own (served_env demo_kernel_layout) (k_cur (ker w)) w = Some w'"
proof -
  obtain w where w: "demo_reachable demo_kernel_layout quiet_kernel w" "place w consumer = In_Queue"
    using inversion_reachable [OF quiet_boot] by blast
  from sections_exclusive [OF quiet_boot w(1) served_env] have
    "\<forall>p r. inside_queue (place w p) \<and> inside_queue (place w r) \<longrightarrow> p = r" "\<exists>w'. own (served_env demo_kernel_layout) (k_cur (ker w)) w = Some w'"
    by blast+
  with w have "\<not> inside_queue (place w producer)" by (metis inside_simps(2) numeral_eq_iff semiring_norm(88))
  with w \<open>\<exists>w'. own (served_env demo_kernel_layout) (k_cur (ker w)) w = Some w'\<close> show ?thesis by (metis inside_simps(2))
qed

theorem priority_inversion_witness:
  "\<exists>w. demo_reachable demo_kernel_layout quiet_kernel w \<and> waits_for demo_kernel_layout producer consumer w \<and>
    (\<forall>w'. reaches {w} (demo_step demo_kernel_layout) w' \<longrightarrow> place w' consumer = place w consumer)"
  using priority_inversion [OF quiet_boot] by metis

end
