(* ===== verification/Pipe.thy ===== *)
theory Pipe
  imports Errors Logging Semaphore
begin

text \<open>
  \<^verbatim>\<open>pipe.c\<close>: producer/consumer pipes, a ring of 256 words guarded by a mutex, with two binary
  semaphores for the blocking calls. A pipe argument is \<open>None\<close> when the pointer is NULL, and
  \<open>data\<close> tells whether the destination pointer of a read is non-NULL. \<open>w\<close> is the interference
  during the wait for the lock, \<open>ws\<close> the interference during the wait for a semaphore.
\<close>

section \<open>Model\<close>

definition PIPE_BUFFER_SIZE :: nat where
  "PIPE_BUFFER_SIZE = 256"

record pipe =
  p_buffer :: "u32 list"
  p_read_idx :: nat
  p_write_idx :: nat
  p_count :: nat
  p_readers :: int
  p_writers :: int
  p_lock :: mutex
  p_not_empty :: semaphore
  p_not_full :: semaphore
  p_active :: int

abbreviation pipe_lock :: "task_ptr \<Rightarrow> pipe interference \<Rightarrow> pipe \<Rightarrow> pipe option" where
  "pipe_lock \<equiv> mutex_lock p_lock (\<lambda>m p. p\<lparr>p_lock := m\<rparr>)"

abbreviation pipe_unlock :: "task_ptr \<Rightarrow> pipe \<Rightarrow> pipe" where
  "pipe_unlock cur p \<equiv> p\<lparr>p_lock := mutex_unlock cur (p_lock p)\<rparr>"

definition pipe_create ::
  "u32 \<Rightarrow> pipe option \<Rightarrow> logging \<Rightarrow> error_t \<times> pipe option \<times> logging" where
  "pipe_create ticks ptr l =
     (case ptr of
        None \<Rightarrow> (E_INVAL, None, l)
      | Some p \<Rightarrow>
          let p = p\<lparr>p_read_idx := 0, p_write_idx := 0, p_count := 0, p_readers := 1,
                    p_writers := 1, p_active := 1\<rparr>;
              p = p\<lparr>p_lock := mutex_init (p_lock p)\<rparr>;
              p = p\<lparr>p_not_empty := sem_init (p_not_empty p) 0 1\<rparr>;
              p = p\<lparr>p_not_full := sem_init (p_not_full p) 1 1\<rparr>
          in (E_OK, Some p, log_msg ticks LOG_DEBUG (''Pipe cr'' @ e_acute @ e_acute) l))"

definition pipe_close ::
  "task_ptr \<Rightarrow> pipe interference \<Rightarrow> u32 \<Rightarrow> pipe option \<Rightarrow> logging \<Rightarrow>
    (error_t \<times> pipe option \<times> logging) option" where
  "pipe_close cur w ticks ptr l =
     (case ptr of
        None \<Rightarrow> Some (E_INVAL, None, l)
      | Some p \<Rightarrow> do {
          p \<leftarrow> pipe_lock cur w p;
          let p = p\<lparr>p_active := 0\<rparr>;
          let p = pipe_unlock cur p;
          Some (E_OK, Some p, log_msg ticks LOG_DEBUG (''Pipe ferm'' @ e_acute) l)
        })"

definition pipe_write ::
  "task_ptr \<Rightarrow> pipe interference \<Rightarrow> pipe option \<Rightarrow> u32 \<Rightarrow> (error_t \<times> pipe option) option" where
  "pipe_write cur w ptr data =
     (case ptr of
        None \<Rightarrow> Some (E_BADF, None)
      | Some p \<Rightarrow>
          if p_active p = 0 then Some (E_BADF, Some p)
          else do {
            p \<leftarrow> pipe_lock cur w p;
            if p_count p \<ge> PIPE_BUFFER_SIZE then Some (E_BUSY, Some (pipe_unlock cur p))
            else do {
              let p = p\<lparr>p_buffer := (p_buffer p)[p_write_idx p := data]\<rparr>;
              let p = p\<lparr>p_write_idx := (p_write_idx p + 1) mod PIPE_BUFFER_SIZE\<rparr>;
              let p = p\<lparr>p_count := p_count p + 1\<rparr>;
              let p = pipe_unlock cur p;
              let p = p\<lparr>p_not_empty := sem_post (p_not_empty p)\<rparr>;
              Some (E_OK, Some p)
            }
          })"

definition pipe_write_blocking ::
  "task_ptr \<Rightarrow> pipe interference \<Rightarrow> pipe interference \<Rightarrow> pipe option \<Rightarrow> u32 \<Rightarrow>
    (error_t \<times> pipe option) option" where
  "pipe_write_blocking cur ws w ptr data =
     (case ptr of
        None \<Rightarrow> Some (E_BADF, None)
      | Some p \<Rightarrow>
          if p_active p = 0 then Some (E_BADF, Some p)
          else do {
            p \<leftarrow> sem_wait p_not_full (\<lambda>s p. p\<lparr>p_not_full := s\<rparr>) ws p;
            pipe_write cur w (Some p) data
          })"

definition pipe_read ::
  "task_ptr \<Rightarrow> pipe interference \<Rightarrow> pipe option \<Rightarrow> bool \<Rightarrow>
    (error_t \<times> u32 option \<times> pipe option) option" where
  "pipe_read cur w ptr data =
     (case ptr of
        None \<Rightarrow> Some (E_INVAL, None, None)
      | Some p \<Rightarrow>
          if p_active p = 0 \<or> \<not> data then Some (E_INVAL, None, Some p)
          else do {
            p \<leftarrow> pipe_lock cur w p;
            if p_count p = 0 then Some (E_BUSY, None, Some (pipe_unlock cur p))
            else do {
              let v = p_buffer p ! p_read_idx p;
              let p = p\<lparr>p_read_idx := (p_read_idx p + 1) mod PIPE_BUFFER_SIZE\<rparr>;
              let p = p\<lparr>p_count := p_count p - 1\<rparr>;
              let p = pipe_unlock cur p;
              let p = p\<lparr>p_not_full := sem_post (p_not_full p)\<rparr>;
              Some (E_OK, Some v, Some p)
            }
          })"

definition pipe_read_blocking ::
  "task_ptr \<Rightarrow> pipe interference \<Rightarrow> pipe interference \<Rightarrow> pipe option \<Rightarrow> bool \<Rightarrow>
    (error_t \<times> u32 option \<times> pipe option) option" where
  "pipe_read_blocking cur ws w ptr data =
     (case ptr of
        None \<Rightarrow> Some (E_INVAL, None, None)
      | Some p \<Rightarrow>
          if p_active p = 0 \<or> \<not> data then Some (E_INVAL, None, Some p)
          else do {
            p \<leftarrow> sem_wait p_not_empty (\<lambda>s p. p\<lparr>p_not_empty := s\<rparr>) ws p;
            pipe_read cur w (Some p) data
          })"

definition pipe_flush ::
  "task_ptr \<Rightarrow> pipe interference \<Rightarrow> pipe option \<Rightarrow> (error_t \<times> pipe option) option" where
  "pipe_flush cur w ptr =
     (case ptr of
        None \<Rightarrow> Some (E_INVAL, None)
      | Some p \<Rightarrow> do {
          p \<leftarrow> pipe_lock cur w p;
          let p = p\<lparr>p_read_idx := 0, p_write_idx := 0, p_count := 0\<rparr>;
          Some (E_OK, Some (pipe_unlock cur p))
        })"

definition pipe_get_count ::
  "task_ptr \<Rightarrow> pipe interference \<Rightarrow> pipe option \<Rightarrow> (nat \<times> pipe option) option" where
  "pipe_get_count cur w ptr =
     (case ptr of
        None \<Rightarrow> Some (0, None)
      | Some p \<Rightarrow> do {
          p \<leftarrow> pipe_lock cur w p;
          let cnt = p_count p;
          Some (cnt, Some (pipe_unlock cur p))
        })"

definition pipe_is_empty ::
  "task_ptr \<Rightarrow> pipe interference \<Rightarrow> pipe option \<Rightarrow> (bool \<times> pipe option) option" where
  "pipe_is_empty cur w ptr =
     (case ptr of
        None \<Rightarrow> Some (True, None)
      | Some p \<Rightarrow> map_option (\<lambda>(cnt, p'). (cnt = 0, p')) (pipe_get_count cur w (Some p)))"

definition pipe_is_full ::
  "task_ptr \<Rightarrow> pipe interference \<Rightarrow> pipe option \<Rightarrow> (bool \<times> pipe option) option" where
  "pipe_is_full cur w ptr =
     (case ptr of
        None \<Rightarrow> Some (False, None)
      | Some p \<Rightarrow> map_option (\<lambda>(cnt, p'). (cnt \<ge> PIPE_BUFFER_SIZE, p')) (pipe_get_count cur w (Some p)))"

section \<open>Invariant, abstraction and the single steps\<close>

definition pipe_inv :: "pipe \<Rightarrow> bool" where
  "pipe_inv p \<longleftrightarrow> length (p_buffer p) = PIPE_BUFFER_SIZE \<and> p_read_idx p < PIPE_BUFFER_SIZE \<and>
     p_count p \<le> PIPE_BUFFER_SIZE \<and>
     p_write_idx p = (p_read_idx p + p_count p) mod PIPE_BUFFER_SIZE \<and>
     mutex_free (p_lock p) \<and> sem_inv (p_not_empty p) \<and> sem_inv (p_not_full p)"

definition pipe_list :: "pipe \<Rightarrow> u32 list" where
  "pipe_list p = rb_list (p_buffer p) (p_read_idx p) (p_count p)"

interpretation plock: mutex_guarded p_lock "\<lambda>m p. p\<lparr>p_lock := m\<rparr>"
  by unfold_locales simp_all

text \<open>The state after a successful non-blocking write and read.\<close>

definition after_write :: "u32 \<Rightarrow> pipe \<Rightarrow> pipe" where
  "after_write v p = p\<lparr>p_buffer := (p_buffer p)[p_write_idx p := v],
     p_write_idx := (p_write_idx p + 1) mod PIPE_BUFFER_SIZE, p_count := p_count p + 1,
     p_not_empty := sem_post (p_not_empty p)\<rparr>"

definition after_read :: "pipe \<Rightarrow> pipe" where
  "after_read p = p\<lparr>p_read_idx := (p_read_idx p + 1) mod PIPE_BUFFER_SIZE,
     p_count := p_count p - 1, p_not_full := sem_post (p_not_full p)\<rparr>"

lemma pipe_lock_free:
  "pipe_inv p \<Longrightarrow> pipe_lock cur w p = Some (p\<lparr>p_lock := \<lparr>locked = 1, owner = cur\<rparr>\<rparr>)"
  by (rule plock.lock_free) (simp add: pipe_inv_def)

lemma pipe_lock_same: "pipe_inv p \<Longrightarrow> p\<lparr>p_lock := \<lparr>locked = 0, owner = 0\<rparr>\<rparr> = p"
  by (simp add: pipe_inv_def mutex_free_eq)

lemmas pipe_run = pipe_lock_free mutex_unlock_def pipe_lock_same

lemma pipe_write_room:
  "pipe_inv p \<Longrightarrow> p_active p \<noteq> 0 \<Longrightarrow> p_count p < PIPE_BUFFER_SIZE \<Longrightarrow>
    pipe_write cur w (Some p) v = Some (E_OK, Some (after_write v p))"
  by (simp add: pipe_write_def pipe_lock_free mutex_unlock_def after_write_def pipe_inv_def mutex_free_eq)

lemma pipe_write_full:
  "pipe_inv p \<Longrightarrow> p_active p \<noteq> 0 \<Longrightarrow> p_count p = PIPE_BUFFER_SIZE \<Longrightarrow>
    pipe_write cur w (Some p) v = Some (E_BUSY, Some p)"
  by (simp add: pipe_write_def pipe_run)

lemma pipe_read_some:
  "pipe_inv p \<Longrightarrow> p_active p \<noteq> 0 \<Longrightarrow> 0 < p_count p \<Longrightarrow>
    pipe_read cur w (Some p) True = Some (E_OK, Some (p_buffer p ! p_read_idx p), Some (after_read p))"
  by (simp add: pipe_read_def pipe_lock_free mutex_unlock_def after_read_def pipe_inv_def mutex_free_eq)

lemma pipe_read_empty:
  "pipe_inv p \<Longrightarrow> p_active p \<noteq> 0 \<Longrightarrow> p_count p = 0 \<Longrightarrow>
    pipe_read cur w (Some p) True = Some (E_BUSY, None, Some p)"
  by (simp add: pipe_read_def pipe_run)

lemma pipe_count_run: "pipe_inv p \<Longrightarrow> pipe_get_count cur w (Some p) = Some (p_count p, Some p)"
  by (simp add: pipe_get_count_def pipe_run)

lemma pipe_inv_write [kinv]:
  "pipe_inv p \<Longrightarrow> p_count p < PIPE_BUFFER_SIZE \<Longrightarrow> pipe_inv (after_write v p)"
  by (simp add: pipe_inv_def after_write_def mod_Suc_eq sem_inv_post)

lemma pipe_list_write:
  "pipe_inv p \<Longrightarrow> p_count p < PIPE_BUFFER_SIZE \<Longrightarrow> pipe_list (after_write v p) = pipe_list p @ [v]"
  using rb_list_push [of "p_count p" "p_buffer p" "p_read_idx p" v]
  by (simp add: pipe_inv_def after_write_def pipe_list_def)

lemma pipe_inv_read [kinv]: "pipe_inv p \<Longrightarrow> 0 < p_count p \<Longrightarrow> pipe_inv (after_read p)"
  using rb_end_pop [of "p_count p" "p_read_idx p" PIPE_BUFFER_SIZE]
  by (auto simp: pipe_inv_def after_read_def sem_inv_post intro!: mod_less_divisor)

lemma pipe_list_read:
  "pipe_inv p \<Longrightarrow> 0 < p_count p \<Longrightarrow>
    pipe_list p = p_buffer p ! p_read_idx p # pipe_list (after_read p)"
  using rb_list_pop [of "p_count p" "p_read_idx p" "p_buffer p"]
  by (simp add: pipe_inv_def after_read_def pipe_list_def)

lemma after_fields [simp]:
  "p_active (after_write v p) = p_active p" "p_active (after_read p) = p_active p"
  "p_count (after_write v p) = p_count p + 1" "p_count (after_read p) = p_count p - 1"
  "p_not_empty (after_write v p) = sem_post (p_not_empty p)" "p_not_empty (after_read p) = p_not_empty p"
  "p_not_full (after_write v p) = p_not_full p" "p_not_full (after_read p) = sem_post (p_not_full p)"
  by (simp_all add: after_write_def after_read_def)

lemma pipe_list_length [simp]: "length (pipe_list p) = p_count p"
  by (simp add: pipe_list_def)

lemma pipe_list_Nil [simp]: "pipe_list p = [] \<longleftrightarrow> p_count p = 0"
  by (simp add: pipe_list_def)

section \<open>A pipe is a bounded queue\<close>

definition pipe_put :: "task_ptr \<Rightarrow> pipe interference \<Rightarrow> u32 \<Rightarrow> pipe \<Rightarrow> pipe option" where
  "pipe_put cur w v p = (case pipe_write cur w (Some p) v of Some (E_OK, p') \<Rightarrow> p' | _ \<Rightarrow> None)"

definition pipe_take :: "task_ptr \<Rightarrow> pipe interference \<Rightarrow> pipe \<Rightarrow> (u32 \<times> pipe) option" where
  "pipe_take cur w p =
     (case pipe_read cur w (Some p) True of Some (E_OK, Some v, Some p') \<Rightarrow> Some (v, p') | _ \<Rightarrow> None)"

definition pipe_open :: "pipe \<Rightarrow> bool" where
  "pipe_open p \<longleftrightarrow> pipe_inv p \<and> p_active p \<noteq> 0"

interpretation pfifo: bounded_fifo PIPE_BUFFER_SIZE pipe_list pipe_open "pipe_put cur w" "pipe_take cur w"
proof
  fix p :: pipe and v :: u32 and vs
  assume "pipe_open p"
  then have inv: "pipe_inv p" and act: "p_active p \<noteq> 0" by (simp_all add: pipe_open_def)
  show "length (pipe_list p) \<le> PIPE_BUFFER_SIZE"
    using inv by (simp add: pipe_inv_def)
  show "\<exists>p'. pipe_put cur w v p = Some p' \<and> pipe_open p' \<and> pipe_list p' = pipe_list p @ [v]"
    if "length (pipe_list p) < PIPE_BUFFER_SIZE"
    using that inv act
    by (simp add: pipe_put_def pipe_write_room pipe_open_def pipe_inv_write pipe_list_write)
  show "pipe_put cur w v p = None" if "length (pipe_list p) = PIPE_BUFFER_SIZE"
    using that inv act by (simp add: pipe_put_def pipe_write_full)
  show "\<exists>p'. pipe_take cur w p = Some (v, p') \<and> pipe_open p' \<and> pipe_list p' = vs"
    if "pipe_list p = v # vs"
  proof -
    from that have "0 < p_count p" by (metis gr_zeroI list.distinct(1) pipe_list_Nil)
    with that inv act show ?thesis
      using pipe_list_read [of p] by (simp add: pipe_take_def pipe_read_some pipe_open_def pipe_inv_read)
  qed
  show "pipe_take cur w p = None" if "pipe_list p = []"
    using that inv act by (simp add: pipe_take_def pipe_read_empty)
qed

section \<open>A created pipe\<close>

definition fresh_pipe :: "pipe \<Rightarrow> pipe" where
  "fresh_pipe p = p\<lparr>p_read_idx := 0, p_write_idx := 0, p_count := 0, p_readers := 1,
     p_writers := 1, p_active := 1, p_lock := \<lparr>locked = 0, owner = 0\<rparr>,
     p_not_empty := \<lparr>sem_count = 0, sem_max = 1\<rparr>, p_not_full := \<lparr>sem_count = 1, sem_max = 1\<rparr>\<rparr>"

lemma pipe_create_fresh: "fst (snd (pipe_create ticks (Some p) l)) = Some (fresh_pipe p)"
  by (cases "p_not_empty p"; cases "p_not_full p")
    (simp add: pipe_create_def fresh_pipe_def mutex_init_def sem_init_def Let_def)

lemma fresh_pipe_inv [kinv]: "length (p_buffer p) = PIPE_BUFFER_SIZE \<Longrightarrow> pipe_inv (fresh_pipe p)"
  by (simp add: pipe_inv_def fresh_pipe_def mutex_free_def sem_inv_def permits_def PIPE_BUFFER_SIZE_def)

lemma fresh_pipe_fields [simp]:
  "p_active (fresh_pipe p) = 1" "p_count (fresh_pipe p) = 0" "pipe_list (fresh_pipe p) = []"
  "p_not_empty (fresh_pipe p) = \<lparr>sem_count = 0, sem_max = 1\<rparr>"
  "p_not_full (fresh_pipe p) = \<lparr>sem_count = 1, sem_max = 1\<rparr>"
  by (simp_all add: fresh_pipe_def)

section \<open>The blocking calls\<close>

lemma binary_post [simp]:
  "sem_post \<lparr>sem_count = 0, sem_max = 1\<rparr> = \<lparr>sem_count = 1, sem_max = 1\<rparr>"
  "sem_post \<lparr>sem_count = 1, sem_max = 1\<rparr> = \<lparr>sem_count = 1, sem_max = 1\<rparr>"
  by (simp_all add: sem_post_def)

lemma blocking_read_ready:
  assumes "pipe_inv p" and "p_active p \<noteq> 0" and "p_not_empty p = \<lparr>sem_count = 1, sem_max = 1\<rparr>"
    and "0 < p_count p"
  shows "pipe_read_blocking cur ws w (Some p) True =
    Some (E_OK, Some (p_buffer p ! p_read_idx p),
      Some (after_read (p\<lparr>p_not_empty := \<lparr>sem_count = 0, sem_max = 1\<rparr>\<rparr>)))"
proof -
  have "pipe_inv (p\<lparr>p_not_empty := \<lparr>sem_count = 0, sem_max = 1\<rparr>\<rparr>)"
    using assms(1) by (simp add: pipe_inv_def sem_inv_def permits_def)
  with assms show ?thesis
    by (simp add: pipe_read_blocking_def sem_wait.simps pipe_read_some)
qed

lemma blocking_write_ready:
  assumes "pipe_inv p" and "p_active p \<noteq> 0" and "p_not_full p = \<lparr>sem_count = 1, sem_max = 1\<rparr>"
    and "p_count p < PIPE_BUFFER_SIZE"
  shows "pipe_write_blocking cur ws w (Some p) v =
    Some (E_OK, Some (after_write v (p\<lparr>p_not_full := \<lparr>sem_count = 0, sem_max = 1\<rparr>\<rparr>)))"
proof -
  have "pipe_inv (p\<lparr>p_not_full := \<lparr>sem_count = 0, sem_max = 1\<rparr>\<rparr>)"
    using assms(1) by (simp add: pipe_inv_def sem_inv_def permits_def)
  with assms show ?thesis
    by (simp add: pipe_write_blocking_def sem_wait.simps pipe_write_room)
qed

text \<open>Interference during which no task posts the semaphore that \<open>get\<close> selects.\<close>

definition no_post :: "('s \<Rightarrow> semaphore) \<Rightarrow> 's interference \<Rightarrow> bool" where
  "no_post get w \<longleftrightarrow> (\<forall>e\<in>set w. \<forall>s. permits (get s) \<le> 0 \<longrightarrow> permits (get (e s)) \<le> 0)"

lemma blocking_read_stuck:
  assumes "p_active p \<noteq> 0" and "permits (p_not_empty p) \<le> 0" and "no_post p_not_empty ws"
  shows "pipe_read_blocking cur ws w (Some p) True = None"
  using assms wait_never_returns [of p_not_empty p ws]
  by (simp add: pipe_read_blocking_def no_post_def)

lemma blocking_write_stuck:
  assumes "p_active p \<noteq> 0" and "permits (p_not_full p) \<le> 0" and "no_post p_not_full ws"
  shows "pipe_write_blocking cur ws w (Some p) v = None"
  using assms wait_never_returns [of p_not_full p ws]
  by (simp add: pipe_write_blocking_def no_post_def)

text \<open>
  \<open>pipe_write\<close> on a well-formed pipe always returns, whatever the other tasks do: \<open>E_BADF\<close> on a
  closed pipe and \<open>E_BUSY\<close> on a full one, both leaving its contents alone; otherwise \<open>E_OK\<close> and the
  word is appended. The pipe stays well-formed.
\<close>

theorem pipe_write_correct:
  assumes "pipe_inv p"
  shows "\<exists>e p'. pipe_write cur w (Some p) v = Some (e, Some p') \<and> pipe_inv p' \<and>
     e = (if p_active p = 0 then E_BADF
          else if length (pipe_list p) = PIPE_BUFFER_SIZE then E_BUSY else E_OK) \<and>
     pipe_list p' = (if e = E_OK then pipe_list p @ [v] else pipe_list p)"
proof -
  consider "p_active p = 0" | "p_active p \<noteq> 0" "p_count p = PIPE_BUFFER_SIZE"
    | "p_active p \<noteq> 0" "p_count p < PIPE_BUFFER_SIZE"
    using assms by (auto simp: pipe_inv_def le_less)
  then show ?thesis
  proof cases
    case 1
    with assms show ?thesis by (simp add: pipe_write_def)
  next
    case 2
    with assms show ?thesis by (simp add: pipe_write_full)
  next
    case 3
    with assms show ?thesis by (simp add: pipe_write_room pipe_inv_write pipe_list_write)
  qed
qed

definition raw_pipe :: pipe where
  "raw_pipe = \<lparr>p_buffer = replicate PIPE_BUFFER_SIZE 0, p_read_idx = 4, p_write_idx = 9,
     p_count = 2, p_readers = 0, p_writers = 0, p_lock = \<lparr>locked = 1, owner = 2\<rparr>,
     p_not_empty = \<lparr>sem_count = 9, sem_max = 9\<rparr>, p_not_full = \<lparr>sem_count = 9, sem_max = 9\<rparr>,
     p_active = 0\<rparr>"

definition demo_pipe :: pipe where
  "demo_pipe = fresh_pipe raw_pipe"

lemma raw_pipe_length: "length (p_buffer raw_pipe) = PIPE_BUFFER_SIZE"
  by (simp add: raw_pipe_def)

lemma demo_pipe_inv: "pipe_inv demo_pipe"
  unfolding demo_pipe_def by (rule fresh_pipe_inv [OF raw_pipe_length])

lemma raw_pipe_create:
  "pipe_create 3 (Some raw_pipe) blank_log =
    (E_OK, Some demo_pipe, log_msg 3 LOG_DEBUG (''Pipe cr'' @ e_acute @ e_acute) blank_log)"
  by (simp add: demo_pipe_def raw_pipe_def fresh_pipe_def pipe_create_def mutex_init_def sem_init_def)

theorem pipe_write_correct_witness:
  "\<exists>e p'. pipe_write 1 [] (Some demo_pipe) 5 = Some (e, Some p') \<and> pipe_inv p' \<and>
     e = (if p_active demo_pipe = 0 then E_BADF
          else if length (pipe_list demo_pipe) = PIPE_BUFFER_SIZE then E_BUSY else E_OK) \<and>
     pipe_list p' = (if e = E_OK then pipe_list demo_pipe @ [5] else pipe_list demo_pipe)"
  by (rule pipe_write_correct [OF demo_pipe_inv])



text \<open>
  A blocking reader can wait for ever on a pipe that holds data: after two writes to a fresh
  pipe (the semaphore of the readers is binary, so the second write adds no permit) and one blocking
  read, one word is left, and a second blocking read does not return as long as nobody writes.
\<close>

theorem blocking_reader_starves:
  assumes "length (p_buffer p) = PIPE_BUFFER_SIZE"
    and "pipe_create ticks (Some p) l = (e, Some p0, l')"
  shows "\<exists>p1 p2 p3. pipe_write cur w (Some p0) a = Some (E_OK, Some p1) \<and>
    pipe_write cur w (Some p1) b = Some (E_OK, Some p2) \<and>
    pipe_read_blocking cur ws w (Some p2) True = Some (E_OK, Some a, Some p3) \<and>
    pipe_list p3 = [b] \<and>
    (\<forall>ws'. no_post p_not_empty ws' \<longrightarrow> pipe_read_blocking cur ws' w (Some p3) True = None)"
proof -
  have p0: "p0 = fresh_pipe p" using pipe_create_fresh [of ticks p l] assms(2) by simp
  define p1 p2 where "p1 = after_write a p0" and "p2 = after_write b p1"
  define p3 where "p3 = after_read (p2\<lparr>p_not_empty := \<lparr>sem_count = 0, sem_max = 1\<rparr>\<rparr>)"
  have inv0: "pipe_inv p0" using fresh_pipe_inv [OF assms(1)] p0 by simp
  have inv1: "pipe_inv p1" using inv0 by (simp add: p1_def kinv p0 PIPE_BUFFER_SIZE_def)
  have inv2: "pipe_inv p2" using inv1 by (simp add: p2_def kinv p1_def p0 PIPE_BUFFER_SIZE_def)
  have list2: "pipe_list p2 = [a, b]"
    using inv0 inv1 by (simp add: p2_def p1_def pipe_list_write p0 PIPE_BUFFER_SIZE_def)
  have w1: "pipe_write cur w (Some p0) a = Some (E_OK, Some p1)"
    using inv0 by (simp add: pipe_write_room p1_def p0 PIPE_BUFFER_SIZE_def)
  have w2: "pipe_write cur w (Some p1) b = Some (E_OK, Some p2)"
    using inv1 by (simp add: pipe_write_room p2_def p1_def p0 PIPE_BUFFER_SIZE_def)
  have "pipe_list (after_read p2) = pipe_list p3"
    by (simp add: p3_def pipe_list_def after_read_def)
  then have list3: "pipe_list p3 = [b]" and hd: "p_buffer p2 ! p_read_idx p2 = a"
    using pipe_list_read [OF inv2] list2 by (simp_all add: p2_def p1_def p0)
  have r: "pipe_read_blocking cur ws w (Some p2) True = Some (E_OK, Some a, Some p3)"
    using blocking_read_ready [OF inv2, of cur ws w] hd by (simp add: p3_def p2_def p1_def p0)
  have "p_active p3 \<noteq> 0" "permits (p_not_empty p3) \<le> 0"
    by (simp_all add: p3_def p2_def p1_def p0 permits_def)
  with w1 w2 r list3 blocking_read_stuck show ?thesis by blast
qed

theorem blocking_reader_starves_witness:
  "\<exists>p1 p2 p3. pipe_write 1 [] (Some demo_pipe) 10 = Some (E_OK, Some p1) \<and>
    pipe_write 1 [] (Some p1) 20 = Some (E_OK, Some p2) \<and>
    pipe_read_blocking 1 [] [] (Some p2) True = Some (E_OK, Some 10, Some p3) \<and>
    pipe_list p3 = [20] \<and>
    (\<forall>ws'. no_post p_not_empty ws' \<longrightarrow> pipe_read_blocking 1 ws' [] (Some p3) True = None)"
  by (rule blocking_reader_starves [OF raw_pipe_length raw_pipe_create])

text \<open>
  The blocking writer treats the 256-word ring as one slot: after one blocking write to a fresh
  pipe, the next blocking write does not return until somebody reads, with 255 places free.
\<close>

theorem blocking_writer_one_slot:
  assumes "length (p_buffer p) = PIPE_BUFFER_SIZE"
    and "pipe_create ticks (Some p) l = (e, Some p0, l')"
  shows "\<exists>p1. pipe_write_blocking cur ws w (Some p0) a = Some (E_OK, Some p1) \<and>
    pipe_get_count cur w (Some p1) = Some (1, Some p1) \<and>
    (\<forall>ws'. no_post p_not_full ws' \<longrightarrow> pipe_write_blocking cur ws' w (Some p1) b = None)"
proof -
  have p0: "p0 = fresh_pipe p" using pipe_create_fresh [of ticks p l] assms(2) by simp
  define p0' where "p0' = p0\<lparr>p_not_full := \<lparr>sem_count = 0, sem_max = 1\<rparr>\<rparr>"
  have inv0: "pipe_inv p0" using fresh_pipe_inv [OF assms(1)] p0 by simp
  then have inv0': "pipe_inv p0'"
    by (simp add: p0'_def pipe_inv_def sem_inv_def permits_def)
  have w1: "pipe_write_blocking cur ws w (Some p0) a = Some (E_OK, Some (after_write a p0'))"
    using blocking_write_ready [OF inv0, of cur ws w a] by (simp add: p0'_def p0 PIPE_BUFFER_SIZE_def)
  have "pipe_inv (after_write a p0')"
    using inv0' by (simp add: kinv p0'_def p0 PIPE_BUFFER_SIZE_def)
  then have cnt: "pipe_get_count cur w (Some (after_write a p0')) = Some (1, Some (after_write a p0'))"
    by (simp add: pipe_count_run p0'_def p0)
  have "p_active (after_write a p0') \<noteq> 0" "permits (p_not_full (after_write a p0')) \<le> 0"
    by (simp_all add: p0'_def p0 permits_def)
  with w1 cnt blocking_write_stuck show ?thesis by blast
qed

theorem blocking_writer_one_slot_witness:
  "\<exists>p1. pipe_write_blocking 1 [] [] (Some demo_pipe) 10 = Some (E_OK, Some p1) \<and>
    pipe_get_count 1 [] (Some p1) = Some (1, Some p1) \<and>
    (\<forall>ws'. no_post p_not_full ws' \<longrightarrow> pipe_write_blocking 1 ws' [] (Some p1) 20 = None)"
  by (rule blocking_writer_one_slot [OF raw_pipe_length raw_pipe_create])

end
