(* ===== verification/Spec2Isabelle.thy ===== *)
theory Spec2Isabelle
  imports Preemption Interleaving Pipe
begin

text \<open>
  Verification of a small preemptive kernel for 32-bit x86 (the C and assembly files under \<^verbatim>\<open>src/\<close>).

  \<^bold>\<open>The program.\<close> \<^verbatim>\<open>boot.s\<close> enters \<^verbatim>\<open>kernel.c\<close>, which sets up segments (\<^verbatim>\<open>gdt.c\<close>, \<^verbatim>\<open>ring.c\<close>), the interrupt table (\<^verbatim>\<open>idt.c\<close>), the
  screen and the subsystems, and starts two demonstration tasks. Interrupts enter and leave through the stubs of
  \<^verbatim>\<open>interrupts.s\<close>. The timer interrupt (\<^verbatim>\<open>timer.c\<close>) runs the registered
  callbacks and then \<open>schedule\<close> (\<^verbatim>\<open>task.c\<close>), which picks the next task from a circular list. The keyboard interrupt
  (\<^verbatim>\<open>keyboard.c\<close>) feeds the shell (\<^verbatim>\<open>shell.c\<close>), whose commands reach every other part. Tasks exchange words through a
  message queue (\<^verbatim>\<open>queue.c\<close>) and pipes (\<^verbatim>\<open>pipe.c\<close>), guarded by mutexes (\<^verbatim>\<open>mutex.c\<close>) and semaphores (\<^verbatim>\<open>semaphore.c\<close>,
  \<^verbatim>\<open>sema.c\<close>). Memory comes from the heap (\<^verbatim>\<open>heap.c\<close>) and the page allocator (\<^verbatim>\<open>paging.c\<close>). A second table of
  processes (\<^verbatim>\<open>process.c\<close>) carries the signals (\<^verbatim>\<open>signal.c\<close>). System calls enter through \<^verbatim>\<open>syscall.c\<close>. Files live in a
  table in memory (\<^verbatim>\<open>vfs.c\<close>); messages go to the logs (\<^verbatim>\<open>logging.c\<close>, \<^verbatim>\<open>klog.c\<close>, \<^verbatim>\<open>serial.c\<close>); faults end in
  \<^verbatim>\<open>panic.c\<close>.

  \<^bold>\<open>How it is modelled.\<close>
  \<^item> A C struct, and the static variables of a file, are a record; an enum is a datatype; \<open>uint32_t\<close> is a
    32-bit word, so that sums wrap. An \<open>int\<close> used as an index or a counter whose values stay small is a
    natural number or an integer. A pointer into a pool of control blocks is a natural number, 0 for NULL.
  \<^item> An operation is a function from the state to its result and the new state. \<open>None\<close> as the result of an
    operation means that it does not return; NULL and error codes are values.
  \<^item> Loops over linked structures are \<open>partial_function (option)\<close>, so that a list that does not close gives
    \<open>None\<close>; the theorems that an operation returns state \<open>Some\<close>. Loops over arrays are folds.
  \<^item> \<open>mutex_lock\<close> and \<open>sem_wait\<close> retry until they succeed. Between two attempts other tasks run: the argument
    \<open>w\<close> (\<open>interference\<close>) lists what they do to the structure, one function per attempt, and the operation
    returns only if some attempt finds the lock free. The theorems assume of \<open>w\<close> at most that the others
    respect a lock held by the caller; the interleaving theorems of \<open>Mutex\<close> and \<open>Semaphore\<close> quantify over
    every schedule of their step relations. Between two such points an operation is taken to run alone, which
    the lock it holds ensures.
  \<^item> Time stamps, hardware registers that are read, bytes of memory that belong to no structure, addresses
    chosen by the linker and installed signal handlers are arguments, gathered in the records \<open>env\<close> and
    \<open>layout\<close> for the upper layers. Bytes written to ports are a trace.

  \<^bold>\<open>Theories.\<close>
  \<^item> \<open>Kernel_Prelude\<close>: C strings in arrays, decimal output and input, search of a table, bit masks, and two contracts:
    \<open>simulation\<close>, of operations that implement a specification step by step (interpreted by the screen and by the
    command line), and \<open>step_invariant\<close>, of an invariant of all states a step relation reaches (interpreted by the
    tasks at a lock, the users of a semaphore, the whole kernel and the interleaved demonstration tasks).
  \<^item> \<open>Mutex\<close>, \<open>Semaphore\<close>: the locks. \<open>mutex_guarded\<close> is the interface of a structure with a lock in it;
    queue, pipe, heap, signals, paging and the screen lock interpret it. Mutual exclusion, progress and
    conservation of permits are proved over every interleaving.
  \<^item> \<open>Ring_Buffer\<close>: circular arrays, with the contracts \<open>bounded_fifo\<close> (refuses when full; interpreted by
    \<open>Queue\<close> and \<open>Pipe\<close>) and \<open>bounded_log\<close> (forgets the oldest; interpreted by both logs of \<open>Logging\<close>).
  \<^item> \<open>Heap_Blocks\<close>: the abstract heap, a sequence of blocks that tile a region; \<open>Heap\<close>: the linked headers
    of \<^verbatim>\<open>heap.c\<close> and their refinement to it: allocation, release, coalescing, round trip, accounting.
  \<^item> \<open>Scheduling\<close>: circular lists, the walk round one, and the contracts of choosing the first or the last
    element of highest priority; \<open>Task\<close> and \<open>Process\<close> interpret them. For tasks: the invariant of the ring,
    the decision, fairness among equals, sleeping and waking, the first activation of a new task. For
    processes: creation, exit, the decision, and where reuse of a slot breaks the list.
  \<^item> \<open>Signal\<close>: what \<open>kill\<close> marks and \<open>signal_dispatch\<close> delivers, in which order.
  \<^item> \<open>Paging\<close>: the bitmap allocator, the identity map and the translation of mapped pages.
  \<^item> \<open>Vfs\<close>: the file table refines a bounded dictionary (\<open>file_store\<close>).
  \<^item> \<open>Errors\<close>, \<open>Logging\<close>: codes, messages and what a log dump shows.
  \<^item> \<open>Timer\<close>: tick counter, callback table and waiting; \<open>timer_user\<close> is the interface of a state with a timer and
    callbacks that leave it alone (interpreted by the kernel in \<open>Kernel\<close>).
  \<^item> \<open>Terminal\<close>: the scrollback as the last lines of a text, and what each cell of the screen shows.
  \<^item> \<open>Privilege\<close>: descriptors as the processor reads them, the change to user mode, the check of user pointers.
  \<^item> \<open>Interrupts\<close>: gates, handlers, dispatch, where the interrupt controllers deliver each line, and the panic screen.
  \<^item> \<open>Stubs\<close>: \<^verbatim>\<open>interrupts.s\<close>, \<^verbatim>\<open>gdt_flush.s\<close> and \<^verbatim>\<open>boot.s\<close> as lists of instructions of a small processor: what an
    interrupt saves and restores, what the panic screen shows of a fault, how a system call returns.
  \<^item> \<open>Kernel_State\<close>: the state of the whole kernel, an extension of the \<open>machine\<close> of \<open>Interrupts\<close>.
  \<^item> \<open>Syscall\<close>: dispatch and wrappers; what a call may change.
  \<^item> \<open>Shell_Input\<close>, \<open>Shell\<close>: the command line as a line editor with history; the commands, what they leave
    alone, the heap they share, and the numbers they read and print.
  \<^item> \<open>Keyboard\<close>: scancodes to edits of the line.
  \<^item> \<open>Kernel\<close>: the clock, the demonstration tasks, the interrupts of the kernel and \<open>kernel_main\<close>.
  \<^item> \<open>Services\<close>: the invariants of the services behind the shell, with the locks they use free, and that every command returns
    and keeps them. \<open>Display\<close>: that they keep the screen.
  \<^item> \<open>System\<close>: the invariant of the kernel, established by boot and kept by every interrupt, key, command and
    task round (\<open>reachable\<close>), and that each of them returns. It says nothing of the message queue and the screen lock,
    so that it holds also while a task is inside their sections; after whole rounds both are free.
  \<^item> \<open>Interleaving\<close>: the loops of \<open>task_a\<close> and \<open>task_b\<close> cut into pieces (\<open>own\<close>), with interrupts between any two, and
    that the pieces make up the rounds of \<open>Kernel\<close>. In every interleaving the sections exclude each other and the numbers
    pass the queue in order; one of them, reached from every boot, ends in a priority inversion that stops both tasks.
  \<^item> \<open>Preemption\<close>: the stubs around the interrupts of the kernel, on one processor and the memory with the stacks: each
    task sees a processor of its own.

  \<^bold>\<open>Bounds.\<close> There is no fuel in the loops over lists. The retry loops end with the list \<open>w\<close>. The digit loop
  of the prelude has a bound of 16 digits, more than the ten of a 32-bit number.

  \<^bold>\<open>Not modelled.\<close> The halt loop behind \<open>kernel_main\<close>; the macros of \<^verbatim>\<open>error.h\<close>, which no file uses; the scheduling
  functions \<^verbatim>\<open>sema.c\<close> calls, which exist nowhere; \<open>spawned_task_fn\<close>, which never runs (\<open>spawned_never_runs\<close>). The steps
  of \<open>reachable\<close> are whole interrupts and whole rounds of a task; those of \<open>Interleaving\<close> are whole interrupts and pieces
  of a round: one attempt at a lock with the sleep after a failed one, the body of a section, one unlock, the final sleep. An
  interrupt inside a piece is not modelled there, nor one inside the handler of another, although the \<open>sti\<close> at the end of
  \<open>mutex_lock\<close> and \<open>mutex_unlock\<close> lets one in when a command run by the keyboard handler uses a lock. The runs of
  \<open>Preemption\<close> are finer: an own step there is any piece of code of the running task that stays on its stack, keeps the
  contexts of the others and the invariant, and an interrupt may come between any two. Compiled C code is not modelled: a handler called by a stub is its definition here, and what
  the calling convention lets it leave in registers and below its stack pointer is arbitrary.
\<close>

end
